(* ===== verification/Core_Prelude.thy ===== *)
theory Core_Prelude
  imports Main "HOL-Library.AList" "HOL-Library.Multiset"
begin

text \<open>
  Generic material shared by every component theory: the fact collections that the component
  proofs feed to the simplifier, and lemmas on lists, association lists and counting that are not
  about this program.

  Threads are modelled as the elements of a list (thread \<open>i\<close> is the element at index
  \<open>i\<close>), so counting threads in a state is \<open>count_if\<close> and a thread's move is a list
  update.
\<close>

named_theorems core_defs \<open>definitions of the model that proofs unfold together\<close>
named_theorems core_count \<open>how a list update changes a count\<close>
named_theorems core_inv \<open>preservation lemmas of the component invariants\<close>

subsection \<open>Counting the elements of a list that satisfy a predicate\<close>

definition count_if :: "('a \<Rightarrow> bool) \<Rightarrow> 'a list \<Rightarrow> nat" where
  "count_if P xs = length (filter P xs)"

lemma count_if_Nil [simp]: "count_if P [] = 0"
  by (simp add: count_if_def)

lemma count_if_Cons [simp]: "count_if P (x # xs) = (if P x then 1 else 0) + count_if P xs"
  by (simp add: count_if_def)

lemma count_if_append [simp]: "count_if P (xs @ ys) = count_if P xs + count_if P ys"
  by (simp add: count_if_def)

lemma count_if_le_length: "count_if P xs \<le> length xs"
  by (simp add: count_if_def)

lemma count_if_eq_length_iff: "count_if P xs = length xs \<longleftrightarrow> (\<forall>x \<in> set xs. P x)"
  unfolding count_if_def by (metis filter_id_conv filter_True length_filter_less less_irrefl)

lemma count_if_replicate [simp]: "count_if P (replicate n x) = (if P x then n else 0)"
  by (induction n) auto

lemma count_if_pos: "i < length xs \<Longrightarrow> P (xs ! i) \<Longrightarrow> 0 < count_if P xs"
  by (auto simp: count_if_def filter_empty_conv)

lemma count_if_map: "count_if P (map f xs) = count_if (P \<circ> f) xs"
  by (simp add: count_if_def filter_map comp_def)

lemma count_if_cong: "(\<And>x. x \<in> set xs \<Longrightarrow> P x = Q x) \<Longrightarrow> count_if P xs = count_if Q xs"
  unfolding count_if_def by (metis filter_cong)

text \<open>One thread moving from a state to another changes a count by at most one.\<close>

lemma count_if_update [core_count]:
  assumes "i < length xs"
  shows "count_if P (xs[i := y]) =
    (if P y then Suc (count_if P xs - (if P (xs ! i) then 1 else 0))
     else count_if P xs - (if P (xs ! i) then 1 else 0))"
proof -
  have "xs = take i xs @ xs ! i # drop (Suc i) xs"
    using assms by (simp add: id_take_nth_drop)
  then have split: "count_if P xs =
      count_if P (take i xs) + (if P (xs ! i) then 1 else 0) + count_if P (drop (Suc i) xs)"
    by (metis add.assoc count_if_append count_if_Cons)
  have "xs[i := y] = take i xs @ y # drop (Suc i) xs"
    using assms by (simp add: upd_conv_take_nth_drop)
  then show ?thesis by (simp add: split)
qed

lemma count_if_update_same:
  "i < length xs \<Longrightarrow> P y = P (xs ! i) \<Longrightarrow> count_if P (xs[i := y]) = count_if P xs"
  using count_if_pos [of i xs P] by (auto simp: count_if_update)

lemma count_if_unique:
  assumes "count_if P xs \<le> 1" and i: "i < length xs" "P (xs ! i)" and j: "j < length xs" "P (xs ! j)"
  shows "j = i"
proof (rule ccontr)
  assume "j \<noteq> i"
  have "card {i, j} \<le> card {k. k < length xs \<and> P (xs ! k)}"
    using i j by (intro card_mono) auto
  then show False
    using assms(1) \<open>j \<noteq> i\<close> by (simp add: count_if_def length_filter_conv_card)
qed

subsection \<open>Updating one element\<close>

lemma all_nth_update:
  "(\<forall>k < length xs. P (xs ! k)) \<Longrightarrow> P y \<Longrightarrow> \<forall>k < length xs. P (xs[i := y] ! k)"
  by (metis nth_list_update_eq nth_list_update_neq)

lemma set_update_cases: "x \<in> set (xs[i := y]) \<Longrightarrow> x = y \<or> x \<in> set xs"
  by (metis insert_iff set_update_subset_insert subset_iff)

lemma sum_list_update_nat:
  fixes f :: "'a \<Rightarrow> nat"
  assumes "i < length xs"
  shows "sum_list (map f (xs[i := y])) + f (xs ! i) = sum_list (map f xs) + f y"
proof -
  have "xs = take i xs @ xs ! i # drop (Suc i) xs"
    using assms by (simp add: id_take_nth_drop)
  then have "sum_list (map f xs) =
      sum_list (map f (take i xs)) + f (xs ! i) + sum_list (map f (drop (Suc i) xs))"
    by (metis (no_types) add.assoc list.simps(9) map_append sum_list.Cons sum_list_append)
  then show ?thesis
    using assms by (simp add: upd_conv_take_nth_drop)
qed

end
