(* ===== verification/Core_Errors.thy ===== *)
theory Core_Errors
  imports Core_Prelude
begin

text \<open>
  The error interface of the program, \<^verbatim>\<open>common/cxx/adstutil_cxx\<close>
  (\<^verbatim>\<open>error_handler.hpp\<close>, \<^verbatim>\<open>error_handler.cpp\<close>).

  The error callback is a \<^verbatim>\<open>std::function<void(const Error&)>\<close> supplied by the user of
  the framework. All the code observes of it is whether the call returns: a \<open>handler\<close> is the
  predicate that says for which errors it does. The documented contract is that it never returns
  (\<open>obeys_contract\<close>); the model keeps what the code does after a callback that returns
  nevertheless, since several of the repository's own tests install such a callback.
  A message built by \<^verbatim>\<open>fmt::format\<close> is kept as the template and its arguments,
  because the formatting library is not part of the repository.
\<close>

datatype err_text = Lit string | Fmt string "string list"

record error =
  err_code :: int
  err_text :: err_text

definition default_error :: error where
  "default_error = \<lparr>err_code = 1, err_text = Lit ''UNKNOWN''\<rparr>"

definition mk_error :: "int \<Rightarrow> string \<Rightarrow> error" where
  "mk_error c m = \<lparr>err_code = c, err_text = Lit m\<rparr>"

definition mk_error_fmt :: "int \<Rightarrow> string \<Rightarrow> string list \<Rightarrow> error" where
  "mk_error_fmt c m as = \<lparr>err_code = c, err_text = Fmt m as\<rparr>"

type_synonym handler = "error \<Rightarrow> bool"

text \<open>The default callback prints the message and exits with the code of the error.\<close>

definition onErrorFunc :: handler where
  "onErrorFunc e = False"

definition exit_status :: "error \<Rightarrow> int" where
  "exit_status e = err_code e"

definition obeys_contract :: "handler \<Rightarrow> bool" where
  "obeys_contract h \<longleftrightarrow> (\<forall>e. \<not> h e)"

lemma onErrorFunc_contract [simp]: "obeys_contract onErrorFunc"
  by (simp add: obeys_contract_def onErrorFunc_def)

lemma obeys_contractD: "obeys_contract h \<Longrightarrow> \<not> h e"
  by (simp add: obeys_contract_def)

text \<open>
  Reporting an error: the rest of the computation (\<open>k\<close>) happens only when the callback
  returns, otherwise the process is gone and the error is its exit.
\<close>

definition report :: "handler \<Rightarrow> error \<Rightarrow> error + 'a \<Rightarrow> error + 'a" where
  "report h e k = (if h e then k else Inl e)"

lemma report_contract [simp]: "obeys_contract h \<Longrightarrow> report h e k = Inl e"
  by (simp add: report_def obeys_contractD)

lemma report_Inr_iff [simp]: "report h e k = Inr r \<longleftrightarrow> h e \<and> k = Inr r"
  by (simp add: report_def obeys_contractD)

end
