(* ===== verification/Priority_Dispatch.thy ===== *)
theory Priority_Dispatch
  imports Core_Errors
begin

text \<open>
  The priority level, \<^verbatim>\<open>rapi_core/include/core/priority.hpp\<close> and
  \<^verbatim>\<open>rapi_core/src/priority.cpp\<close>: a pool of dispatcher threads that take callbacks from
  one queue, started and stopped by a client thread.

  Every stretch of code between acquiring and releasing a mutex (or waiting on a condition
  variable, which releases it) is one atomic section here. A dispatcher's program counter
  \<open>dpc\<close> says which section it executes next and whether it is blocked in a wait; the flag
  of a blocked thread says whether it has been notified. A wait on a condition variable with a
  predicate is: test the predicate, block if it is false, and after each wake-up test it again; wake-ups
  may be spurious. The client program counter \<open>cpc\<close> does the same for the thread that
  calls \<^verbatim>\<open>start\<close>, \<^verbatim>\<open>waitForIdle\<close>,
  \<^verbatim>\<open>stop\<close> and the destructor.

  Two fields are ghosts: \<open>scheduledLog\<close> records every callback given to
  \<^verbatim>\<open>schedule\<close>, \<open>takenLog\<close> every callback a dispatcher took, in order.
  The callbacks themselves are an arbitrary type \<open>'job\<close>; a running callback may call
  \<^verbatim>\<open>schedule\<close>, and so may any other thread.
\<close>

section \<open>State\<close>

datatype pstate = START | RUNNING | STOPPING | STOPPED

text \<open>The states in the order in which the state machine goes through them.\<close>

fun pstate_rank :: "pstate \<Rightarrow> nat" where
  "pstate_rank START = 0"
| "pstate_rank RUNNING = 1"
| "pstate_rank STOPPING = 2"
| "pstate_rank STOPPED = 3"

lemma pstate_rank_inject [simp]: "pstate_rank s = pstate_rank t \<longleftrightarrow> s = t"
  by (cases s; cases t) simp_all

instantiation pstate :: linorder
begin

definition less_eq_pstate :: "pstate \<Rightarrow> pstate \<Rightarrow> bool" where
  "less_eq_pstate s t = (pstate_rank s \<le> pstate_rank t)"

definition less_pstate :: "pstate \<Rightarrow> pstate \<Rightarrow> bool" where
  "less_pstate s t = (pstate_rank s < pstate_rank t)"

instance
  by standard (auto simp: less_eq_pstate_def less_pstate_def)

end

datatype 'job dpc =
    AtStart                \<comment> \<open>about to lock \<open>stateChangeMutex\<close> for the start wait\<close>
  | StartBlocked bool      \<comment> \<open>in \<open>startEvent.wait\<close>; \<open>True\<close>: notified\<close>
  | BeforeCount            \<comment> \<open>start wait passed, \<open>startCount--\<close> still to do\<close>
  | LoopEntry              \<comment> \<open>about to lock \<open>stateChangeMutex\<close> and test the loop condition\<close>
  | Sleeping bool          \<comment> \<open>in \<open>scheduleEvent.wait\<close>; \<open>True\<close>: notified\<close>
  | Running 'job           \<comment> \<open>executing \<open>callBack()\<close> with no lock held\<close>
  | Exited                 \<comment> \<open>the loop has been left\<close>

datatype cpc =
    CIdle                  \<comment> \<open>not inside a member function\<close>
  | CStartNotify           \<comment> \<open>\<open>start\<close>: mutex released, before \<open>startEvent.notify_all\<close>\<close>
  | CStartWait bool        \<comment> \<open>\<open>start\<close>: waiting for \<open>startCount = 0\<close>\<close>
  | CIdleWait bool         \<comment> \<open>\<open>waitForIdle\<close>: waiting on \<open>idleEvent\<close>\<close>
  | CStopWait bool         \<comment> \<open>\<open>stop\<close>: waiting on \<open>startedEvent\<close>\<close>
  | CStopNotify            \<comment> \<open>\<open>stop\<close>: mutex released, before \<open>scheduleEvent.notify_all\<close>\<close>
  | CDtorRelock            \<comment> \<open>destructor, case \<open>START\<close>: after \<open>start\<close>, before locking again\<close>
  | CJoin                  \<comment> \<open>destructor: joining the dispatcher threads\<close>
  | CDestroyed

record 'job prio =
  pstate :: pstate
  dispatchers :: "'job dpc list"
  actorQueue :: "'job list"
  startCount :: int
  sleepingCount :: nat
  client :: cpc
  inDtor :: bool
  scheduledLog :: "'job list"
  takenLog :: "(nat \<times> 'job) list"

text \<open>The constructor creates the dispatcher threads; none for a count that is not positive.\<close>

definition priority_init :: "int \<Rightarrow> 'job prio" where
  "priority_init dispatcherCount =
     \<lparr>pstate = START, dispatchers = replicate (nat dispatcherCount) AtStart, actorQueue = [],
      startCount = dispatcherCount, sleepingCount = 0, client = CIdle, inDtor = False,
      scheduledLog = [], takenLog = []\<rparr>"

definition set_pc :: "nat \<Rightarrow> 'job dpc \<Rightarrow> 'job prio \<Rightarrow> 'job prio" where
  "set_pc i c p = p\<lparr>dispatchers := (dispatchers p)[i := c]\<rparr>"

section \<open>Condition variables\<close>

fun wake_sleeping :: "'job dpc \<Rightarrow> 'job dpc" where
  "wake_sleeping (Sleeping b) = Sleeping True"
| "wake_sleeping c = c"

fun wake_start_blocked :: "'job dpc \<Rightarrow> 'job dpc" where
  "wake_start_blocked (StartBlocked b) = StartBlocked True"
| "wake_start_blocked c = c"

definition notify_all_schedule :: "'job prio \<Rightarrow> 'job prio" where
  "notify_all_schedule p = p\<lparr>dispatchers := map wake_sleeping (dispatchers p)\<rparr>"

definition notify_all_start :: "'job prio \<Rightarrow> 'job prio" where
  "notify_all_start p = p\<lparr>dispatchers := map wake_start_blocked (dispatchers p)\<rparr>"

text \<open>
  \<^verbatim>\<open>startedEvent_\<close> and \<^verbatim>\<open>idleEvent_\<close> are waited for by the
  client thread only; \<^verbatim>\<open>startedEvent_\<close> is used both by
  \<^verbatim>\<open>start\<close> and by \<^verbatim>\<open>stop\<close>.
\<close>

definition notify_started :: "'job prio \<Rightarrow> 'job prio" where
  "notify_started p = (case client p of
      CStartWait b \<Rightarrow> p\<lparr>client := CStartWait True\<rparr>
    | CStopWait b \<Rightarrow> p\<lparr>client := CStopWait True\<rparr>
    | _ \<Rightarrow> p)"

definition notify_idle :: "'job prio \<Rightarrow> 'job prio" where
  "notify_idle p = (case client p of
      CIdleWait b \<Rightarrow> p\<lparr>client := CIdleWait True\<rparr>
    | _ \<Rightarrow> p)"

section \<open>The dispatcher loop\<close>

text \<open>Taking a callback from the front of the queue; the lock is released before it runs.\<close>

definition take_job :: "nat \<Rightarrow> 'job \<Rightarrow> 'job list \<Rightarrow> 'job prio \<Rightarrow> 'job prio" where
  "take_job i j js p =
     set_pc i (Running j) (p\<lparr>actorQueue := js, takenLog := takenLog p @ [(i, j)]\<rparr>)"

definition go_to_sleep :: "nat \<Rightarrow> 'job prio \<Rightarrow> 'job prio" where
  "go_to_sleep i p =
     (let p' = p\<lparr>sleepingCount := sleepingCount p + 1\<rparr>;
          p'' = (if sleepingCount p' = length (dispatchers p') then notify_idle p' else p')
      in set_pc i (Sleeping False) p'')"

definition leave_loop :: "nat \<Rightarrow> 'job prio \<Rightarrow> 'job prio" where
  "leave_loop i p =
     notify_started (set_pc i Exited (p\<lparr>sleepingCount := sleepingCount p + 1\<rparr>))"

text \<open>
  The loop condition and, when it holds, the body up to the point where the lock is released.
  The queue is empty and the state is \<open>RUNNING\<close> when the body goes to sleep, so the
  predicate of the wait is false there and the thread blocks.
\<close>

definition loop_head :: "nat \<Rightarrow> 'job prio \<Rightarrow> 'job prio" where
  "loop_head i p =
     (if pstate p = RUNNING \<or> actorQueue p \<noteq> []
      then (case actorQueue p of
              [] \<Rightarrow> go_to_sleep i p
            | j # js \<Rightarrow> take_job i j js p)
      else leave_loop i p)"

text \<open>
  After a wake-up the predicate is tested again; when it holds the count is decremented and a
  callback is taken if there is one, otherwise the loop condition is tested again.
\<close>

definition after_wait :: "nat \<Rightarrow> 'job prio \<Rightarrow> 'job prio" where
  "after_wait i p =
     (if actorQueue p \<noteq> [] \<or> pstate p \<noteq> RUNNING
      then (let p' = p\<lparr>sleepingCount := sleepingCount p - 1\<rparr>
            in (case actorQueue p' of
                  [] \<Rightarrow> loop_head i p'
                | j # js \<Rightarrow> take_job i j js p'))
      else set_pc i (Sleeping False) p)"

definition start_wait :: "nat \<Rightarrow> 'job prio \<Rightarrow> 'job prio" where
  "start_wait i p =
     set_pc i (if pstate p = RUNNING then BeforeCount else StartBlocked False) p"

definition count_started :: "nat \<Rightarrow> 'job prio \<Rightarrow> 'job prio" where
  "count_started i p =
     notify_started (set_pc i LoopEntry (p\<lparr>startCount := startCount p - 1\<rparr>))"

definition dispatcherLoop :: "nat \<Rightarrow> 'job prio \<Rightarrow> 'job prio option" where
  "dispatcherLoop i p =
     (case dispatchers p ! i of
        AtStart \<Rightarrow> Some (start_wait i p)
      | StartBlocked b \<Rightarrow> if b then Some (start_wait i p) else None
      | BeforeCount \<Rightarrow> Some (count_started i p)
      | LoopEntry \<Rightarrow> Some (loop_head i p)
      | Sleeping b \<Rightarrow> if b then Some (after_wait i p) else None
      | Running j \<Rightarrow> Some (set_pc i LoopEntry p)
      | Exited \<Rightarrow> None)"

section \<open>The operations\<close>

definition err_start_twice :: error where
  "err_start_twice = mk_error 4 ''Priority::start can only be called once''"
definition err_stop_without_start :: error where
  "err_stop_without_start = mk_error 2 ''Priority::stop without prior start''"
definition err_schedule_stopped :: error where
  "err_schedule_stopped = mk_error 3 ''Priority::schedule after STOPPED state reached''"
definition err_dtor_stopping :: error where
  "err_dtor_stopping =
     mk_error 3 ''priority destructor and stop must be called from the same thread''"

text \<open>\<^verbatim>\<open>start\<close> up to the release of the state mutex, then its waiting part.\<close>

definition start_locked :: "handler \<Rightarrow> 'job prio \<Rightarrow> error + 'job prio" where
  "start_locked h p =
     (let k = Inr (p\<lparr>pstate := RUNNING, client := CStartNotify\<rparr>)
      in if pstate p \<noteq> START then report h err_start_twice k else k)"

definition start_return :: "'job prio \<Rightarrow> 'job prio" where
  "start_return p = p\<lparr>client := (if inDtor p then CDtorRelock else CIdle)\<rparr>"

definition start_count_wait :: "'job prio \<Rightarrow> 'job prio" where
  "start_count_wait p =
     (if startCount p = 0 then start_return p else p\<lparr>client := CStartWait False\<rparr>)"

text \<open>The predicate of the wait in \<^verbatim>\<open>stop\<close>.\<close>

definition all_done :: "'job prio \<Rightarrow> bool" where
  "all_done p \<longleftrightarrow> actorQueue p = [] \<and> sleepingCount p = length (dispatchers p)"

definition stop_finish :: "'job prio \<Rightarrow> 'job prio" where
  "stop_finish p = p\<lparr>pstate := STOPPED, client := CStopNotify\<rparr>"

definition stop_wait :: "'job prio \<Rightarrow> 'job prio" where
  "stop_wait p = (if all_done p then stop_finish p else p\<lparr>client := CStopWait False\<rparr>)"

definition stop_locked :: "handler \<Rightarrow> 'job prio \<Rightarrow> error + 'job prio" where
  "stop_locked h p =
     (let p' = p\<lparr>pstate := STOPPING\<rparr>;
          k = Inr (if actorQueue p' \<noteq> [] \<or> sleepingCount p' \<noteq> length (dispatchers p')
                   then stop_wait p' else stop_finish p')
      in if pstate p \<noteq> RUNNING then report h err_stop_without_start k else k)"

definition stop_notify :: "'job prio \<Rightarrow> 'job prio" where
  "stop_notify p =
     (notify_all_schedule p)\<lparr>client := (if inDtor p then CJoin else CIdle)\<rparr>"

definition schedule :: "handler \<Rightarrow> 'job \<Rightarrow> 'job prio \<Rightarrow> error + 'job prio" where
  "schedule h j p =
     (let p' = p\<lparr>actorQueue := actorQueue p @ [j], scheduledLog := scheduledLog p @ [j]\<rparr>;
          k = Inr (if length (actorQueue p') = 1 then notify_all_schedule p' else p')
      in if pstate p = STOPPED then report h err_schedule_stopped k else k)"

definition waitForIdle :: "'job prio \<Rightarrow> 'job prio" where
  "waitForIdle p =
     (if actorQueue p \<noteq> [] \<or> sleepingCount p \<noteq> length (dispatchers p)
      then (if sleepingCount p = length (dispatchers p) then p
            else p\<lparr>client := CIdleWait False\<rparr>)
      else p)"

definition destructor :: "handler \<Rightarrow> 'job prio \<Rightarrow> error + 'job prio" where
  "destructor h p0 =
     (let p = p0\<lparr>inDtor := True\<rparr>
      in case pstate p of
           START \<Rightarrow> start_locked h p
         | RUNNING \<Rightarrow> stop_locked h p
         | STOPPING \<Rightarrow> report h err_dtor_stopping (Inr (p\<lparr>client := CJoin\<rparr>))
         | STOPPED \<Rightarrow> Inr (p\<lparr>client := CJoin\<rparr>))"

text \<open>Continuing a client operation that is past its first section.\<close>

definition client_section :: "handler \<Rightarrow> 'job prio \<Rightarrow> (error + 'job prio) option" where
  "client_section h p =
     (case client p of
        CIdle \<Rightarrow> None
      | CStartNotify \<Rightarrow> Some (Inr (start_count_wait (notify_all_start p)))
      | CStartWait b \<Rightarrow> if b then Some (Inr (start_count_wait p)) else None
      | CIdleWait b \<Rightarrow>
          if b then Some (Inr (p\<lparr>client :=
                 (if sleepingCount p = length (dispatchers p) then CIdle else CIdleWait False)\<rparr>))
          else None
      | CStopWait b \<Rightarrow> if b then Some (Inr (stop_wait p)) else None
      | CStopNotify \<Rightarrow> Some (Inr (stop_notify p))
      | CDtorRelock \<Rightarrow> Some (if pstate p = RUNNING then stop_locked h p
                             else Inr (p\<lparr>client := CJoin\<rparr>))
      | CJoin \<Rightarrow> if list_all (\<lambda>c. c = Exited) (dispatchers p)
                 then Some (Inr (p\<lparr>client := CDestroyed\<rparr>)) else None
      | CDestroyed \<Rightarrow> None)"

section \<open>Steps and runs\<close>

datatype caller = Dispatcher nat | External

datatype 'job action =
    Dispatch nat               \<comment> \<open>dispatcher \<open>i\<close> executes its next section\<close>
  | Client                     \<comment> \<open>the client continues the operation it is in\<close>
  | CallStart
  | CallStop
  | CallWaitForIdle
  | CallDestructor
  | CallSchedule caller 'job   \<comment> \<open>from a running callback or from another thread\<close>
  | SpuriousDispatcher nat
  | SpuriousClient

fun is_running :: "'job dpc \<Rightarrow> bool" where
  "is_running (Running j) = True"
| "is_running c = False"

definition may_schedule :: "caller \<Rightarrow> 'job prio \<Rightarrow> bool" where
  "may_schedule c p = (case c of
      Dispatcher i \<Rightarrow> i < length (dispatchers p) \<and> is_running (dispatchers p ! i)
    | External \<Rightarrow> client p \<noteq> CDestroyed)"

definition spurious_client :: "cpc \<Rightarrow> cpc" where
  "spurious_client c = (case c of
      CStartWait b \<Rightarrow> CStartWait True
    | CIdleWait b \<Rightarrow> CIdleWait True
    | CStopWait b \<Rightarrow> CStopWait True
    | _ \<Rightarrow> c)"

definition exec :: "handler \<Rightarrow> 'job action \<Rightarrow> 'job prio \<Rightarrow> (error + 'job prio) option" where
  "exec h a p =
     (case a of
        Dispatch i \<Rightarrow>
          if i < length (dispatchers p) then map_option Inr (dispatcherLoop i p) else None
      | Client \<Rightarrow> client_section h p
      | CallStart \<Rightarrow> if client p = CIdle then Some (start_locked h p) else None
      | CallStop \<Rightarrow> if client p = CIdle then Some (stop_locked h p) else None
      | CallWaitForIdle \<Rightarrow> if client p = CIdle then Some (Inr (waitForIdle p)) else None
      | CallDestructor \<Rightarrow> if client p = CIdle then Some (destructor h p) else None
      | CallSchedule c j \<Rightarrow> if may_schedule c p then Some (schedule h j p) else None
      | SpuriousDispatcher i \<Rightarrow>
          if i < length (dispatchers p)
          then Some (Inr (set_pc i (wake_sleeping (wake_start_blocked (dispatchers p ! i))) p))
          else None
      | SpuriousClient \<Rightarrow> Some (Inr (p\<lparr>client := spurious_client (client p)\<rparr>)))"

inductive prio_step :: "handler \<Rightarrow> 'job prio \<Rightarrow> 'job action \<Rightarrow> 'job prio \<Rightarrow> bool"
  for h :: handler where
  step: "exec h a p = Some (Inr p') \<Longrightarrow> prio_step h p a p'"

inductive_simps prio_step_iff: "prio_step h p a p'"

text \<open>
  Which states may see a call of \<^verbatim>\<open>schedule\<close> from a thread that is not running
  a callback is a parameter \<open>E\<close> of the reachable states: \<open>UNIV\<close> for an
  arbitrary environment; \<^verbatim>\<open>Core::run\<close> has such calls only before
  \<^verbatim>\<open>start\<close>, from the constructors of the actors, unless an actor owns threads of
  its own.
\<close>

definition allowed :: "pstate set \<Rightarrow> 'job action \<Rightarrow> 'job prio \<Rightarrow> bool" where
  "allowed E a p = (case a of CallSchedule External j \<Rightarrow> pstate p \<in> E | _ \<Rightarrow> True)"

inductive reachable :: "handler \<Rightarrow> int \<Rightarrow> pstate set \<Rightarrow> 'job prio \<Rightarrow> bool"
  for h :: handler and n :: int and E :: "pstate set" where
  init: "reachable h n E (priority_init n)"
| step: "reachable h n E p \<Longrightarrow> prio_step h p a p' \<Longrightarrow> allowed E a p \<Longrightarrow> reachable h n E p'"

fun run :: "handler \<Rightarrow> pstate set \<Rightarrow> 'job action list \<Rightarrow> 'job prio \<Rightarrow> (error + 'job prio) option" where
  "run h E [] p = Some (Inr p)"
| "run h E (a # as) p =
     (if allowed E a p
      then (case exec h a p of
              None \<Rightarrow> None
            | Some (Inl e) \<Rightarrow> Some (Inl e)
            | Some (Inr p') \<Rightarrow> run h E as p')
      else None)"

lemma run_append:
  "run h E (as @ bs) p = (case run h E as p of
      Some (Inr p') \<Rightarrow> run h E bs p' | r \<Rightarrow> r)"
  by (induction as arbitrary: p) (auto split: option.splits sum.splits)

lemma run_reachable:
  "run h E as p = Some (Inr p') \<Longrightarrow> reachable h n E p \<Longrightarrow> reachable h n E p'"
proof (induction as arbitrary: p)
  case (Cons a as)
  then obtain q where "exec h a p = Some (Inr q)" "allowed E a p" "run h E as q = Some (Inr p')"
    by (auto split: option.splits sum.splits if_splits)
  then show ?case
    using Cons by (blast intro: reachable.step prio_step.step)
qed simp

lemmas [core_defs] = start_locked_def start_return_def start_count_wait_def stop_finish_def
  stop_wait_def stop_locked_def stop_notify_def schedule_def waitForIdle_def destructor_def
  client_section_def spurious_client_def notify_all_schedule_def notify_all_start_def
  notify_started_def notify_idle_def take_job_def go_to_sleep_def leave_loop_def loop_head_def
  after_wait_def start_wait_def count_started_def dispatcherLoop_def set_pc_def

end
