(* ===== verification/Priority_Invariants.thy ===== *)
theory Priority_Invariants
  imports Priority_Dispatch
begin

text \<open>
  Invariants of the priority level and their preservation by every step of
  \<^verbatim>\<open>Priority_Dispatch\<close>: what the two counters count (\<open>counts_ok\<close>), the
  order in which callbacks are taken (\<open>log_ok\<close>), notifications of sleeping dispatchers
  (\<open>notified_ok\<close>), and what each state of the state machine and each client section
  says about the dispatchers (\<open>phase_ok\<close>, \<open>start_ok\<close>). The first three hold for
  every error callback; the last two need that the callback does not return.
\<close>

section \<open>What dispatcher states count for\<close>

fun out_of_work :: "'job dpc \<Rightarrow> bool" where
  "out_of_work (Sleeping b) = True"
| "out_of_work Exited = True"
| "out_of_work c = False"

fun uncounted :: "'job dpc \<Rightarrow> bool" where
  "uncounted AtStart = True"
| "uncounted (StartBlocked b) = True"
| "uncounted BeforeCount = True"
| "uncounted c = False"

definition counts_ok :: "int \<Rightarrow> 'job prio \<Rightarrow> bool" where
  "counts_ok n p \<longleftrightarrow>
     length (dispatchers p) = nat n \<and>
     sleepingCount p = count_if out_of_work (dispatchers p) \<and>
     startCount p = n - int (nat n) + int (count_if uncounted (dispatchers p))"

definition log_ok :: "'job prio \<Rightarrow> bool" where
  "log_ok p \<longleftrightarrow> scheduledLog p = map snd (takenLog p) @ actorQueue p"

definition notified_ok :: "'job prio \<Rightarrow> bool" where
  "notified_ok p \<longleftrightarrow> (actorQueue p \<noteq> [] \<longrightarrow> Sleeping False \<notin> set (dispatchers p))"

section \<open>Counters, order and notifications\<close>

lemma wake_sleeping_preds [simp]:
  "out_of_work (wake_sleeping c) = out_of_work c"
  "uncounted (wake_sleeping c) = uncounted c"
  "out_of_work (wake_start_blocked c) = out_of_work c"
  "uncounted (wake_start_blocked c) = uncounted c"
  by (cases c; simp)+

lemma count_wake [simp]:
  "count_if out_of_work (map wake_sleeping cs) = count_if out_of_work cs"
  "count_if uncounted (map wake_sleeping cs) = count_if uncounted cs"
  "count_if out_of_work (map wake_start_blocked cs) = count_if out_of_work cs"
  "count_if uncounted (map wake_start_blocked cs) = count_if uncounted cs"
  by (simp_all add: count_if_map comp_def)

lemma wake_sleeping_neq [simp]: "wake_sleeping c \<noteq> Sleeping False" "Sleeping False \<noteq> wake_sleeping c"
  by (cases c; simp)+

lemma wake_sleeping_not_blocked [simp]: "Sleeping False \<notin> wake_sleeping ` A"
  by auto

lemma wake_start_blocked_sleeping [simp]:
  "wake_start_blocked c = Sleeping b \<longleftrightarrow> c = Sleeping b"
  "Sleeping b = wake_start_blocked c \<longleftrightarrow> c = Sleeping b"
  by (cases c; auto)+

text \<open>What the notifications leave alone.\<close>

lemma notify_frame [simp]:
  "dispatchers (notify_started p) = dispatchers p" "dispatchers (notify_idle p) = dispatchers p"
  "actorQueue (notify_started p) = actorQueue p" "actorQueue (notify_idle p) = actorQueue p"
  "pstate (notify_started p) = pstate p" "pstate (notify_idle p) = pstate p"
  "startCount (notify_started p) = startCount p" "startCount (notify_idle p) = startCount p"
  "sleepingCount (notify_started p) = sleepingCount p" "sleepingCount (notify_idle p) = sleepingCount p"
  "scheduledLog (notify_started p) = scheduledLog p" "scheduledLog (notify_idle p) = scheduledLog p"
  "takenLog (notify_started p) = takenLog p" "takenLog (notify_idle p) = takenLog p"
  "inDtor (notify_started p) = inDtor p" "inDtor (notify_idle p) = inDtor p"
  by (auto simp: notify_started_def notify_idle_def split: cpc.splits)

lemma dispatcherLoop_counts:
  assumes "dispatcherLoop i p = Some p'" and "i < length (dispatchers p)" and "counts_ok n p"
  shows "counts_ok n p'"
proof -
  have u: "uncounted (dispatchers p ! i) \<Longrightarrow> 0 < count_if uncounted (dispatchers p)"
    and o: "out_of_work (dispatchers p ! i) \<Longrightarrow> 0 < count_if out_of_work (dispatchers p)"
    using assms(2) by (auto intro: count_if_pos)
  show ?thesis
    using assms u o
    by (auto simp: dispatcherLoop_def start_wait_def count_started_def loop_head_def after_wait_def
        take_job_def go_to_sleep_def leave_loop_def set_pc_def counts_ok_def count_if_update Let_def
        split: dpc.splits if_splits list.splits)
qed

lemma client_frame:
  assumes "client_section h p = Some (Inr p')"
  shows "sleepingCount p' = sleepingCount p" "startCount p' = startCount p"
    "actorQueue p' = actorQueue p" "scheduledLog p' = scheduledLog p" "takenLog p' = takenLog p"
    "dispatchers p' = dispatchers p \<or> dispatchers p' = map wake_sleeping (dispatchers p) \<or>
     dispatchers p' = map wake_start_blocked (dispatchers p)"
  using assms
  by (auto simp: client_section_def start_count_wait_def start_return_def stop_wait_def
      stop_finish_def stop_notify_def stop_locked_def notify_all_start_def notify_all_schedule_def
      Let_def split: cpc.splits if_splits)

lemma exec_counts:
  assumes "exec h a p = Some (Inr p')" and "counts_ok n p"
  shows "counts_ok n p'"
proof (cases a)
  case (Dispatch i)
  then show ?thesis
    using assms by (auto simp: exec_def intro: dispatcherLoop_counts split: if_splits)
next
  case Client
  with assms have "client_section h p = Some (Inr p')" by (simp add: exec_def)
  from client_frame [OF this] assms(2) show ?thesis
    by (auto simp: counts_ok_def)
next
  case (SpuriousDispatcher i)
  then show ?thesis
    using assms by (auto simp: exec_def set_pc_def counts_ok_def count_if_update_same split: if_splits)
qed (use assms in \<open>auto simp: exec_def start_locked_def stop_locked_def stop_wait_def stop_finish_def
      waitForIdle_def destructor_def schedule_def notify_all_schedule_def counts_ok_def Let_def
      split: if_splits pstate.splits\<close>)


lemma dispatcherLoop_log:
  "dispatcherLoop i p = Some p' \<Longrightarrow> log_ok p \<Longrightarrow> log_ok p'"
  by (auto simp: dispatcherLoop_def start_wait_def count_started_def loop_head_def after_wait_def
      take_job_def go_to_sleep_def leave_loop_def set_pc_def log_ok_def Let_def
      split: dpc.splits if_splits list.splits)

lemma exec_log:
  assumes "exec h a p = Some (Inr p')" and "log_ok p"
  shows "log_ok p'"
proof (cases a)
  case (Dispatch i)
  then show ?thesis
    using assms by (auto simp: exec_def intro: dispatcherLoop_log split: if_splits)
next
  case Client
  with assms have "client_section h p = Some (Inr p')" by (simp add: exec_def)
  from client_frame [OF this] assms(2) show ?thesis
    by (simp add: log_ok_def)
qed (use assms in \<open>auto simp: exec_def start_locked_def stop_locked_def stop_wait_def stop_finish_def
      waitForIdle_def destructor_def schedule_def notify_all_schedule_def log_ok_def set_pc_def Let_def
      split: if_splits pstate.splits\<close>)

lemma dispatcherLoop_notified:
  assumes "dispatcherLoop i p = Some p'" and "notified_ok p"
  shows "notified_ok p'"
  using assms
  by (auto simp: dispatcherLoop_def start_wait_def count_started_def loop_head_def after_wait_def
      take_job_def go_to_sleep_def leave_loop_def set_pc_def notified_ok_def Let_def
      dest!: set_update_cases split: dpc.splits if_splits list.splits)

lemma exec_notified:
  assumes "exec h a p = Some (Inr p')" and "notified_ok p"
  shows "notified_ok p'"
proof (cases a)
  case (Dispatch i)
  then show ?thesis
    using assms by (auto simp: exec_def intro: dispatcherLoop_notified split: if_splits)
next
  case Client
  with assms have "client_section h p = Some (Inr p')" by (simp add: exec_def)
  from client_frame [OF this] assms(2) show ?thesis
    by (auto simp: notified_ok_def)
next
  case (SpuriousDispatcher i)
  with assms show ?thesis
    by (auto simp: exec_def set_pc_def notified_ok_def dest!: set_update_cases split: if_splits)
qed (use assms in \<open>auto simp: exec_def start_locked_def stop_locked_def stop_wait_def stop_finish_def
      waitForIdle_def destructor_def schedule_def notify_all_schedule_def notified_ok_def Let_def
      split: if_splits pstate.splits\<close>)

section \<open>The state machine\<close>

fun fresh :: "'job dpc \<Rightarrow> bool" where
  "fresh AtStart = True"
| "fresh (StartBlocked b) = True"
| "fresh c = False"

definition phase_ok :: "'job prio \<Rightarrow> bool" where
  "phase_ok p \<longleftrightarrow>
     (pstate p = START \<longrightarrow> (\<forall>c \<in> set (dispatchers p). fresh c)) \<and>
     (pstate p = RUNNING \<longrightarrow> (\<forall>c \<in> set (dispatchers p). c \<noteq> Exited)) \<and>
     (pstate p = STOPPED \<longrightarrow>
        actorQueue p = [] \<and> (\<forall>c \<in> set (dispatchers p). out_of_work c)) \<and>
     (pstate p = STOPPING \<or> pstate p = STOPPED \<longrightarrow>
        (\<forall>c \<in> set (dispatchers p). \<not> uncounted c)) \<and>
     (case client p of
        CIdle \<Rightarrow> pstate p \<noteq> STOPPING
          \<and> (pstate p = RUNNING \<longrightarrow> (\<forall>c \<in> set (dispatchers p). \<not> uncounted c))
          \<and> (pstate p = STOPPED \<longrightarrow> (\<forall>c \<in> set (dispatchers p). c \<noteq> Sleeping False))
      | CStartNotify \<Rightarrow> pstate p = RUNNING
      | CStartWait b \<Rightarrow> pstate p = RUNNING \<and> (startCount p = 0 \<longrightarrow> b)
      | CIdleWait b \<Rightarrow>
          (pstate p = START
           \<or> pstate p = RUNNING \<and> (\<forall>c \<in> set (dispatchers p). \<not> uncounted c))
          \<and> dispatchers p \<noteq> [] \<and> ((\<forall>c \<in> set (dispatchers p). out_of_work c) \<longrightarrow> b)
      | CStopWait b \<Rightarrow> pstate p = STOPPING
          \<and> (actorQueue p = [] \<and> (\<forall>c \<in> set (dispatchers p). out_of_work c) \<longrightarrow> b)
      | CStopNotify \<Rightarrow> pstate p = STOPPED
      | CDtorRelock \<Rightarrow> pstate p = RUNNING \<and> (\<forall>c \<in> set (dispatchers p). \<not> uncounted c)
      | CJoin \<Rightarrow> pstate p = STOPPED \<and> (\<forall>c \<in> set (dispatchers p). c \<noteq> Sleeping False)
      | CDestroyed \<Rightarrow> pstate p = STOPPED \<and> (\<forall>c \<in> set (dispatchers p). c = Exited))"

lemma out_of_work_not_running: "out_of_work c \<Longrightarrow> \<not> is_running c"
  by (cases c) simp_all

lemma stopped_quiet:
  "phase_ok p \<Longrightarrow> pstate p = STOPPED \<Longrightarrow> \<forall>c \<in> set (dispatchers p). \<not> is_running c"
  by (simp add: phase_ok_def out_of_work_not_running)

lemma counts_all_out:
  assumes "counts_ok n p"
  shows "sleepingCount p = length (dispatchers p) \<longleftrightarrow> (\<forall>c \<in> set (dispatchers p). out_of_work c)"
  using assms count_if_eq_length_iff [of out_of_work "dispatchers p"] by (simp add: counts_ok_def)

lemma all_done_iff:
  "counts_ok n p \<Longrightarrow>
     all_done p \<longleftrightarrow> actorQueue p = [] \<and> (\<forall>c \<in> set (dispatchers p). out_of_work c)"
  by (simp add: all_done_def counts_all_out)

lemma counts_started:
  assumes "counts_ok n p" and "startCount p = 0"
  shows "\<forall>c \<in> set (dispatchers p). \<not> uncounted c"
proof -
  have "count_if uncounted (dispatchers p) = 0"
    using assms count_if_le_length [of uncounted "dispatchers p"]
    by (auto simp: counts_ok_def split: if_splits)
  then show ?thesis by (auto simp: count_if_def filter_empty_conv)
qed

lemma client_notify_started [simp]:
  "client (notify_started p) = (case client p of CStartWait b \<Rightarrow> CStartWait True
     | CStopWait b \<Rightarrow> CStopWait True | c \<Rightarrow> c)"
  by (simp add: notify_started_def split: cpc.splits)

lemma client_notify_idle [simp]:
  "client (notify_idle p) = (case client p of CIdleWait b \<Rightarrow> CIdleWait True | c \<Rightarrow> c)"
  by (simp add: notify_idle_def split: cpc.splits)

lemma ball_update_True [simp]:
  "\<forall>c \<in> set xs. P c \<Longrightarrow> P y \<Longrightarrow> (\<forall>c \<in> set (xs[i := y]). P c) = True"
  using set_update_subset_insert [of xs i y] by blast

lemma ball_update_False [simp]:
  "i < length xs \<Longrightarrow> \<not> P y \<Longrightarrow> (\<forall>c \<in> set (xs[i := y]). P c) = False"
  using set_update_memI [of i xs y] by blast

lemma notin_update [simp]:
  "x \<notin> set xs \<Longrightarrow> x \<noteq> y \<Longrightarrow> x \<notin> set (xs[i := y])"
  using set_update_subset_insert [of xs i y] by blast

lemma update_nonempty [simp]: "set (xs[i := y]) \<noteq> {} \<longleftrightarrow> set xs \<noteq> {}"
  by simp

lemma ball_update_same:
  assumes "i < length xs" and "P y = P (xs ! i)"
  shows "(\<forall>c \<in> set (xs[i := y]). P c) = (\<forall>c \<in> set xs. P c)"
  using assms unfolding all_set_conv_all_nth
  by (metis length_list_update nth_list_update)

lemma ball_nth_False: "i < length xs \<Longrightarrow> \<not> P (xs ! i) \<Longrightarrow> (\<forall>c \<in> set xs. P c) = False"
  using nth_mem by blast

lemma phase_take_job:
  assumes "phase_ok p" and i: "i < length (dispatchers p)" and "\<not> fresh (dispatchers p ! i)"
    and "\<not> uncounted (dispatchers p ! i)" and "actorQueue p = j # js"
  shows "phase_ok (take_job i j js (p\<lparr>sleepingCount := k\<rparr>))"
  using assms(1,3-5) i ball_nth_False [OF i, of fresh]
  by (cases "pstate p"; cases "client p") (simp_all add: take_job_def set_pc_def phase_ok_def)

lemma phase_leave_loop:
  assumes "phase_ok p" and i: "i < length (dispatchers p)" and "\<not> fresh (dispatchers p ! i)"
    and "\<not> uncounted (dispatchers p ! i)" and "actorQueue p = []" and "pstate p \<noteq> RUNNING"
    and "dispatchers p ! i \<noteq> Exited"
  shows "phase_ok (leave_loop i (p\<lparr>sleepingCount := k\<rparr>))"
  using assms(1,3-6) i ball_nth_False [OF i, of fresh]
  by (cases "pstate p"; cases "client p") (simp_all add: leave_loop_def set_pc_def phase_ok_def)

lemma phase_go_to_sleep:
  assumes "phase_ok p" and i: "i < length (dispatchers p)" and "dispatchers p ! i = LoopEntry"
    and "pstate p = RUNNING" and cn: "counts_ok n (go_to_sleep i p)"
  shows "phase_ok (go_to_sleep i p)"
proof -
  have "Suc (sleepingCount p) = length (dispatchers p) \<longleftrightarrow>
      (\<forall>c \<in> set ((dispatchers p)[i := Sleeping False]). out_of_work c)"
    using counts_all_out [OF cn] by (simp add: go_to_sleep_def set_pc_def Let_def split: if_splits)
  then show ?thesis
    using assms(1,3,4)
    by (cases "client p") (simp_all add: go_to_sleep_def set_pc_def phase_ok_def Let_def, blast)
qed

lemma phase_dispatch:
  assumes step: "dispatcherLoop i p = Some p'" and i: "i < length (dispatchers p)"
    and ph: "phase_ok p" and cn: "counts_ok n p"
  shows "phase_ok p'"
proof -
  have cn': "counts_ok n p'" by (rule dispatcherLoop_counts [OF step i cn])
  note no = ball_nth_False [OF i, of fresh] ball_nth_False [OF i, of out_of_work]
    ball_nth_False [OF i, of "\<lambda>c. \<not> uncounted c"]
  show ?thesis
  proof (cases "dispatchers p ! i")
    case AtStart
    with step [symmetric] ph i no show ?thesis
      by (cases "pstate p"; cases "client p")
        (simp_all add: dispatcherLoop_def start_wait_def set_pc_def phase_ok_def)
  next
    case (StartBlocked b)
    with step [symmetric] ph i no show ?thesis
      by (cases "pstate p"; cases "client p")
        (simp_all add: dispatcherLoop_def start_wait_def set_pc_def phase_ok_def split: if_splits)
  next
    case BeforeCount
    with step [symmetric] ph i no show ?thesis
      by (cases "pstate p"; cases "client p")
        (simp_all add: dispatcherLoop_def count_started_def set_pc_def phase_ok_def)
  next
    case LoopEntry
    then have p': "p' = loop_head i p" using step by (simp add: dispatcherLoop_def)
    have "p = p\<lparr>sleepingCount := sleepingCount p\<rparr>" by simp
    with LoopEntry ph i cn' show ?thesis
      using phase_take_job [of p i _ _ "sleepingCount p"] phase_leave_loop [of p i "sleepingCount p"]
        phase_go_to_sleep [of p i n]
      by (auto simp: p' loop_head_def split: list.splits if_splits)
  next
    case (Sleeping b)
    then have p': "p' = after_wait i p" using step by (simp add: dispatcherLoop_def split: if_splits)
    show ?thesis
    proof (cases "actorQueue p \<noteq> [] \<or> pstate p \<noteq> RUNNING")
      case True
      with Sleeping ph i show ?thesis
        by (cases "actorQueue p") (simp_all add: p' after_wait_def loop_head_def Let_def
            phase_take_job phase_leave_loop)
    next
      case False
      with Sleeping ph i ball_update_same [OF i, of out_of_work "Sleeping False"] show ?thesis
        by (cases "client p") (simp_all add: p' after_wait_def set_pc_def phase_ok_def)
    qed
  next
    case (Running j)
    with step [symmetric] ph i no show ?thesis
      by (cases "pstate p"; cases "client p")
        (simp_all add: dispatcherLoop_def set_pc_def phase_ok_def)
  next
    case Exited
    with step show ?thesis by (simp add: dispatcherLoop_def)
  qed
qed

lemma phase_late:
  "phase_ok p \<Longrightarrow> i < length (dispatchers p) \<Longrightarrow> uncounted (dispatchers p ! i) \<Longrightarrow>
     pstate p = START \<or> pstate p = RUNNING"
  using ball_nth_False [of i "dispatchers p" "\<lambda>c. \<not> uncounted c"]
  by (cases "pstate p") (simp_all add: phase_ok_def)

lemma fresh_wake [simp]:
  "fresh (wake_sleeping c) = fresh c"
  "fresh (wake_start_blocked c) = fresh c"
  "wake_sleeping c = Exited \<longleftrightarrow> c = Exited"
  "wake_start_blocked c = Exited \<longleftrightarrow> c = Exited"
  by (cases c; simp)+

lemma phase_stop_finish:
  assumes "phase_ok p" and "counts_ok n p" and "all_done p" and "\<forall>c \<in> set (dispatchers p). \<not> uncounted c"
  shows "phase_ok (stop_finish (p\<lparr>pstate := q\<rparr>))"
  using assms all_done_iff [OF assms(2)] by (simp add: phase_ok_def stop_finish_def)

lemma phase_stop_wait:
  assumes "counts_ok n p" and "\<forall>c \<in> set (dispatchers p). \<not> uncounted c" and "phase_ok p"
  shows "phase_ok (stop_wait (p\<lparr>pstate := STOPPING\<rparr>))"
proof -
  have ad: "all_done (p\<lparr>pstate := STOPPING\<rparr>) = all_done p" by (simp add: all_done_def)
  show ?thesis
    using assms all_done_iff [OF assms(1)] phase_stop_finish [OF assms(3,1) _ assms(2)]
    by (auto simp: stop_wait_def ad) (simp_all add: phase_ok_def)
qed

lemma phase_stop_locked:
  assumes "stop_locked h p = Inr p'" and "phase_ok p" and "counts_ok n p" and "obeys_contract h"
    and "\<forall>c \<in> set (dispatchers p). \<not> uncounted c"
  shows "phase_ok p'"
  using assms phase_stop_wait [OF assms(3,5,2)] phase_stop_finish [OF assms(2,3) _ assms(5)]
  by (auto simp: stop_locked_def Let_def all_done_def split: if_splits)

lemma phase_client:
  assumes step: "client_section h p = Some (Inr p')" and ph: "phase_ok p" and cn: "counts_ok n p"
    and h: "obeys_contract h"
  shows "phase_ok p'"
proof (cases "client p")
  case CStartNotify
  with step [symmetric] ph counts_started [OF cn] show ?thesis
    by (simp add: client_section_def start_count_wait_def start_return_def notify_all_start_def
        phase_ok_def)
next
  case (CStartWait b)
  with step [symmetric] ph counts_started [OF cn] show ?thesis
    by (simp add: client_section_def start_count_wait_def start_return_def phase_ok_def split: if_splits)
next
  case (CIdleWait b)
  with step [symmetric] ph counts_all_out [OF cn] show ?thesis
    by (auto simp add: client_section_def phase_ok_def split: if_splits)
next
  case (CStopWait b)
  then have "pstate p = STOPPING" using ph by (simp add: phase_ok_def)
  then have p: "p\<lparr>pstate := STOPPING\<rparr> = p" and u: "\<forall>c \<in> set (dispatchers p). \<not> uncounted c"
    using ph by (simp_all add: phase_ok_def)
  from CStopWait step show ?thesis
    using phase_stop_wait [OF cn u ph] by (simp add: client_section_def p split: if_splits)
next
  case CStopNotify
  with step [symmetric] ph show ?thesis
    by (simp add: client_section_def stop_notify_def notify_all_schedule_def phase_ok_def)
next
  case CDtorRelock
  with ph have "\<forall>c \<in> set (dispatchers p). \<not> uncounted c" "pstate p = RUNNING"
    by (simp_all add: phase_ok_def)
  with CDtorRelock step phase_stop_locked [OF _ ph cn h] show ?thesis
    by (simp add: client_section_def)
next
  case CJoin
  with step [symmetric] ph show ?thesis
    by (simp add: client_section_def phase_ok_def list_all_iff split: if_splits)
qed (use step in \<open>simp_all add: client_section_def\<close>)

lemma phase_schedule:
  assumes "schedule h j p = Inr p'" and "phase_ok p" and "obeys_contract h"
  shows "phase_ok p'"
proof (cases "pstate p = STOPPED")
  case True
  with assms show ?thesis by (simp add: schedule_def)
next
  case False
  with assms(1) [symmetric] assms(2) show ?thesis
    by (cases "client p"; cases "pstate p")
      (simp_all add: schedule_def Let_def notify_all_schedule_def phase_ok_def split: if_splits)
qed

lemma exec_phase:
  assumes step: "exec h a p = Some (Inr p')" and ph: "phase_ok p" and cn: "counts_ok n p"
    and h: "obeys_contract h"
  shows "phase_ok p'"
proof (cases a)
  case (Dispatch i)
  with assms show ?thesis
    by (auto simp: exec_def intro: phase_dispatch split: if_splits)
next
  case Client
  with assms show ?thesis
    by (auto simp: exec_def intro: phase_client)
next
  case CallStart
  with assms show ?thesis
    by (force simp: exec_def start_locked_def phase_ok_def Let_def split: if_splits)
next
  case CallStop
  then have "client p = CIdle" and "stop_locked h p = Inr p'"
    using step by (auto simp: exec_def split: if_splits)
  moreover from this h ph have "\<forall>c \<in> set (dispatchers p). \<not> uncounted c"
    by (auto simp: stop_locked_def phase_ok_def Let_def split: if_splits)
  ultimately show ?thesis
    using phase_stop_locked [OF _ ph cn h] by blast
next
  case CallWaitForIdle
  then have c: "client p = CIdle" and p': "p' = waitForIdle p"
    using step by (simp_all add: exec_def split: if_splits)
  show ?thesis
    using ph counts_all_out [OF cn]
    by (cases "pstate p"; cases "dispatchers p = []")
      (simp_all add: c p' waitForIdle_def phase_ok_def)
next
  case CallDestructor
  then have c: "client p = CIdle" and d: "destructor h p = Inr p'"
    using step by (auto simp: exec_def split: if_splits)
  let ?q = "p\<lparr>inDtor := True\<rparr>"
  have ph': "phase_ok ?q" and cn': "counts_ok n ?q"
    using ph cn c by (simp_all add: phase_ok_def counts_ok_def)
  show ?thesis
  proof (cases "pstate p")
    case START
    with d c ph show ?thesis
      by (force simp: destructor_def start_locked_def phase_ok_def)
  next
    case RUNNING
    with d c ph phase_stop_locked [OF _ ph' cn' h] show ?thesis
      by (simp add: destructor_def phase_ok_def)
  next
    case STOPPING
    with d h show ?thesis by (simp add: destructor_def)
  next
    case STOPPED
    with d [symmetric] c ph show ?thesis
      by (simp add: destructor_def phase_ok_def)
  qed
next
  case (CallSchedule c j)
  with assms show ?thesis
    by (auto simp: exec_def intro: phase_schedule split: if_splits)
next
  case (SpuriousDispatcher i)
  let ?c = "wake_sleeping (wake_start_blocked (dispatchers p ! i))"
  from SpuriousDispatcher step have i: "i < length (dispatchers p)" and p': "p' = set_pc i ?c p"
    by (auto simp: exec_def split: if_splits)
  note same = ball_update_same [OF i, of _ ?c]
  from ph show ?thesis
    by (cases "client p")
      (simp_all add: p' set_pc_def phase_ok_def same [of fresh] same [of out_of_work]
        same [of "\<lambda>c. \<not> uncounted c"] same [of "\<lambda>c. c \<noteq> Exited"] same [of "\<lambda>c. c = Exited"])
next
  case SpuriousClient
  then have p': "p' = p\<lparr>client := spurious_client (client p)\<rparr>"
    using step by (simp add: exec_def)
  from ph show ?thesis
    by (cases "client p") (simp_all add: p' spurious_client_def phase_ok_def)
qed

section \<open>Reachable states\<close>

lemma init_ok [simp]:
  "counts_ok n (priority_init n)" "log_ok (priority_init n)" "notified_ok (priority_init n)"
  "phase_ok (priority_init n)"
  by (auto simp: priority_init_def counts_ok_def log_ok_def notified_ok_def phase_ok_def)

lemma reachable_counts: "reachable h n E p \<Longrightarrow> counts_ok n p"
  by (induction rule: reachable.induct) (auto simp: prio_step_iff intro: exec_counts)

lemma reachable_log: "reachable h n E p \<Longrightarrow> log_ok p"
  by (induction rule: reachable.induct) (auto simp: prio_step_iff intro: exec_log)

lemma reachable_notified: "reachable h n E p \<Longrightarrow> notified_ok p"
  by (induction rule: reachable.induct) (auto simp: prio_step_iff intro: exec_notified)

lemma reachable_phase: "reachable h n E p \<Longrightarrow> obeys_contract h \<Longrightarrow> phase_ok p"
proof (induction rule: reachable.induct)
  case (step p a p')
  then have "exec h a p = Some (Inr p')" by (simp add: prio_step_iff)
  from exec_phase [OF this step.IH [OF step.prems] reachable_counts [OF step.hyps(1)] step.prems]
  show ?case .
qed simp

section \<open>The start handshake\<close>

definition start_ok :: "'job prio \<Rightarrow> bool" where
  "start_ok p \<longleftrightarrow> (pstate p \<noteq> START \<and> client p \<noteq> CStartNotify \<longrightarrow>
     StartBlocked False \<notin> set (dispatchers p))"

lemma wake_start_neq [simp]: "wake_start_blocked c \<noteq> StartBlocked False"
  by (cases c) simp_all

lemma wake_sleeping_start_blocked [simp]: "wake_sleeping c = StartBlocked b \<longleftrightarrow> c = StartBlocked b"
  by (cases c) simp_all

lemma start_blocked_eq_wake [simp]:
  "StartBlocked b = wake_sleeping c \<longleftrightarrow> c = StartBlocked b"
  using wake_sleeping_start_blocked [of c b] by metis

lemma wake_start_not_blocked [simp]: "StartBlocked False \<notin> wake_start_blocked ` A"
  by (metis imageE wake_start_neq)

lemma wake_sleeping_image_blocked [simp]:
  "StartBlocked b \<in> wake_sleeping ` A \<longleftrightarrow> StartBlocked b \<in> A"
  by (metis image_iff wake_sleeping_start_blocked)

text \<open>A dispatcher blocks in the start wait in the state \<open>START\<close> only (contract callbacks).\<close>

lemma start_ok_notify [simp]:
  "start_ok (notify_started p) = start_ok p" "start_ok (notify_idle p) = start_ok p"
  by (cases "client p"; simp add: start_ok_def)+

lemma dispatcher_start_ok:
  assumes step: "dispatcherLoop i p = Some p'" and i: "i < length (dispatchers p)"
    and ph: "phase_ok p" and st: "start_ok p"
  shows "start_ok p'"
proof -
  have "start_ok (start_wait i p)" if "uncounted (dispatchers p ! i)"
    using phase_late [OF ph i that] st by (auto simp: start_wait_def set_pc_def start_ok_def)
  moreover have "start_ok (loop_head i (p\<lparr>sleepingCount := k\<rparr>))" for k
    using st by (auto simp: loop_head_def take_job_def go_to_sleep_def leave_loop_def Let_def
        start_ok_def set_pc_def split: list.splits if_splits)
  moreover have "start_ok (loop_head i p)"
    using st by (auto simp: loop_head_def take_job_def go_to_sleep_def leave_loop_def Let_def
        start_ok_def set_pc_def split: list.splits if_splits)
  ultimately show ?thesis
    using step st
    by (cases "dispatchers p ! i")
      (auto simp: dispatcherLoop_def after_wait_def count_started_def Let_def take_job_def
        start_ok_def set_pc_def split: list.splits if_splits)
qed

lemma exec_start_ok:
  assumes step: "exec h a p = Some (Inr p')" and ph: "phase_ok p" and st: "start_ok p"
    and h: "obeys_contract h"
  shows "start_ok p'"
proof (cases a)
  case (Dispatch i)
  with assms show ?thesis
    by (auto simp: exec_def intro: dispatcher_start_ok split: if_splits)
next
  case Client
  with step have cs: "client_section h p = Some (Inr p')" by (simp add: exec_def)
  show ?thesis
  proof (cases "client p = CStartNotify")
    case True
    with cs [symmetric] show ?thesis
      by (simp add: client_section_def start_count_wait_def start_return_def notify_all_start_def
          start_ok_def)
  next
    case False
    have "pstate p = START \<Longrightarrow> pstate p' = START"
      using ph cs [symmetric]
      by (cases "client p") (simp_all add: client_section_def phase_ok_def split: if_splits)
    then show ?thesis
      using False st client_frame(6) [OF cs] by (auto simp: start_ok_def)
  qed
next
  case (SpuriousDispatcher i)
  with assms show ?thesis
    by (auto simp: exec_def set_pc_def start_ok_def dest!: set_update_cases split: if_splits)
next
  case SpuriousClient
  with assms show ?thesis
    by (cases "client p") (auto simp: exec_def spurious_client_def start_ok_def)
qed (use assms in \<open>auto simp: exec_def start_locked_def stop_locked_def stop_wait_def stop_finish_def
      waitForIdle_def destructor_def schedule_def notify_all_schedule_def start_ok_def Let_def
      split: if_splits pstate.splits\<close>)

lemma reachable_start_ok: "reachable h n E p \<Longrightarrow> obeys_contract h \<Longrightarrow> start_ok p"
proof (induction rule: reachable.induct)
  case init
  show ?case by (simp add: start_ok_def priority_init_def)
next
  case (step p a p')
  then have "exec h a p = Some (Inr p')" by (simp add: prio_step_iff)
  from exec_start_ok [OF this reachable_phase [OF step.hyps(1) step.prems] step.IH [OF step.prems]
      step.prems]
  show ?case .
qed

end
