(* ===== verification/Priority_Progress.thy ===== *)
theory Priority_Progress
  imports Priority_Invariants
begin

text \<open>
  Progress of the dispatchers: the waits of \<^verbatim>\<open>start\<close>, \<^verbatim>\<open>stop\<close>
  and the destructor end. The argument is the same three times: in the states of interest, as long as
  the goal is not reached some dispatcher has an enabled step and a measure bounds how many steps there
  are. It is stated once, as a locale, and interpreted for the three waits.
\<close>

section \<open>A bounded run of dispatcher steps\<close>

definition dispatch_step :: "'job prio \<Rightarrow> 'job prio \<Rightarrow> bool" where
  "dispatch_step p p' \<longleftrightarrow> (\<exists>i < length (dispatchers p). dispatcherLoop i p = Some p')"

lemma dispatch_step_exec: "dispatch_step p p' \<Longrightarrow> \<exists>i. exec h (Dispatch i) p = Some (Inr p')"
  by (auto simp: dispatch_step_def exec_def)

locale dispatch_progress =
  fixes inv :: "'job prio \<Rightarrow> bool"
    and goal :: "'job prio \<Rightarrow> bool"
    and weight :: "'job prio \<Rightarrow> nat"
  assumes keeps: "inv p \<Longrightarrow> dispatch_step p p' \<Longrightarrow> inv p'"
    and enabled: "inv p \<Longrightarrow> \<not> goal p \<Longrightarrow> \<exists>p'. dispatch_step p p' \<and> weight p' < weight p"
begin

lemma reaches_goal:
  "inv p \<Longrightarrow> \<exists>is p'. length is \<le> weight p \<and> run h E (map Dispatch is) p = Some (Inr p') \<and>
     inv p' \<and> goal p'"
proof (induction "weight p" arbitrary: p rule: less_induct)
  case less
  show ?case
  proof (cases "goal p")
    case True
    with less.prems show ?thesis by (intro exI [of _ "[]"]) simp
  next
    case False
    then obtain i q where i: "i < length (dispatchers p)" and q: "dispatcherLoop i p = Some q"
      and w: "weight q < weight p"
      using enabled [OF less.prems False] by (auto simp: dispatch_step_def)
    then have "inv q"
      using keeps less.prems by (auto simp: dispatch_step_def)
    then obtain "is" p' where "length is \<le> weight q" "run h E (map Dispatch is) q = Some (Inr p')"
      "inv p'" "goal p'"
      using less.hyps [OF w] by blast
    with i q w show ?thesis
      by (intro exI [of _ "i # is"] exI [of _ p']) (simp add: allowed_def exec_def)
  qed
qed

end

section \<open>Weights\<close>

text \<open>Sections a dispatcher still has to execute until it leaves the loop, and until it is counted.\<close>

fun stop_weight :: "'job dpc \<Rightarrow> nat" where
  "stop_weight (Running j) = 2"
| "stop_weight LoopEntry = 1"
| "stop_weight (Sleeping b) = (if b then 1 else 0)"
| "stop_weight Exited = 0"
| "stop_weight c = 5"

fun start_weight :: "'job dpc \<Rightarrow> nat" where
  "start_weight AtStart = 2"
| "start_weight (StartBlocked b) = 2"
| "start_weight BeforeCount = 1"
| "start_weight c = 0"

definition stop_measure :: "'job prio \<Rightarrow> nat" where
  "stop_measure p = 2 * length (actorQueue p) + sum_list (map stop_weight (dispatchers p))"

definition start_measure :: "'job prio \<Rightarrow> nat" where
  "start_measure p = sum_list (map start_weight (dispatchers p))"

section \<open>Stopping\<close>

definition drain_ok :: "'job prio \<Rightarrow> bool" where
  "drain_ok p \<longleftrightarrow>
     (pstate p = STOPPING \<and> actorQueue p \<noteq> [] \<longrightarrow> (\<exists>c \<in> set (dispatchers p). c \<noteq> Exited))"

definition stop_inv :: "int \<Rightarrow> 'job prio \<Rightarrow> bool" where
  "stop_inv n p \<longleftrightarrow> counts_ok n p \<and> notified_ok p \<and> phase_ok p \<and> drain_ok p \<and>
     pstate p = STOPPING \<and> (\<exists>b. client p = CStopWait b)"

lemma loop_head_stopping:
  assumes "pstate p = STOPPING"
  shows "loop_head i p = (case actorQueue p of [] \<Rightarrow> leave_loop i p | j # js \<Rightarrow> take_job i j js p)"
  using assms by (simp add: loop_head_def split: list.splits)

lemma after_wait_stopping:
  assumes "pstate p \<noteq> RUNNING"
  shows "after_wait i p = loop_head i (p\<lparr>sleepingCount := sleepingCount p - 1\<rparr>)"
  using assms by (simp add: after_wait_def loop_head_def Let_def split: list.splits)

text \<open>Every step of a dispatcher in \<open>STOPPING\<close> brings it nearer to the end.\<close>

lemma dispatch_stopping_decreases:
  assumes step: "dispatcherLoop i p = Some p'" and i: "i < length (dispatchers p)"
    and st: "pstate p = STOPPING \<or> pstate p = STOPPED" and u: "\<not> uncounted (dispatchers p ! i)"
  shows "stop_measure p' < stop_measure p"
proof -
  have upd: "sum_list (map stop_weight ((dispatchers p)[i := c])) + stop_weight (dispatchers p ! i)
      = sum_list (map stop_weight (dispatchers p)) + stop_weight c" for c
    using i by (rule sum_list_update_nat)
  show ?thesis
    using step [symmetric] st u upd [of LoopEntry] upd [of Exited]
      upd [of "Running (hd (actorQueue p))"]
    by (cases "dispatchers p ! i"; cases "actorQueue p")
      (auto simp: dispatcherLoop_def after_wait_def loop_head_def leave_loop_def take_job_def
        set_pc_def stop_measure_def Let_def split: if_splits)
qed

lemma dispatch_keeps_stopping:
  assumes "dispatcherLoop i p = Some p'"
  shows "pstate p' = pstate p" "length (dispatchers p') = length (dispatchers p)"
    "inDtor p' = inDtor p"
    "(\<exists>b. client p = CStopWait b) \<Longrightarrow> (\<exists>b. client p' = CStopWait b)"
    "client p = CJoin \<Longrightarrow> client p' = CJoin"
    "client p = CStartWait b \<Longrightarrow> \<exists>b. client p' = CStartWait b"
  using assms
  by (cases "dispatchers p ! i";
      auto simp: dispatcherLoop_def start_wait_def count_started_def after_wait_def loop_head_def
        leave_loop_def take_job_def go_to_sleep_def set_pc_def Let_def split: if_splits list.splits)+

lemma dispatch_drain:
  assumes step: "dispatcherLoop i p = Some p'" and i: "i < length (dispatchers p)"
    and dr: "drain_ok p"
  shows "drain_ok p'"
proof -
  have upd: "c \<in> set ((dispatchers p)[i := c])" for c
    using i by (rule set_update_memI)
  show ?thesis
    using step [symmetric] dr upd
    by (cases "dispatchers p ! i"; cases "actorQueue p")
      (force simp: dispatcherLoop_def start_wait_def count_started_def after_wait_def loop_head_def
        leave_loop_def take_job_def go_to_sleep_def set_pc_def drain_ok_def Let_def
        split: if_splits)+
qed

lemma stop_inv_keeps: "stop_inv n p \<Longrightarrow> dispatch_step p p' \<Longrightarrow> stop_inv n p'"
  using dispatcherLoop_counts dispatcherLoop_notified phase_dispatch dispatch_drain
    dispatch_keeps_stopping(1,4)
  unfolding dispatch_step_def stop_inv_def by metis

lemma enabled_iff:
  "dispatcherLoop i p \<noteq> None \<longleftrightarrow> dispatchers p ! i \<notin> {StartBlocked False, Sleeping False, Exited}"
  by (cases "dispatchers p ! i") (auto simp: dispatcherLoop_def)

lemma stop_inv_enabled:
  assumes inv: "stop_inv n p" and nd: "\<not> all_done p"
  shows "\<exists>p'. dispatch_step p p' \<and> stop_measure p' < stop_measure p"
proof -
  have u: "\<forall>c \<in> set (dispatchers p). \<not> uncounted c" and cn: "counts_ok n p"
    and st: "pstate p = STOPPING"
    using inv by (auto simp: stop_inv_def phase_ok_def)
  have "\<exists>c \<in> set (dispatchers p). c \<noteq> Sleeping False \<and> c \<noteq> Exited"
  proof (cases "actorQueue p = []")
    case True
    then obtain c where "c \<in> set (dispatchers p)" "\<not> out_of_work c"
      using nd all_done_iff [OF cn] by auto
    then show ?thesis by (intro bexI [of _ c]) auto
  next
    case False
    then show ?thesis
      using inv st unfolding stop_inv_def notified_ok_def drain_ok_def by metis
  qed
  then obtain i where i: "i < length (dispatchers p)" and
    c: "dispatchers p ! i \<noteq> Sleeping False" "dispatchers p ! i \<noteq> Exited"
    by (metis in_set_conv_nth)
  moreover have ui: "\<not> uncounted (dispatchers p ! i)" using u i by simp
  ultimately have "dispatcherLoop i p \<noteq> None"
    unfolding enabled_iff by auto
  then obtain p' where "dispatcherLoop i p = Some p'" by blast
  with i ui st dispatch_stopping_decreases show ?thesis
    unfolding dispatch_step_def by blast
qed

interpretation stopping: dispatch_progress "stop_inv n" all_done stop_measure for n
  by unfold_locales (simp_all add: stop_inv_keeps stop_inv_enabled)

section \<open>Joining\<close>

definition join_inv :: "'job prio \<Rightarrow> bool" where
  "join_inv p \<longleftrightarrow> phase_ok p \<and> pstate p = STOPPED \<and> client p = CJoin"

definition all_exited :: "'job prio \<Rightarrow> bool" where
  "all_exited p \<longleftrightarrow> (\<forall>c \<in> set (dispatchers p). c = Exited)"

lemma join_threads:
  assumes inv: "join_inv p" and i: "i < length (dispatchers p)"
  shows "actorQueue p = []" "dispatchers p ! i = Sleeping True \<or> dispatchers p ! i = Exited"
proof -
  show "actorQueue p = []"
    using inv by (simp add: join_inv_def phase_ok_def)
  have "out_of_work (dispatchers p ! i)" "dispatchers p ! i \<noteq> Sleeping False"
    using inv nth_mem [OF i] by (auto simp: join_inv_def phase_ok_def)
  then show "dispatchers p ! i = Sleeping True \<or> dispatchers p ! i = Exited"
    by (cases "dispatchers p ! i") simp_all
qed

lemma join_step:
  assumes inv: "join_inv p" and i: "i < length (dispatchers p)" and step: "dispatcherLoop i p = Some p'"
  shows "p' = leave_loop i (p\<lparr>sleepingCount := sleepingCount p - 1\<rparr>)" "dispatchers p ! i = Sleeping True"
  using join_threads [OF inv i] step inv
  by (auto simp: dispatcherLoop_def after_wait_stopping loop_head_def join_inv_def)

lemma join_inv_keeps: "join_inv p \<Longrightarrow> dispatch_step p p' \<Longrightarrow> join_inv p'"
proof -
  assume inv: "join_inv p" and "dispatch_step p p'"
  then obtain i where i: "i < length (dispatchers p)" and s: "dispatcherLoop i p = Some p'"
    by (auto simp: dispatch_step_def)
  then show "join_inv p'"
    using join_step [OF inv i s] join_threads(1) [OF inv i] inv dispatch_keeps_stopping(1,5) [OF s]
      phase_leave_loop [of p i] by (simp add: join_inv_def)
qed

lemma join_inv_enabled:
  assumes inv: "join_inv p" and "\<not> all_exited p"
  shows "\<exists>p'. dispatch_step p p' \<and> stop_measure p' < stop_measure p"
proof -
  obtain i where i: "i < length (dispatchers p)" and "dispatchers p ! i \<noteq> Exited"
    using assms(2) by (auto simp: all_exited_def in_set_conv_nth)
  then have s: "dispatchers p ! i = Sleeping True" using join_threads(2) [OF inv i] by simp
  then obtain p' where "dispatcherLoop i p = Some p'" by (simp add: dispatcherLoop_def)
  with i s inv dispatch_stopping_decreases show ?thesis
    unfolding dispatch_step_def join_inv_def by (metis uncounted.simps(5))
qed

interpretation joining: dispatch_progress join_inv all_exited stop_measure
  by unfold_locales (simp_all add: join_inv_keeps join_inv_enabled)

section \<open>Starting\<close>

definition start_inv :: "int \<Rightarrow> 'job prio \<Rightarrow> bool" where
  "start_inv n p \<longleftrightarrow> counts_ok n p \<and> phase_ok p \<and> start_ok p \<and> pstate p = RUNNING \<and>
     (\<exists>b. client p = CStartWait b)"

definition all_counted :: "'job prio \<Rightarrow> bool" where
  "all_counted p \<longleftrightarrow> (\<forall>c \<in> set (dispatchers p). \<not> uncounted c)"

lemma start_inv_keeps:
  assumes "start_inv n p" and "dispatch_step p p'"
  shows "start_inv n p'"
  using assms dispatcherLoop_counts phase_dispatch dispatcher_start_ok
    dispatch_keeps_stopping(1,6)
  unfolding dispatch_step_def start_inv_def by metis

lemma start_inv_enabled:
  assumes inv: "start_inv n p" and "\<not> all_counted p"
  shows "\<exists>p'. dispatch_step p p' \<and> start_measure p' < start_measure p"
proof -
  obtain i where i: "i < length (dispatchers p)" and u: "uncounted (dispatchers p ! i)"
    using assms(2) by (auto simp: all_counted_def in_set_conv_nth)
  have "dispatchers p ! i \<noteq> StartBlocked False"
    using inv nth_mem [OF i] by (auto simp: start_inv_def start_ok_def)
  with u obtain p' where p': "dispatcherLoop i p = Some p'"
    by (cases "dispatchers p ! i") (auto simp: dispatcherLoop_def)
  have upd: "sum_list (map start_weight ((dispatchers p)[i := c])) + start_weight (dispatchers p ! i)
      = sum_list (map start_weight (dispatchers p)) + start_weight c" for c
    using i by (rule sum_list_update_nat)
  have "start_measure p' < start_measure p"
    using p' [symmetric] u inv upd [of BeforeCount] upd [of LoopEntry]
    by (cases "dispatchers p ! i")
      (auto simp: dispatcherLoop_def start_wait_def count_started_def set_pc_def start_measure_def
        start_inv_def split: if_splits)
  with i p' show ?thesis by (auto simp: dispatch_step_def)
qed

interpretation starting: dispatch_progress "start_inv n" all_counted start_measure for n
  by unfold_locales (simp_all add: start_inv_keeps start_inv_enabled)

section \<open>Who can leave work in the queue\<close>

definition busy_ok :: "'job prio \<Rightarrow> bool" where
  "busy_ok p \<longleftrightarrow> (actorQueue p \<noteq> [] \<longrightarrow> (\<exists>c \<in> set (dispatchers p). \<not> out_of_work c))"

lemma ex_keep_update:
  assumes "\<exists>c \<in> set xs. P c" and "i < length xs" and "P (xs ! i) \<Longrightarrow> P y"
  shows "\<exists>c \<in> set (xs[i := y]). P c"
  using assms unfolding Bex_def in_set_conv_nth
  by (metis length_list_update nth_list_update_eq nth_list_update_neq)

lemma client_drain:
  assumes step: "client_section h p = Some (Inr p')" and "dispatchers p \<noteq> []" and ph: "phase_ok p"
    and dr: "drain_ok p"
  shows "drain_ok p'"
proof (cases "pstate p = RUNNING")
  case True
  then have "\<exists>c \<in> set (dispatchers p). c \<noteq> Exited"
    using assms(2) ph by (cases "dispatchers p") (auto simp: phase_ok_def)
  then show ?thesis
    using client_frame(6) [OF step] by (auto simp: drain_ok_def)
next
  case False
  then have "pstate p' = STOPPING \<Longrightarrow> pstate p = STOPPING"
    using step [symmetric] ph
    by (cases "client p") (auto simp: client_section_def core_defs phase_ok_def split: if_splits)
  then show ?thesis
    using client_frame(3,6) [OF step] dr by (auto simp: drain_ok_def)
qed

lemma stop_locked_drain:
  assumes "stop_locked h p = Inr p'" and "dispatchers p \<noteq> []" and "phase_ok p" and "obeys_contract h"
  shows "drain_ok p'"
proof -
  have "pstate p = RUNNING" and d: "dispatchers p' = dispatchers p"
    using assms(1,4) by (auto simp: stop_locked_def stop_wait_def stop_finish_def Let_def split: if_splits)
  then have "\<exists>c \<in> set (dispatchers p). c \<noteq> Exited"
    using assms(2,3) by (cases "dispatchers p") (auto simp: phase_ok_def)
  then show ?thesis by (simp add: drain_ok_def d)
qed

lemma exec_drain:
  assumes step: "exec h a p = Some (Inr p')" and al: "allowed E a p" "STOPPING \<notin> E"
    and ne: "dispatchers p \<noteq> []" and ph: "phase_ok p" and h: "obeys_contract h" and dr: "drain_ok p"
  shows "drain_ok p'"
proof (cases a)
  case (Dispatch i)
  with step dr show ?thesis by (auto simp: exec_def intro: dispatch_drain split: if_splits)
next
  case Client
  with step have "client_section h p = Some (Inr p')" by (simp add: exec_def)
  then show ?thesis by (rule client_drain [OF _ ne ph dr])
next
  case CallStop
  with step show ?thesis
    by (auto simp: exec_def intro: stop_locked_drain [OF _ ne ph h] split: if_splits)
next
  case CallDestructor
  moreover have "phase_ok (p\<lparr>inDtor := True\<rparr>)"
    using ph by (cases "client p") (simp_all add: phase_ok_def)
  ultimately show ?thesis
    using step dr h stop_locked_drain [of h "p\<lparr>inDtor := True\<rparr>" p'] ne
    by (auto simp: exec_def destructor_def start_locked_def drain_ok_def Let_def
        split: if_splits pstate.splits)
next
  case (CallSchedule c j)
  have "pstate p = STOPPING \<Longrightarrow> \<exists>c \<in> set (dispatchers p). c \<noteq> Exited"
    using CallSchedule step al
    by (cases c) (auto simp: exec_def may_schedule_def allowed_def split: if_splits
        intro!: bexI [OF _ nth_mem])
  with CallSchedule step dr show ?thesis
    by (auto simp: exec_def schedule_def drain_ok_def notify_all_schedule_def Let_def split: if_splits)
next
  case (SpuriousDispatcher i)
  then have i: "i < length (dispatchers p)"
    and p': "p' = set_pc i (wake_sleeping (wake_start_blocked (dispatchers p ! i))) p"
    using step by (auto simp: exec_def split: if_splits)
  show ?thesis
    using dr ex_keep_update [OF _ i, of "\<lambda>c. c \<noteq> Exited"] by (auto simp: p' set_pc_def drain_ok_def)
qed (use step dr h in \<open>auto simp: exec_def start_locked_def waitForIdle_def drain_ok_def Let_def
      split: if_splits\<close>)

lemma dispatch_busy:
  assumes step: "dispatcherLoop i p = Some p'" and i: "i < length (dispatchers p)" and b: "busy_ok p"
  shows "busy_ok p'"
proof -
  have keep: "\<not> out_of_work c \<Longrightarrow> \<exists>x \<in> set ((dispatchers p)[i := c]). \<not> out_of_work x" for c
    using set_update_memI [OF i] by blast
  show ?thesis
    using step [symmetric] b keep ex_keep_update [OF _ i, of "\<lambda>c. \<not> out_of_work c" "StartBlocked False"]
    by (cases "dispatchers p ! i"; cases "actorQueue p")
      (auto simp: dispatcherLoop_def start_wait_def count_started_def after_wait_def loop_head_def
        leave_loop_def take_job_def go_to_sleep_def set_pc_def busy_ok_def Let_def
        split: if_splits)
qed

lemma wake_busy [simp]:
  "(\<exists>c \<in> set xs. \<not> out_of_work (wake_sleeping c)) = (\<exists>c \<in> set xs. \<not> out_of_work c)"
  by simp

lemma exec_busy:
  assumes step: "exec h a p = Some (Inr p')" and al: "allowed E a p" "E \<inter> {RUNNING, STOPPING} = {}"
    and ne: "dispatchers p \<noteq> []" and ph: "phase_ok p" and h: "obeys_contract h" and b: "busy_ok p"
  shows "busy_ok p'"
proof (cases a)
  case (Dispatch i)
  with step b show ?thesis by (auto simp: exec_def intro: dispatch_busy split: if_splits)
next
  case Client
  with step have "client_section h p = Some (Inr p')" by (simp add: exec_def)
  from client_frame(3,6) [OF this] b show ?thesis by (auto simp: busy_ok_def)
next
  case (CallSchedule c j)
  have "pstate p = STOPPED \<or> (\<exists>c \<in> set (dispatchers p). \<not> out_of_work c)"
  proof (cases "pstate p = START")
    case True
    then show ?thesis using ph ne
      by (cases "dispatchers p") (auto simp: phase_ok_def elim: fresh.elims)
  next
    case False
    then show ?thesis
      using CallSchedule step al
      by (cases c; cases "pstate p") (auto simp: exec_def may_schedule_def allowed_def split: if_splits
          intro!: bexI [OF _ nth_mem] elim: is_running.elims)
  qed
  with CallSchedule step h show ?thesis
    by (auto simp: exec_def schedule_def busy_ok_def notify_all_schedule_def Let_def split: if_splits)
next
  case (SpuriousDispatcher i)
  then have i: "i < length (dispatchers p)"
    and p': "p' = set_pc i (wake_sleeping (wake_start_blocked (dispatchers p ! i))) p"
    using step by (auto simp: exec_def split: if_splits)
  show ?thesis
    using b ex_keep_update [OF _ i, of "\<lambda>c. \<not> out_of_work c"] by (auto simp: p' set_pc_def busy_ok_def)
qed (use step b in \<open>auto simp: exec_def start_locked_def stop_locked_def stop_wait_def stop_finish_def
      waitForIdle_def destructor_def busy_ok_def Let_def split: if_splits pstate.splits\<close>)

lemma reachable_nonempty: "reachable h n E p \<Longrightarrow> 0 < n \<Longrightarrow> dispatchers p \<noteq> []"
  using reachable_counts [of h n E p] by (auto simp: counts_ok_def)

lemma reachable_drain:
  assumes "reachable h n E p" and "obeys_contract h" and "0 < n" and "STOPPING \<notin> E"
  shows "drain_ok p"
  using assms(1)
proof induction
  case init
  show ?case by (simp add: drain_ok_def priority_init_def)
next
  case (step p a p')
  then have "exec h a p = Some (Inr p')" by (simp add: prio_step_iff)
  from exec_drain [OF this step.hyps(3) assms(4) reachable_nonempty [OF step.hyps(1) assms(3)]
      reachable_phase [OF step.hyps(1) assms(2)] assms(2) step.IH]
  show ?case .
qed

lemma reachable_busy:
  assumes "reachable h n E p" and "obeys_contract h" and "0 < n" and "E \<inter> {RUNNING, STOPPING} = {}"
  shows "busy_ok p"
  using assms(1)
proof induction
  case init
  show ?case by (simp add: busy_ok_def priority_init_def)
next
  case (step p a p')
  then have "exec h a p = Some (Inr p')" by (simp add: prio_step_iff)
  from exec_busy [OF this step.hyps(3) assms(4) reachable_nonempty [OF step.hyps(1) assms(3)]
      reachable_phase [OF step.hyps(1) assms(2)] assms(2) step.IH]
  show ?case .
qed

end
