(* ===== verification/Priority_Refinement.thy ===== *)
theory Priority_Refinement
  imports Priority_Progress
begin

text \<open>
  What a priority promises its users, as an abstract executor: accepted callbacks wait in one queue,
  each of a fixed number of workers takes the oldest one when it is free, and the executor closes only
  when nothing waits and nobody works. Threads that sleep or are notified, counters and client sections
  are invisible. \<open>abs_prio\<close> maps a concrete state to an abstract one, and every concrete step is
  one abstract step or none.
\<close>

datatype aphase = Created | Opened | Closed

record 'job executor =
  phase :: aphase
  pending :: "'job list"
  workers :: "'job option list"

inductive executor_step :: "'job executor \<Rightarrow> 'job executor \<Rightarrow> bool" where
  submit: "phase x \<noteq> Closed \<Longrightarrow> executor_step x (x\<lparr>pending := pending x @ [j]\<rparr>)"
| open_up: "phase x = Created \<Longrightarrow> executor_step x (x\<lparr>phase := Opened\<rparr>)"
| take: "phase x = Opened \<Longrightarrow> pending x = j # js \<Longrightarrow> i < length (workers x) \<Longrightarrow> workers x ! i = None \<Longrightarrow>
    executor_step x (x\<lparr>pending := js, workers := (workers x)[i := Some j]\<rparr>)"
| finish: "phase x = Opened \<Longrightarrow> i < length (workers x) \<Longrightarrow> workers x ! i = Some j \<Longrightarrow>
    executor_step x (x\<lparr>workers := (workers x)[i := None]\<rparr>)"
| close: "phase x = Opened \<Longrightarrow> pending x = [] \<Longrightarrow> \<forall>w \<in> set (workers x). w = None \<Longrightarrow>
    executor_step x (x\<lparr>phase := Closed\<rparr>)"

fun running_job :: "'job dpc \<Rightarrow> 'job option" where
  "running_job (Running j) = Some j"
| "running_job c = None"

fun abs_phase :: "pstate \<Rightarrow> aphase" where
  "abs_phase START = Created"
| "abs_phase RUNNING = Opened"
| "abs_phase STOPPING = Opened"
| "abs_phase STOPPED = Closed"

definition abs_prio :: "'job prio \<Rightarrow> 'job executor" where
  "abs_prio p = \<lparr>phase = abs_phase (pstate p), pending = actorQueue p,
     workers = map running_job (dispatchers p)\<rparr>"

lemma running_job_wake [simp]:
  "running_job (wake_sleeping c) = running_job c" "running_job (wake_start_blocked c) = running_job c"
  by (cases c; simp)+

lemma running_job_None: "out_of_work c \<Longrightarrow> running_job c = None"
  by (cases c) simp_all

lemma map_running_same:
  "running_job c = running_job (xs ! i) \<Longrightarrow> map running_job (xs[i := c]) = map running_job xs"
  by (metis list_update_id map_update)

text \<open>A dispatcher's step: taking, finishing, or nothing.\<close>

lemma take_job_refines:
  assumes "actorQueue p = j # js" and "i < length (dispatchers p)" and "\<not> is_running (dispatchers p ! i)"
    and "abs_phase (pstate p) = Opened"
  shows "executor_step (abs_prio p) (abs_prio (take_job i j js (p\<lparr>sleepingCount := k\<rparr>)))"
proof -
  have "running_job (dispatchers p ! i) = None"
    using assms(3) by (cases "dispatchers p ! i") simp_all
  then show ?thesis
    using assms executor_step.take [of "abs_prio p" j js i]
    by (simp add: abs_prio_def take_job_def set_pc_def map_update)
qed

lemma abs_loop_head:
  assumes i: "i < length (dispatchers p)" and "\<not> is_running (dispatchers p ! i)"
    and "abs_phase (pstate p) = Opened \<or> actorQueue p = []"
  shows "abs_prio (loop_head i (p\<lparr>sleepingCount := k\<rparr>)) = abs_prio p \<or>
    executor_step (abs_prio p) (abs_prio (loop_head i (p\<lparr>sleepingCount := k\<rparr>)))"
proof (cases "actorQueue p")
  case Nil
  have "running_job (dispatchers p ! i) = None"
    using assms(2) by (cases "dispatchers p ! i") simp_all
  with Nil show ?thesis
    by (simp add: loop_head_def go_to_sleep_def leave_loop_def set_pc_def abs_prio_def Let_def
        map_running_same)
next
  case (Cons j js)
  then show ?thesis
    using take_job_refines [OF Cons i assms(2)] assms(3) by (simp add: loop_head_def)
qed

lemma phase_working:
  assumes "phase_ok p" and "i < length (dispatchers p)" and "\<not> fresh (dispatchers p ! i)"
  shows "abs_phase (pstate p) = Opened \<or> actorQueue p = []"
  using assms nth_mem [OF assms(2)] by (cases "pstate p") (auto simp: phase_ok_def)

lemma dispatch_refines:
  assumes step: "dispatcherLoop i p = Some p'" and i: "i < length (dispatchers p)" and ph: "phase_ok p"
  shows "abs_prio p' = abs_prio p \<or> executor_step (abs_prio p) (abs_prio p')"
proof (cases "dispatchers p ! i")
  case LoopEntry
  then show ?thesis
    using step abs_loop_head [OF i, of "sleepingCount p"] phase_working [OF ph i]
    by (simp add: dispatcherLoop_def)
next
  case (Sleeping b)
  then have w: "abs_phase (pstate p) = Opened \<or> actorQueue p = []" and nr: "\<not> is_running (dispatchers p ! i)"
    and p': "p' = after_wait i p"
    using step phase_working [OF ph i] by (auto simp: dispatcherLoop_def split: if_splits)
  show ?thesis
    using abs_loop_head [OF i nr w, of "sleepingCount p - 1"] Sleeping w take_job_refines [OF _ i nr]
    by (cases "actorQueue p")
      (auto simp: p' after_wait_def Let_def set_pc_def abs_prio_def map_running_same)
next
  case (Running j)
  have "pstate p \<noteq> START \<and> pstate p \<noteq> STOPPED"
    using ph nth_mem [OF i] Running by (auto simp: phase_ok_def)
  then have "abs_phase (pstate p) = Opened" by (cases "pstate p") simp_all
  with Running i step executor_step.finish [of "abs_prio p" i j] show ?thesis
    by (auto simp: dispatcherLoop_def set_pc_def abs_prio_def map_update)
qed (use step in \<open>auto simp: dispatcherLoop_def start_wait_def count_started_def set_pc_def abs_prio_def
      map_running_same split: if_splits\<close>)

lemma abs_frame:
  "abs_prio (p\<lparr>client := c\<rparr>) = abs_prio p" "abs_prio (p\<lparr>inDtor := b\<rparr>) = abs_prio p"
  "abs_prio (notify_all_schedule p) = abs_prio p" "abs_prio (notify_all_start p) = abs_prio p"
  by (simp_all add: abs_prio_def notify_all_schedule_def notify_all_start_def comp_def)

lemma stop_finish_refines:
  assumes "counts_ok n p" and "all_done p" and "pstate p = RUNNING \<or> pstate p = STOPPING"
  shows "executor_step (abs_prio p) (abs_prio (stop_finish p))"
proof -
  have "phase (abs_prio p) = Opened" "pending (abs_prio p) = []" "\<forall>w \<in> set (workers (abs_prio p)). w = None"
    using assms all_done_iff [OF assms(1)] by (auto simp: abs_prio_def running_job_None)
  from executor_step.close [OF this] show ?thesis
    by (simp add: abs_prio_def stop_finish_def)
qed

lemma stop_locked_refines:
  assumes "stop_locked h p = Inr p'" and cn: "counts_ok n p" and "obeys_contract h"
  shows "abs_prio p' = abs_prio p \<or> executor_step (abs_prio p) (abs_prio p')"
proof -
  let ?q = "p\<lparr>pstate := STOPPING\<rparr>"
  have r: "pstate p = RUNNING" and p': "p' = ?q\<lparr>client := CStopWait False\<rparr> \<or> p' = stop_finish ?q \<and> all_done ?q"
    using assms by (auto simp: stop_locked_def stop_wait_def all_done_def Let_def split: if_splits)
  have "abs_prio ?q = abs_prio p" and "counts_ok n ?q" using r cn by (simp_all add: abs_prio_def counts_ok_def)
  then show ?thesis using p' stop_finish_refines [of n ?q] by (auto simp: abs_frame)
qed

lemma client_refines:
  assumes step: "client_section h p = Some (Inr p')" and ph: "phase_ok p" and cn: "counts_ok n p"
    and h: "obeys_contract h"
  shows "abs_prio p' = abs_prio p \<or> executor_step (abs_prio p) (abs_prio p')"
proof (cases "client p")
  case (CStopWait b)
  then have "pstate p = STOPPING" using ph by (simp add: phase_ok_def)
  with CStopWait step stop_finish_refines [OF cn] show ?thesis
    by (auto simp: client_section_def stop_wait_def abs_frame split: if_splits)
next
  case CDtorRelock
  with step ph stop_locked_refines [OF _ cn h] show ?thesis
    by (simp add: client_section_def phase_ok_def)
qed (use step in \<open>auto simp: client_section_def start_count_wait_def start_return_def stop_notify_def
      abs_frame split: if_splits\<close>)

lemma start_refines:
  assumes "start_locked h p = Inr p'" and "obeys_contract h"
  shows "executor_step (abs_prio p) (abs_prio p')"
proof -
  have s: "pstate p = START" and p': "p' = p\<lparr>pstate := RUNNING, client := CStartNotify\<rparr>"
    using assms by (auto simp: start_locked_def Let_def split: if_splits)
  show ?thesis
    using executor_step.open_up [of "abs_prio p"] s by (simp add: p' abs_prio_def)
qed

lemma schedule_refines:
  assumes "schedule h j p = Inr p'" and "obeys_contract h"
  shows "executor_step (abs_prio p) (abs_prio p')"
proof -
  have s: "pstate p \<noteq> STOPPED" and p': "abs_prio p' = abs_prio (p\<lparr>actorQueue := actorQueue p @ [j]\<rparr>)"
    using assms by (auto simp: schedule_def Let_def abs_frame abs_prio_def notify_all_schedule_def comp_def
        split: if_splits)
  have "phase (abs_prio p) \<noteq> Closed" using s by (cases "pstate p") (simp_all add: abs_prio_def)
  from executor_step.submit [OF this, of j] show ?thesis
    unfolding p' by (simp add: abs_prio_def)
qed

lemma exec_refines:
  assumes step: "exec h a p = Some (Inr p')" and ph: "phase_ok p" and cn: "counts_ok n p"
    and h: "obeys_contract h"
  shows "abs_prio p' = abs_prio p \<or> executor_step (abs_prio p) (abs_prio p')"
proof (cases a)
  case (Dispatch i)
  with step dispatch_refines [OF _ _ ph] show ?thesis by (auto simp: exec_def split: if_splits)
next
  case Client
  with step client_refines [OF _ ph cn h] show ?thesis by (simp add: exec_def)
next
  case CallStart
  with step h start_refines show ?thesis by (auto simp: exec_def split: if_splits)
next
  case CallStop
  with step stop_locked_refines [OF _ cn h] show ?thesis by (auto simp: exec_def split: if_splits)
next
  case CallDestructor
  let ?q = "p\<lparr>inDtor := True\<rparr>"
  have "counts_ok n ?q" using cn by (simp add: counts_ok_def)
  with CallDestructor step h start_refines [of h ?q p'] stop_locked_refines [of h ?q p'] show ?thesis
    by (auto simp: exec_def destructor_def abs_frame Let_def split: if_splits pstate.splits)
next
  case (CallSchedule c j)
  with step schedule_refines [OF _ h, of j p p'] show ?thesis by (simp add: exec_def split: if_splits)
qed (use step in \<open>auto simp: exec_def waitForIdle_def set_pc_def abs_frame
      abs_prio_def map_running_same split: if_splits\<close>)

end
