(* ===== verification/Priority_Properties.thy ===== *)
theory Priority_Properties
  imports Priority_Refinement
begin

text \<open>
  The properties of the priority level. Each is stated for every reachable state of
  \<^verbatim>\<open>Priority_Dispatch\<close>, that is for every interleaving of the dispatchers, the
  client and the scheduling threads, and rests on the invariants of
  \<^verbatim>\<open>Priority_Invariants\<close>, the progress locale of
  \<^verbatim>\<open>Priority_Progress\<close> and the simulation of
  \<^verbatim>\<open>Priority_Refinement\<close>.
\<close>

section \<open>A concrete session\<close>

text \<open>
  One dispatcher, two callbacks scheduled before \<^verbatim>\<open>start\<close>, then
  \<^verbatim>\<open>stop\<close>; the states of this session are the inputs of the witnesses.
\<close>

definition demo_start :: "nat action list" where
  "demo_start = [CallSchedule External 7, CallSchedule External 8, Dispatch 0, CallStart, Client]"

definition demo_state :: "nat prio" where
  "demo_state = \<lparr>pstate = STOPPING, dispatchers = [Running 7], actorQueue = [8], startCount = 0,
     sleepingCount = 0, client = CStopWait False, inDtor = False, scheduledLog = [7, 8],
     takenLog = [(0, 7)]\<rparr>"

lemma demo_started:
  "run h E demo_start (priority_init 1) = (if START \<in> E then Some (Inr
     \<lparr>pstate = RUNNING, dispatchers = [StartBlocked True], actorQueue = [7, 8], startCount = 1,
      sleepingCount = 0, client = CStartWait False, inDtor = False, scheduledLog = [7, 8],
      takenLog = []\<rparr>) else None)"
  by (simp add: demo_start_def exec_def allowed_def may_schedule_def priority_init_def core_defs Let_def)

lemma demo_reach:
  "reachable h 1 {START} \<lparr>pstate = RUNNING, dispatchers = [StartBlocked True], actorQueue = [7, 8 :: nat],
     startCount = 1, sleepingCount = 0, client = CStartWait False, inDtor = False,
     scheduledLog = [7, 8], takenLog = []\<rparr>"
  by (rule run_reachable [OF _ reachable.init, where as = demo_start]) (simp add: demo_started)

lemma demo_stopping: "reachable onErrorFunc 1 {START} demo_state"
  by (rule run_reachable [OF _ demo_reach, where as =
        "[Dispatch 0, Dispatch 0, Client, Dispatch 0, CallStop]"])
    (simp add: exec_def allowed_def core_defs demo_state_def all_done_def Let_def)

lemma demo_stopping_wait: "client demo_state = CStopWait False" "pstate demo_state = STOPPING"
  by (simp_all add: demo_state_def)

lemma reachable_stop_inv:
  assumes "reachable h n E p" and "obeys_contract h" and "0 < n" and "STOPPING \<notin> E"
    and "client p = CStopWait b"
  shows "stop_inv n p"
  using reachable_counts [OF assms(1)] reachable_notified [OF assms(1)] reachable_phase [OF assms(1,2)]
    reachable_drain [OF assms(1-4)] assms(5)
  by (simp add: stop_inv_def phase_ok_def)

section \<open>Stopping\<close>

text \<open>
  C1: \<^verbatim>\<open>Priority::stop\<close> terminates and does its work. From every reachable state
  in which the client waits in \<^verbatim>\<open>stop\<close> with at least one dispatcher and nobody
  outside the callbacks scheduling any more, some schedule of at most \<open>stop_measure\<close> dispatcher
  steps followed by one client step reaches \<open>STOPPED\<close>, and there the queue is empty and every
  callback ever scheduled has been taken.
\<close>

theorem stop_terminates:
  assumes "reachable h n E p" and "obeys_contract h" and "0 < n" and "STOPPING \<notin> E"
    and "client p = CStopWait b"
  shows "\<exists>is p'. length is \<le> stop_measure p \<and>
    run h E (map Dispatch is @ [Client]) p = Some (Inr p') \<and> pstate p' = STOPPED \<and>
    actorQueue p' = [] \<and> map snd (takenLog p') = scheduledLog p'"
proof -
  have "stop_inv n p" by (rule reachable_stop_inv [OF assms])
  from stopping.reaches_goal [OF this, of h E] obtain "is" q where
    l: "length is \<le> stop_measure p" and q: "run h E (map Dispatch is) p = Some (Inr q)"
    and inv: "stop_inv n q" and d: "all_done q" by blast
  have "client q = CStopWait True" using inv d all_done_iff [of n q]
    by (auto simp: stop_inv_def phase_ok_def)
  with q d have r: "run h E (map Dispatch is @ [Client]) p = Some (Inr (stop_finish q))"
    by (simp add: run_append allowed_def exec_def client_section_def stop_wait_def)
  have "log_ok (stop_finish q)" by (rule reachable_log [OF run_reachable [OF r assms(1)]])
  with l r d show ?thesis
    by (intro exI [of _ "is"] exI [of _ "stop_finish q"])
      (simp add: stop_finish_def log_ok_def all_done_def)
qed

lemma stop_terminates_witness:
  "\<exists>is p'. length is \<le> stop_measure demo_state \<and>
    run onErrorFunc {START} (map Dispatch is @ [Client]) demo_state = Some (Inr p') \<and>
    pstate p' = STOPPED \<and> actorQueue p' = [] \<and> map snd (takenLog p') = scheduledLog p'"
  using stop_terminates [OF demo_stopping, of False] by (simp add: demo_stopping_wait)

text \<open>
  C2: no schedule of the dispatchers defeats \<^verbatim>\<open>stop\<close>. However the dispatchers are
  interleaved while the client waits in \<^verbatim>\<open>stop\<close> (their callbacks scheduling nothing
  more), they make at most \<open>stop_measure\<close> steps, and when none of them can step any more the
  client has been notified and its next step reaches \<open>STOPPED\<close>: there is no lost wake-up and no
  deadlock.
\<close>

theorem stop_every_interleaving:
  assumes "reachable h n E p" and "obeys_contract h" and "0 < n" and "STOPPING \<notin> E"
    and "client p = CStopWait b" and "run h E (map Dispatch is) p = Some (Inr q)"
  shows "length is + stop_measure q \<le> stop_measure p \<and>
    ((\<forall>i. exec h (Dispatch i) q = None) \<longrightarrow>
       (\<exists>p'. exec h Client q = Some (Inr p') \<and> pstate p' = STOPPED))"
proof -
  have "stop_inv n p \<Longrightarrow> stop_inv n q \<and> length is + stop_measure q \<le> stop_measure p"
    using assms(6)
  proof (induction "is" arbitrary: p)
    case (Cons i "is")
    then obtain p1 where i: "i < length (dispatchers p)" and s: "dispatcherLoop i p = Some p1"
      and r: "run h E (map Dispatch is) p1 = Some (Inr q)"
      by (auto simp: exec_def allowed_def split: if_splits option.splits)
    then have inv: "stop_inv n p1"
      using stopping.keeps [OF Cons.prems(1), of p1] by (auto simp: dispatch_step_def)
    have "\<not> uncounted (dispatchers p ! i)" and "pstate p = STOPPING"
      using Cons.prems(1) nth_mem [OF i] by (auto simp: stop_inv_def phase_ok_def)
    then have "stop_measure p1 < stop_measure p"
      using dispatch_stopping_decreases [OF s i] by simp
    with Cons.IH [OF inv r] show ?case by simp
  qed simp
  then have inv: "stop_inv n q" and m: "length is + stop_measure q \<le> stop_measure p"
    using reachable_stop_inv [OF assms(1-5)] by simp_all
  have "\<exists>p'. exec h Client q = Some (Inr p') \<and> pstate p' = STOPPED"
    if "\<forall>i. exec h (Dispatch i) q = None"
  proof -
    have "all_done q"
      using stop_inv_enabled [OF inv] that dispatch_step_exec [of q _ h] by fastforce
    moreover from this have "client q = CStopWait True"
      using inv all_done_iff [of n q] by (auto simp: stop_inv_def phase_ok_def)
    ultimately show ?thesis
      by (simp add: exec_def client_section_def stop_wait_def stop_finish_def)
  qed
  with m show ?thesis by blast
qed

lemma stop_every_interleaving_witness:
  "\<exists>q. run onErrorFunc {START} (map Dispatch [0, 0, 0, 0]) demo_state = Some (Inr q) \<and>
     4 + stop_measure q \<le> stop_measure demo_state"
proof -
  let ?q = "demo_state\<lparr>dispatchers := [Exited], actorQueue := [], sleepingCount := 1,
    client := CStopWait True, takenLog := [(0, 7), (0, 8)]\<rparr>"
  have r: "run onErrorFunc {START} (map Dispatch [0, 0, 0, 0]) demo_state = Some (Inr ?q)"
    by (simp add: demo_state_def exec_def allowed_def core_defs Let_def)
  show ?thesis
    using stop_every_interleaving [OF demo_stopping _ _ _ demo_stopping_wait(1) r] r by simp
qed

text \<open>
  C3: \<^verbatim>\<open>STOPPED\<close> is quiescent. In every reachable \<open>STOPPED\<close> state the queue
  is empty, no dispatcher executes a callback, and the callbacks taken are exactly the callbacks
  scheduled, in that order.
\<close>

theorem stopped_is_drained:
  assumes "reachable h n E p" and "obeys_contract h" and "pstate p = STOPPED"
  shows "actorQueue p = [] \<and> (\<forall>c \<in> set (dispatchers p). \<not> is_running c) \<and>
    map snd (takenLog p) = scheduledLog p"
proof -
  have "actorQueue p = []" and "\<forall>c \<in> set (dispatchers p). out_of_work c"
    using reachable_phase [OF assms(1,2)] assms(3) by (auto simp: phase_ok_def)
  then show ?thesis
    using reachable_log [OF assms(1)] stopped_quiet [OF reachable_phase [OF assms(1,2)] assms(3)]
    by (auto simp: log_ok_def)
qed

definition demo_stopped :: "nat prio" where
  "demo_stopped = demo_state\<lparr>pstate := STOPPED, dispatchers := [Exited], actorQueue := [],
     sleepingCount := 1, client := CStopNotify, takenLog := [(0, 7), (0, 8)]\<rparr>"

lemma demo_stopped_reach: "reachable onErrorFunc 1 {START} demo_stopped"
  by (rule run_reachable [OF _ demo_stopping, where as =
        "[Dispatch 0, Dispatch 0, Dispatch 0, Dispatch 0, Client]"])
    (simp add: demo_stopped_def exec_def allowed_def core_defs demo_state_def all_done_def Let_def)

lemma stopped_is_drained_witness:
  "actorQueue demo_stopped = [] \<and> map snd (takenLog demo_stopped) = scheduledLog demo_stopped"
  using stopped_is_drained [OF demo_stopped_reach] by (simp add: demo_stopped_def)

section \<open>Scheduling\<close>

text \<open>
  C4: callbacks are taken exactly once and in the order in which they were scheduled, whatever the
  error callback does: in every reachable state the callbacks scheduled so far are those taken so far
  followed by those still queued.
\<close>

theorem callbacks_exactly_once_in_order:
  assumes "reachable h n E p"
  shows "scheduledLog p = map snd (takenLog p) @ actorQueue p"
  using reachable_log [OF assms] by (simp add: log_ok_def)

lemma callbacks_exactly_once_in_order_witness:
  "scheduledLog demo_state = map snd (takenLog demo_state) @ actorQueue demo_state"
  by (rule callbacks_exactly_once_in_order [OF demo_stopping])

text \<open>
  Lemma: no wake-up of a dispatcher is lost. In every reachable state with a callback in the queue, every
  sleeping dispatcher has been notified and its next step takes the oldest callback; this holds although
  \<^verbatim>\<open>schedule\<close> notifies only when the queue becomes non-empty.
\<close>

theorem no_lost_dispatcher_wakeup:
  assumes "reachable h n E p" and "actorQueue p = j # js" and "i < length (dispatchers p)"
    and "dispatchers p ! i = Sleeping b"
  shows "\<exists>p'. exec h (Dispatch i) p = Some (Inr p') \<and> dispatchers p' ! i = Running j \<and>
    actorQueue p' = js"
proof -
  have b using reachable_notified [OF assms(1)] assms(2-4) nth_mem [OF assms(3)]
    by (cases b) (auto simp: notified_ok_def)
  then show ?thesis
    using assms(2-4)
    by (simp add: exec_def dispatcherLoop_def after_wait_def take_job_def set_pc_def)
qed

definition demo_notified :: "nat prio" where
  "demo_notified = \<lparr>pstate = RUNNING, dispatchers = [Sleeping True], actorQueue = [9], startCount = 0,
     sleepingCount = 1, client = CIdle, inDtor = False, scheduledLog = [7, 8, 9],
     takenLog = [(0, 7), (0, 8)]\<rparr>"

lemma demo_notified_reach: "reachable onErrorFunc 1 UNIV demo_notified"
proof -
  have "run onErrorFunc UNIV (demo_start @ [Dispatch 0, Dispatch 0, Client, Dispatch 0, Dispatch 0,
      Dispatch 0, Dispatch 0, Dispatch 0, CallSchedule External 9]) (priority_init 1)
    = Some (Inr demo_notified)"
    by (simp add: run_append demo_started)
      (simp add: demo_notified_def exec_def allowed_def may_schedule_def core_defs Let_def)
  then show ?thesis by (rule run_reachable [OF _ reachable.init])
qed

lemma no_lost_dispatcher_wakeup_witness:
  "\<exists>p'. exec onErrorFunc (Dispatch 0) demo_notified = Some (Inr p') \<and>
     dispatchers p' ! 0 = Running 9 \<and> actorQueue p' = []"
  by (rule no_lost_dispatcher_wakeup [OF demo_notified_reach, of _ _ _ True])
    (simp_all add: demo_notified_def)

text \<open>
  Lemma: no wake-up of the client is lost. In every reachable state the condition a blocked client waits for
  implies that it has been notified: all dispatchers counted for \<^verbatim>\<open>start\<close>, all asleep
  for \<^verbatim>\<open>waitForIdle\<close>, queue empty and all asleep or gone for
  \<^verbatim>\<open>stop\<close>.
\<close>

theorem no_lost_client_wakeup:
  assumes "reachable h n E p" and "obeys_contract h"
  shows "(\<forall>b. client p = CStartWait b \<and> startCount p = 0 \<longrightarrow> b) \<and>
    (\<forall>b. client p = CIdleWait b \<and> sleepingCount p = length (dispatchers p) \<longrightarrow> b) \<and>
    (\<forall>b. client p = CStopWait b \<and> all_done p \<longrightarrow> b)"
  using reachable_phase [OF assms] counts_all_out [OF reachable_counts [OF assms(1)]]
    all_done_iff [OF reachable_counts [OF assms(1)]]
  by (auto simp: phase_ok_def)

lemma no_lost_client_wakeup_witness: "client demo_state = CStopWait False \<and> \<not> all_done demo_state"
  using no_lost_client_wakeup [OF demo_stopping] by (auto simp: demo_stopping_wait dest: spec [of _ False])

text \<open>
  Lemma: \<^verbatim>\<open>sleepingCount_\<close> and \<^verbatim>\<open>startCount_\<close> count what their
  users rely on, for every error callback: the dispatchers asleep or past the loop, and the dispatchers
  that have not passed the start wait; neither is ever decremented below zero.
\<close>

theorem counters_exact:
  assumes "reachable h n E p" and "0 \<le> n"
  shows "sleepingCount p = count_if out_of_work (dispatchers p) \<and>
    startCount p = int (count_if uncounted (dispatchers p)) \<and> length (dispatchers p) = nat n"
  using reachable_counts [OF assms(1)] assms(2) by (simp add: counts_ok_def)

lemma counters_exact_witness:
  "sleepingCount demo_notified = count_if out_of_work (dispatchers demo_notified) \<and>
   startCount demo_notified = int (count_if uncounted (dispatchers demo_notified))"
  using counters_exact [OF demo_notified_reach] by simp

text \<open>
  Lemma: a running callback may always schedule. Its call of \<^verbatim>\<open>schedule\<close> is never
  refused, also while \<^verbatim>\<open>stop\<close> is waiting, because \<open>STOPPED\<close> is reached
  only when no callback runs.
\<close>

theorem running_callback_may_schedule:
  assumes "reachable h n E p" and "obeys_contract h" and "may_schedule (Dispatcher i) p"
  shows "\<exists>p'. schedule h j p = Inr p' \<and> actorQueue p' = actorQueue p @ [j]"
proof -
  have "pstate p \<noteq> STOPPED"
    using stopped_quiet [OF reachable_phase [OF assms(1,2)]] assms(3) nth_mem
    by (fastforce simp: may_schedule_def)
  then show ?thesis by (simp add: schedule_def notify_all_schedule_def Let_def)
qed

lemma running_callback_may_schedule_witness:
  "\<exists>p'. schedule onErrorFunc 9 demo_state = Inr p' \<and> actorQueue p' = [8, 9]"
  using running_callback_may_schedule [OF demo_stopping, of 0 9]
  by (simp add: demo_state_def may_schedule_def)

section \<open>Waiting for idle\<close>

lemma idle_return:
  assumes "client p = CIdleWait b \<and> exec h Client p = Some (Inr p') \<or>
      client p = CIdle \<and> exec h CallWaitForIdle p = Some (Inr p')"
    and "client p' = CIdle"
  shows "sleepingCount p = length (dispatchers p) \<and> dispatchers p' = dispatchers p \<and>
    actorQueue p' = actorQueue p \<and> takenLog p' = takenLog p \<and> scheduledLog p' = scheduledLog p"
  using assms
  by (auto simp: exec_def client_section_def waitForIdle_def split: if_splits)

text \<open>
  Lemma: \<^verbatim>\<open>waitForIdle\<close> means idle when only callbacks schedule. If no thread outside
  the callbacks schedules once \<^verbatim>\<open>start\<close> has been called, then whenever
  \<^verbatim>\<open>waitForIdle\<close> returns (at once or after waiting) the queue is empty, every
  dispatcher is asleep and every callback scheduled so far has been taken.
\<close>

theorem waitForIdle_means_idle:
  assumes reach: "reachable h n E p" and h: "obeys_contract h" and "0 < n"
    and "E \<inter> {RUNNING, STOPPING} = {}"
    and ret: "client p = CIdleWait b \<and> exec h Client p = Some (Inr p') \<or>
      client p = CIdle \<and> exec h CallWaitForIdle p = Some (Inr p')" "client p' = CIdle"
  shows "actorQueue p' = [] \<and> (\<forall>c \<in> set (dispatchers p'). out_of_work c) \<and>
    map snd (takenLog p') = scheduledLog p'"
proof -
  have "\<forall>c \<in> set (dispatchers p). out_of_work c"
    using idle_return [OF ret] counts_all_out [OF reachable_counts [OF reach]] by simp
  moreover from this have "actorQueue p = []"
    using reachable_busy [OF assms(1-4)] by (auto simp: busy_ok_def)
  ultimately show ?thesis
    using idle_return [OF ret] reachable_log [OF reach] by (simp add: log_ok_def)
qed

definition demo_idle :: "nat prio" where
  "demo_idle = \<lparr>pstate = RUNNING, dispatchers = [Sleeping False], actorQueue = [], startCount = 0,
     sleepingCount = 1, client = CIdle, inDtor = False, scheduledLog = [7, 8],
     takenLog = [(0, 7), (0, 8)]\<rparr>"

lemma demo_idle_reach: "reachable onErrorFunc 1 {START} demo_idle"
  by (rule run_reachable [OF _ demo_reach, where as =
        "[Dispatch 0, Dispatch 0, Client, Dispatch 0, Dispatch 0, Dispatch 0, Dispatch 0, Dispatch 0]"])
    (simp add: demo_idle_def exec_def allowed_def core_defs Let_def)

lemma waitForIdle_means_idle_witness:
  "exec onErrorFunc CallWaitForIdle demo_idle = Some (Inr demo_idle) \<and> actorQueue demo_idle = []"
proof -
  have r: "exec onErrorFunc CallWaitForIdle demo_idle = Some (Inr demo_idle)"
    by (simp add: exec_def waitForIdle_def demo_idle_def)
  with waitForIdle_means_idle [OF demo_idle_reach, of False demo_idle] show ?thesis
    by (simp add: demo_idle_def)
qed

text \<open>
  Lemma: with another thread scheduling, \<^verbatim>\<open>waitForIdle\<close> can return while a callback
  is queued: the predicate it waits for counts sleeping dispatchers and does not look at the queue, and a
  notified dispatcher is still counted as sleeping. From the constructor there is a run, ending with a
  client step that returns from \<^verbatim>\<open>waitForIdle\<close>, after which callback 9 is queued
  and not taken.
\<close>

theorem waitForIdle_can_return_with_work:
  "\<exists>as p. run onErrorFunc UNIV (as @ [Client]) (priority_init 1) = Some (Inr p) \<and>
     (\<exists>q. run onErrorFunc UNIV as (priority_init 1) = Some (Inr q) \<and> client q = CIdleWait True) \<and>
     client p = CIdle \<and> actorQueue p = [9 :: nat] \<and> 9 \<notin> snd ` set (takenLog p)"
proof -
  let ?as = "demo_start @ [Dispatch 0, Dispatch 0, Client, Dispatch 0, Dispatch 0, CallWaitForIdle,
    Dispatch 0, Dispatch 0, Dispatch 0, CallSchedule External 9]"
  let ?q = "demo_notified\<lparr>client := CIdleWait True\<rparr>"
  have r: "run onErrorFunc UNIV ?as (priority_init 1) = Some (Inr ?q)"
    by (simp add: run_append demo_started)
      (simp add: demo_notified_def exec_def allowed_def may_schedule_def core_defs Let_def)
  have "run onErrorFunc UNIV (?as @ [Client]) (priority_init 1) = Some (Inr demo_notified)"
    unfolding run_append [of _ _ ?as] r
    by (simp add: demo_notified_def allowed_def exec_def client_section_def)
  moreover have "client ?q = CIdleWait True" "client demo_notified = CIdle"
    "actorQueue demo_notified = [9]" "9 \<notin> snd ` set (takenLog demo_notified)"
    by (simp_all add: demo_notified_def)
  ultimately show ?thesis using r by blast
qed

text \<open>
  Lemma: \<^verbatim>\<open>stop\<close> can wait forever when another thread schedules while it waits. There
  is a run after which the state is \<open>STOPPING\<close>, the queue is not empty and all dispatchers have left
  their loops; after it, whatever happens, \<^verbatim>\<open>stop\<close> never returns and the callback is
  never taken.
\<close>

theorem stop_can_hang:
  "\<exists>as p. run onErrorFunc UNIV as (priority_init 1) = Some (Inr p) \<and>
     (\<forall>bs. case run onErrorFunc UNIV bs p of
        Some (Inr q) \<Rightarrow> pstate q = STOPPING \<and> client q \<noteq> CIdle \<and>
          (\<exists>js. actorQueue q = (9 :: nat) # js)
      | _ \<Rightarrow> True)"
proof -
  let ?p = "demo_state\<lparr>dispatchers := [Exited], actorQueue := [9], sleepingCount := 1,
    client := CStopWait True, scheduledLog := [7, 8, 9], takenLog := [(0, 7), (0, 8)]\<rparr>"
  define stuck where "stuck q \<longleftrightarrow> pstate q = STOPPING \<and> dispatchers q = [Exited] \<and>
    client q \<in> {CStopWait True, CStopWait False} \<and> (\<exists>js. actorQueue q = 9 # js)" for q :: "nat prio"
  have keep: "stuck q'" if "stuck q" "exec onErrorFunc a q = Some (Inr q')" for a q q'
    using that
    by (cases a)
      (auto simp: stuck_def exec_def dispatcherLoop_def client_section_def stop_wait_def all_done_def
        schedule_def notify_all_schedule_def set_pc_def spurious_client_def Let_def split: if_splits)
  have stays: "stuck q'" if "stuck q" "run onErrorFunc UNIV bs q = Some (Inr q')" for bs q q'
    using that
  proof (induction bs arbitrary: q)
    case (Cons a bs)
    then obtain r where "exec onErrorFunc a q = Some (Inr r)" "run onErrorFunc UNIV bs r = Some (Inr q')"
      by (auto split: option.splits sum.splits if_splits)
    then show ?case using Cons.IH keep [OF Cons.prems(1)] by blast
  qed simp
  have "stuck ?p" by (simp add: stuck_def demo_state_def)
  moreover have "pstate q = STOPPING \<and> client q \<noteq> CIdle \<and> (\<exists>js. actorQueue q = 9 # js)"
    if "stuck q" for q using that by (auto simp: stuck_def)
  ultimately have "case run onErrorFunc UNIV bs ?p of
      Some (Inr q) \<Rightarrow> pstate q = STOPPING \<and> client q \<noteq> CIdle \<and> (\<exists>js. actorQueue q = 9 # js)
    | _ \<Rightarrow> True" for bs
    using stays by (simp split: option.split sum.split)
  moreover have "run onErrorFunc UNIV (demo_start @ [Dispatch 0, Dispatch 0, Client, Dispatch 0, CallStop,
      Dispatch 0, Dispatch 0, Dispatch 0, Dispatch 0, CallSchedule External 9]) (priority_init 1)
    = Some (Inr ?p)"
    by (simp add: run_append demo_started)
      (simp add: demo_state_def exec_def allowed_def may_schedule_def core_defs all_done_def Let_def)
  ultimately show ?thesis by blast
qed

section \<open>Life cycle\<close>

definition demo_joining :: "nat prio" where
  "demo_joining = \<lparr>pstate = STOPPED, dispatchers = [Sleeping True], actorQueue = [], startCount = 0,
     sleepingCount = 1, client = CJoin, inDtor = True, scheduledLog = [7, 8],
     takenLog = [(0, 7), (0, 8)]\<rparr>"

lemma demo_joining_reach: "reachable onErrorFunc 1 {START} demo_joining"
  by (rule run_reachable [OF _ demo_idle_reach, where as = "[CallDestructor, Client]"])
    (simp add: demo_joining_def demo_idle_def exec_def allowed_def core_defs all_done_def Let_def)

lemma run_dispatch_inDtor: "run h E (map Dispatch is) p = Some (Inr q) \<Longrightarrow> inDtor q = inDtor p"
proof (induction "is" arbitrary: p)
  case (Cons i "is")
  then obtain p1 where "dispatcherLoop i p = Some p1" "run h E (map Dispatch is) p1 = Some (Inr q)"
    by (auto simp: exec_def allowed_def split: if_splits option.splits)
  with Cons.IH dispatch_keeps_stopping(3) show ?case by metis
qed simp

lemma exec_forward:
  assumes "exec h a p = Some (Inr p')" and "phase_ok p" and "obeys_contract h"
  shows "pstate p \<le> pstate p' \<and> (pstate p = STOPPED \<longrightarrow> scheduledLog p' = scheduledLog p)"
proof (cases a)
  case (Dispatch i)
  then have d: "dispatcherLoop i p = Some p'" using assms(1) by (auto simp: exec_def split: if_splits)
  then have "scheduledLog p' = scheduledLog p"
    by (auto simp: dispatcherLoop_def start_wait_def count_started_def loop_head_def after_wait_def
        take_job_def go_to_sleep_def leave_loop_def set_pc_def Let_def
        split: dpc.splits if_splits list.splits)
  with dispatch_keeps_stopping(1) [OF d] show ?thesis by simp
next
  case Client
  with assms(1) have c: "client_section h p = Some (Inr p')" by (simp add: exec_def)
  have "pstate p \<le> pstate p'"
    using c assms(2)
    by (cases "client p") (auto simp: client_section_def core_defs phase_ok_def less_eq_pstate_def
        Let_def split: if_splits)
  with client_frame(4) [OF c] show ?thesis by simp
qed (use assms in \<open>auto simp: exec_def start_locked_def stop_locked_def stop_wait_def stop_finish_def
      waitForIdle_def destructor_def schedule_def notify_all_schedule_def set_pc_def less_eq_pstate_def
      Let_def split: if_splits pstate.splits\<close>)

text \<open>
  C5: \<^verbatim>\<open>start\<close> terminates. From every reachable state in which the client waits
  in \<^verbatim>\<open>start\<close>, some schedule of at most \<open>start_measure\<close> dispatcher steps
  and one client step lets \<^verbatim>\<open>start\<close> return, with every dispatcher in its loop and
  the state still \<open>RUNNING\<close>.
\<close>

theorem start_terminates:
  assumes "reachable h n E p" and "obeys_contract h" and "0 \<le> n" and "client p = CStartWait b"
  shows "\<exists>is p'. length is \<le> start_measure p \<and>
    run h E (map Dispatch is @ [Client]) p = Some (Inr p') \<and>
    client p' = (if inDtor p then CDtorRelock else CIdle) \<and>
    pstate p' = RUNNING \<and> (\<forall>c \<in> set (dispatchers p'). \<not> uncounted c)"
proof -
  have "start_inv n p"
    using reachable_counts [OF assms(1)] reachable_phase [OF assms(1,2)]
      reachable_start_ok [OF assms(1,2)] assms(4)
    by (simp add: start_inv_def phase_ok_def)
  from starting.reaches_goal [OF this, of h E] obtain "is" q where
    l: "length is \<le> start_measure p" and q: "run h E (map Dispatch is) p = Some (Inr q)"
    and inv: "start_inv n q" and g: "all_counted q" by blast
  have "startCount q = 0"
    using inv g assms(3) by (auto simp: start_inv_def counts_ok_def all_counted_def count_if_def)
  then have c: "client q = CStartWait True" and i: "inDtor q = inDtor p"
    using inv run_dispatch_inDtor [OF q] by (auto simp: start_inv_def phase_ok_def)
  with q \<open>startCount q = 0\<close> have
    "run h E (map Dispatch is @ [Client]) p = Some (Inr (start_return q))"
    by (simp add: run_append allowed_def exec_def client_section_def start_count_wait_def)
  with l g inv i show ?thesis
    by (intro exI [of _ "is"] exI [of _ "start_return q"])
      (simp add: start_return_def all_counted_def start_inv_def)
qed

lemma start_terminates_witness:
  "\<exists>is p'. length is \<le> 2 \<and> run onErrorFunc {START} (map Dispatch is @ [Client])
     \<lparr>pstate = RUNNING, dispatchers = [StartBlocked True], actorQueue = [7, 8 :: nat], startCount = 1,
      sleepingCount = 0, client = CStartWait False, inDtor = False, scheduledLog = [7, 8],
      takenLog = []\<rparr> = Some (Inr p') \<and> client p' = CIdle"
  using start_terminates [OF demo_reach [of onErrorFunc], of False] by (auto simp: start_measure_def)

text \<open>
  Lemma: the destructor terminates and is safe. From every reachable state in which it joins the
  dispatchers, at most \<open>stop_measure\<close> dispatcher steps and one client step complete it; the
  members are destroyed only when every dispatcher has left its loop and no callback is queued.
\<close>

theorem destructor_completes:
  assumes "reachable h n E p" and "obeys_contract h" and "client p = CJoin"
  shows "\<exists>is p'. length is \<le> stop_measure p \<and>
    run h E (map Dispatch is @ [Client]) p = Some (Inr p') \<and> client p' = CDestroyed \<and>
    (\<forall>c \<in> set (dispatchers p'). c = Exited) \<and> actorQueue p' = []"
proof -
  have "join_inv p" using reachable_phase [OF assms(1,2)] assms(3) by (simp add: join_inv_def phase_ok_def)
  from joining.reaches_goal [OF this, of h E] obtain "is" q where
    l: "length is \<le> stop_measure p" and q: "run h E (map Dispatch is) p = Some (Inr q)"
    and inv: "join_inv q" and g: "all_exited q" by blast
  then have "run h E (map Dispatch is @ [Client]) p = Some (Inr (q\<lparr>client := CDestroyed\<rparr>))"
    by (simp add: run_append allowed_def exec_def client_section_def join_inv_def all_exited_def
        list_all_iff)
  with l g inv show ?thesis
    by (intro exI [of _ "is"] exI [of _ "q\<lparr>client := CDestroyed\<rparr>"])
      (simp add: join_inv_def phase_ok_def all_exited_def)
qed

lemma destructor_completes_witness:
  "\<exists>is p'. length is \<le> stop_measure demo_joining \<and>
     run onErrorFunc {START} (map Dispatch is @ [Client]) demo_joining = Some (Inr p') \<and>
     client p' = CDestroyed"
  using destructor_completes [OF demo_joining_reach] by (auto simp: demo_joining_def)

text \<open>
  Lemma: the state machine goes forward only. With an error callback that does not return, every step
  from a reachable state leaves the state where it is or moves it forward in the order \<open>START\<close>,
  \<open>RUNNING\<close>, \<open>STOPPING\<close>, \<open>STOPPED\<close>; so \<^verbatim>\<open>STOPPED\<close> is
  final and no callback is accepted after it.
\<close>

theorem state_machine_forward:
  assumes "reachable h n E p" and "obeys_contract h" and "exec h a p = Some (Inr p')"
  shows "pstate p \<le> pstate p' \<and> (pstate p = STOPPED \<longrightarrow> scheduledLog p' = scheduledLog p)"
  using exec_forward [OF assms(3) reachable_phase [OF assms(1,2)] assms(2)] by blast

lemma state_machine_forward_witness:
  "exec onErrorFunc Client demo_stopped = Some (Inr (demo_stopped\<lparr>client := CIdle\<rparr>)) \<and>
   STOPPED \<le> pstate (demo_stopped\<lparr>client := CIdle\<rparr>)"
proof -
  have e: "exec onErrorFunc Client demo_stopped = Some (Inr (demo_stopped\<lparr>client := CIdle\<rparr>))"
    by (simp add: exec_def client_section_def stop_notify_def notify_all_schedule_def
        demo_stopped_def demo_state_def)
  from state_machine_forward [OF demo_stopped_reach _ e] e show ?thesis
    by (simp add: demo_stopped_def)
qed

text \<open>
  The calls of another thread than the client. Only the first section of such a call matters here, the one that
  can find the priority in the wrong state; it may be executed whenever the mutex is free, wherever the client is.
\<close>

datatype client_call = StartCalled | StopCalled | WaitForIdleCalled | DestructorCalled

fun first_section :: "handler \<Rightarrow> client_call \<Rightarrow> 'job prio \<Rightarrow> error + 'job prio" where
  "first_section h StartCalled p = start_locked h p"
| "first_section h StopCalled p = stop_locked h p"
| "first_section h WaitForIdleCalled p = Inr (waitForIdle p)"
| "first_section h DestructorCalled p = destructor h p"

lemma stopping_iff_client: "phase_ok p \<Longrightarrow> pstate p = STOPPING \<longleftrightarrow> (\<exists>b. client p = CStopWait b)"
  by (cases "client p") (auto simp: phase_ok_def)

lemma other_call_errors:
  assumes "phase_ok p" and "obeys_contract h"
  shows "first_section h c p = Inl e \<longleftrightarrow>
    c = StartCalled \<and> pstate p \<noteq> START \<and> e = err_start_twice \<or>
    c = StopCalled \<and> pstate p \<noteq> RUNNING \<and> e = err_stop_without_start \<or>
    c = DestructorCalled \<and> (\<exists>b. client p = CStopWait b) \<and> e = err_dtor_stopping"
  unfolding stopping_iff_client [OF assms(1), symmetric] using assms(2)
  by (cases c) (auto simp: start_locked_def stop_locked_def destructor_def Let_def split: pstate.splits if_splits)

lemma client_errors:
  assumes "reachable h n E p" and "obeys_contract h"
  shows "exec h a p = Some (Inl e) \<longleftrightarrow>
    a = CallStart \<and> client p = CIdle \<and> pstate p \<noteq> START \<and> e = err_start_twice \<or>
    a = CallStop \<and> client p = CIdle \<and> pstate p \<noteq> RUNNING \<and> e = err_stop_without_start \<or>
    (\<exists>j. a = CallSchedule External j) \<and> client p \<noteq> CDestroyed \<and> pstate p = STOPPED \<and>
      e = err_schedule_stopped"
proof (cases a)
  case CallDestructor
  then show ?thesis
    using reachable_phase [OF assms] assms(2)
    by (auto simp: exec_def destructor_def start_locked_def stop_locked_def phase_ok_def Let_def
        split: pstate.splits if_splits)
next
  case Client
  then show ?thesis
    using reachable_phase [OF assms] assms(2)
    by (auto simp: exec_def client_section_def stop_locked_def phase_ok_def Let_def
        split: cpc.splits if_splits)
next
  case (CallSchedule c j)
  show ?thesis
  proof (cases c)
    case (Dispatcher i)
    with CallSchedule show ?thesis
      using stopped_quiet [OF reachable_phase [OF assms]] nth_mem [of i "dispatchers p"]
      by (auto simp: exec_def may_schedule_def schedule_def Let_def split: if_splits)
  next
    case External
    with CallSchedule assms(2) show ?thesis
      by (auto simp: exec_def may_schedule_def schedule_def Let_def split: if_splits)
  qed
qed (use assms(2) in \<open>auto simp: exec_def start_locked_def stop_locked_def Let_def split: if_splits\<close>)

text \<open>
  C6: which misuse is reported, and nothing else. With an error callback that does not return, a step of the
  threads that use the priority as they should, one client, the dispatchers and any thread that schedules, ends in
  an error exactly when it is a second \<^verbatim>\<open>start\<close> (code 4), a \<^verbatim>\<open>stop\<close>
  of a priority that is not running (code 2), or a \<^verbatim>\<open>schedule\<close> from outside after
  \<open>STOPPED\<close> (code 3). A call from one more thread, at any moment, is reported exactly when it is a
  \<^verbatim>\<open>start\<close> or a \<^verbatim>\<open>stop\<close> in the wrong state, or the destructor
  while the client waits in \<^verbatim>\<open>stop\<close> (code 3); \<^verbatim>\<open>waitForIdle\<close>
  never is.
\<close>

theorem errors_exactly:
  assumes "reachable h n E p" and "obeys_contract h"
  shows "(exec h a p = Some (Inl e) \<longleftrightarrow>
      a = CallStart \<and> client p = CIdle \<and> pstate p \<noteq> START \<and> e = err_start_twice \<or>
      a = CallStop \<and> client p = CIdle \<and> pstate p \<noteq> RUNNING \<and> e = err_stop_without_start \<or>
      (\<exists>j. a = CallSchedule External j) \<and> client p \<noteq> CDestroyed \<and> pstate p = STOPPED \<and>
        e = err_schedule_stopped) \<and>
    (first_section h c p = Inl e \<longleftrightarrow>
      c = StartCalled \<and> pstate p \<noteq> START \<and> e = err_start_twice \<or>
      c = StopCalled \<and> pstate p \<noteq> RUNNING \<and> e = err_stop_without_start \<or>
      c = DestructorCalled \<and> (\<exists>b. client p = CStopWait b) \<and> e = err_dtor_stopping)"
  using client_errors [OF assms] other_call_errors [OF reachable_phase [OF assms] assms(2)] by simp

lemma errors_exactly_witness:
  "exec onErrorFunc (CallSchedule External 9) demo_stopped = Some (Inl err_schedule_stopped) \<and>
   first_section onErrorFunc DestructorCalled demo_state = Inl err_dtor_stopping"
  using errors_exactly [OF demo_stopped_reach, of "CallSchedule External 9" err_schedule_stopped StartCalled]
    errors_exactly [OF demo_stopping, of Client err_dtor_stopping DestructorCalled]
  by (simp add: demo_stopped_def demo_stopping_wait ex_bool_eq)

section \<open>Refinement\<close>

text \<open>
  C7: the priority refines the abstract executor of \<^verbatim>\<open>Priority_Refinement\<close>.
  Every step from a reachable state is one step of the executor on the abstract state or leaves it
  unchanged.
\<close>

theorem priority_refines_executor:
  assumes "reachable h n E p" and "obeys_contract h" and "prio_step h p a p'"
  shows "abs_prio p' = abs_prio p \<or> executor_step (abs_prio p) (abs_prio p')"
  using exec_refines [OF _ reachable_phase [OF assms(1,2)] reachable_counts [OF assms(1)] assms(2)] assms(3)
  by (simp add: prio_step_iff)

lemma priority_refines_executor_witness:
  "\<exists>p'. prio_step onErrorFunc demo_state (Dispatch 0) p' \<and> executor_step (abs_prio demo_state) (abs_prio p')"
proof -
  let ?p = "set_pc 0 LoopEntry demo_state"
  have s: "prio_step onErrorFunc demo_state (Dispatch 0) ?p"
    by (simp add: prio_step_iff exec_def dispatcherLoop_def demo_state_def)
  have "abs_prio ?p \<noteq> abs_prio demo_state" by (simp add: abs_prio_def set_pc_def demo_state_def)
  with priority_refines_executor [OF demo_stopping _ s] s show ?thesis by auto
qed

end
