(* ===== verification/Handshake.thy ===== *)
theory Handshake
  imports Core_Prelude
begin

text \<open>
  The protocol by which a queue with a \<^verbatim>\<open>scheduled_\<close> flag hands itself to an
  executor: a producer that finds the flag clear sets it and gives the executor one token (a callback
  that will consume the queue); a consumer that has finished clears the flag, or leaves it set and gives
  a new token. A port uses it towards its actor (\<^verbatim>\<open>port.cpp\<close>), an actor towards its
  priority (\<^verbatim>\<open>actor.cpp\<close>).

  The protocol is an abstract machine; a component interprets the locale with a map from its own states to
  the machine's. What follows for all of them is that tokens and consumers together are never more than
  one, so the queue is consumed by one thread at a time, and that a queue with work in it is scheduled.
\<close>

record handshake =
  work :: nat
  flagged :: bool
  tokens :: nat
  active :: nat

text \<open>\<open>active\<close> also counts the constructor, which holds the flag until it is finished.\<close>

inductive handshake_step :: "handshake \<Rightarrow> handshake \<Rightarrow> bool" where
  post: "handshake_step x (if flagged x then x\<lparr>work := work x + 1\<rparr>
           else x\<lparr>work := work x + 1, flagged := True, tokens := tokens x + 1\<rparr>)"
| claim: "0 < tokens x \<Longrightarrow> handshake_step x (x\<lparr>tokens := tokens x - 1, active := active x + 1\<rparr>)"
| drain: "0 < active x \<Longrightarrow> 0 < work x \<Longrightarrow> handshake_step x (x\<lparr>work := work x - 1\<rparr>)"
| release: "0 < active x \<Longrightarrow> work x = 0 \<Longrightarrow>
    handshake_step x (x\<lparr>flagged := False, active := active x - 1\<rparr>)"
| again: "0 < active x \<Longrightarrow> handshake_step x (x\<lparr>active := active x - 1, tokens := tokens x + 1\<rparr>)"

definition handshake_ok :: "handshake \<Rightarrow> bool" where
  "handshake_ok x \<longleftrightarrow> tokens x + active x = (if flagged x then 1 else 0) \<and> (0 < work x \<longrightarrow> flagged x)"

lemma handshake_step_ok: "handshake_step x y \<Longrightarrow> handshake_ok x \<Longrightarrow> handshake_ok y"
  by (induction rule: handshake_step.induct) (auto simp: handshake_ok_def split: if_splits)

lemma handshake_flagged: "handshake_ok x \<Longrightarrow> 0 < active x \<Longrightarrow> flagged x"
  by (auto simp: handshake_ok_def split: if_splits)

lemma handshake_exclusive: "handshake_ok x \<Longrightarrow> active x \<le> 1 \<and> (0 < active x \<longrightarrow> tokens x = 0)"
  by (auto simp: handshake_ok_def split: if_splits)

lemma handshake_no_lost_work: "handshake_ok x \<Longrightarrow> 0 < work x \<Longrightarrow> tokens x = 1 \<or> active x = 1"
  by (auto simp: handshake_ok_def split: if_splits)

lemma handshake_quiescent: "handshake_ok x \<Longrightarrow> \<not> flagged x \<Longrightarrow> work x = 0 \<and> tokens x = 0 \<and> active x = 0"
  by (auto simp: handshake_ok_def)

text \<open>
  A system that runs the protocol: it starts in a consistent state, and each of its steps is a protocol
  step or invisible to the protocol.
\<close>

locale scheduled_once =
  fixes start :: "'s \<Rightarrow> bool"
    and step :: "'s \<Rightarrow> 's \<Rightarrow> bool"
    and view :: "'s \<Rightarrow> handshake"
  assumes starts_ok: "start s \<Longrightarrow> handshake_ok (view s)"
    and simulates: "handshake_ok (view s) \<Longrightarrow> step s s' \<Longrightarrow>
      view s' = view s \<or> handshake_step (view s) (view s')"
begin

lemma runs_ok: "step\<^sup>*\<^sup>* s0 s \<Longrightarrow> start s0 \<Longrightarrow> handshake_ok (view s)"
proof (induction rule: rtranclp_induct)
  case (step s s')
  then show ?case using simulates [OF _ step.hyps(2)] handshake_step_ok by fastforce
qed (rule starts_ok)

lemma one_consumer:
  "step\<^sup>*\<^sup>* s0 s \<Longrightarrow> start s0 \<Longrightarrow>
     active (view s) \<le> 1 \<and> (0 < active (view s) \<longrightarrow> tokens (view s) = 0)"
  using runs_ok handshake_exclusive by blast

lemma work_is_scheduled:
  "step\<^sup>*\<^sup>* s0 s \<Longrightarrow> start s0 \<Longrightarrow> 0 < work (view s) \<Longrightarrow>
     tokens (view s) = 1 \<or> active (view s) = 1"
  using runs_ok handshake_no_lost_work by blast

lemma idle_is_quiescent:
  "step\<^sup>*\<^sup>* s0 s \<Longrightarrow> start s0 \<Longrightarrow> \<not> flagged (view s) \<Longrightarrow>
     work (view s) = 0 \<and> tokens (view s) = 0 \<and> active (view s) = 0"
  using runs_ok handshake_quiescent by blast

end

end
