(* ===== verification/Actor_Queue.thy ===== *)
theory Actor_Queue
  imports Handshake Core_Errors
begin

text \<open>
  The callback queue of an actor, \<^verbatim>\<open>rapi_core/src/actor.cpp\<close>: what makes an actor
  single threaded, and what its constructor and destructor wait for.

  A callback is an arbitrary value of type \<open>'cb\<close>. A consumer is one execution of
  \<^verbatim>\<open>Actor::consume\<close> by a dispatcher of the priority; \<open>consumeJobs\<close> counts
  the calls of \<^verbatim>\<open>consume\<close> that the priority has accepted and not yet begun (that it
  begins each of them once is the subject of \<^verbatim>\<open>Priority_Properties\<close>). Every stretch
  of code that holds \<^verbatim>\<open>callBackMutex_\<close> is one step. Once the destructor has passed its
  wait it keeps the mutex, so no step that needs it is possible any more.
\<close>

section \<open>State\<close>

datatype 'cb consumer =
    AtLock                 \<comment> \<open>about to lock \<open>callBackMutex_\<close> and test the queue\<close>
  | CallingBack 'cb        \<comment> \<open>executing a callback, mutex released\<close>
  | Returned

datatype actor_phase =
    Constructing           \<comment> \<open>between the constructor of \<open>Actor\<close> and \<open>ctorFinished\<close>\<close>
  | Live
  | DtorWaiting bool       \<comment> \<open>in \<open>waitForReadyToDtor\<close>; \<open>True\<close>: notified\<close>
  | DtorLocked             \<comment> \<open>past \<open>waitForReadyToDtor\<close>, the mutex is held\<close>

record 'cb actor_q =
  callBackQueue :: "'cb list"
  scheduled_flag :: bool
  consumeJobs :: nat
  consumers :: "'cb consumer list"
  phase_of :: actor_phase
  postedLog :: "'cb list"
  begunLog :: "'cb list"

text \<open>The constructor sets the flag, so that nothing is dispatched before \<^verbatim>\<open>ctorFinished\<close>.\<close>

definition actor_init :: "'cb actor_q" where
  "actor_init = \<lparr>callBackQueue = [], scheduled_flag = True, consumeJobs = 0, consumers = [],
     phase_of = Constructing, postedLog = [], begunLog = []\<rparr>"

section \<open>Operations\<close>

definition priority_schedule_consume :: "'cb actor_q \<Rightarrow> 'cb actor_q" where
  "priority_schedule_consume s = s\<lparr>consumeJobs := consumeJobs s + 1\<rparr>"

definition ctorFinished :: "'cb actor_q \<Rightarrow> 'cb actor_q" where
  "ctorFinished s =
     (let s' = s\<lparr>phase_of := Live\<rparr>
      in if callBackQueue s' \<noteq> [] then priority_schedule_consume s'
         else s'\<lparr>scheduled_flag := False\<rparr>)"

definition waitForReadyToDtor :: "'cb actor_q \<Rightarrow> 'cb actor_q" where
  "waitForReadyToDtor s =
     s\<lparr>phase_of := (if scheduled_flag s then DtorWaiting False else DtorLocked)\<rparr>"

definition notify_dtor :: "'cb actor_q \<Rightarrow> 'cb actor_q" where
  "notify_dtor s = (case phase_of s of
      DtorWaiting b \<Rightarrow> s\<lparr>phase_of := DtorWaiting True\<rparr>
    | _ \<Rightarrow> s)"

definition actor_schedule :: "'cb \<Rightarrow> 'cb actor_q \<Rightarrow> 'cb actor_q" where
  "actor_schedule cb s =
     (let s' = s\<lparr>callBackQueue := callBackQueue s @ [cb], postedLog := postedLog s @ [cb]\<rparr>
      in if scheduled_flag s' then s'
         else priority_schedule_consume (s'\<lparr>scheduled_flag := True\<rparr>))"

text \<open>
  One iteration of the loop of \<^verbatim>\<open>consume\<close>, up to the release of the mutex.
\<close>

definition actor_consume :: "nat \<Rightarrow> 'cb actor_q \<Rightarrow> 'cb actor_q" where
  "actor_consume i s =
     (case callBackQueue s of
        cb # cbs \<Rightarrow> s\<lparr>callBackQueue := cbs, begunLog := begunLog s @ [cb],
                     consumers := (consumers s)[i := CallingBack cb]\<rparr>
      | [] \<Rightarrow> notify_dtor (s\<lparr>scheduled_flag := False, consumers := (consumers s)[i := Returned]\<rparr>))"

definition consumer_step :: "nat \<Rightarrow> 'cb actor_q \<Rightarrow> 'cb actor_q option" where
  "consumer_step i s =
     (case consumers s ! i of
        AtLock \<Rightarrow> if phase_of s = DtorLocked then None else Some (actor_consume i s)
      | CallingBack cb \<Rightarrow> Some (s\<lparr>consumers := (consumers s)[i := AtLock]\<rparr>)
      | Returned \<Rightarrow> None)"

section \<open>Steps\<close>

datatype 'cb aq_action =
    Post 'cb               \<comment> \<open>some thread calls \<open>Actor::schedule\<close>\<close>
  | BeginConsume           \<comment> \<open>a dispatcher begins an accepted \<open>consume\<close>\<close>
  | ConsumerStep nat
  | CtorFinished
  | WaitForDtor
  | DtorTest               \<comment> \<open>the notified destructor tests the flag again\<close>
  | DtorSpurious

text \<open>
  \<open>twice\<close> says whether \<^verbatim>\<open>ctorFinished\<close> may be called again on a live actor,
  as a derived class does that calls it besides \<^verbatim>\<open>ActorLifeCycle\<close>.
\<close>

definition aq_exec :: "bool \<Rightarrow> 'cb aq_action \<Rightarrow> 'cb actor_q \<Rightarrow> 'cb actor_q option" where
  "aq_exec twice a s =
     (case a of
        Post cb \<Rightarrow> if phase_of s = DtorLocked then None else Some (actor_schedule cb s)
      | BeginConsume \<Rightarrow>
          if 0 < consumeJobs s
          then Some (s\<lparr>consumeJobs := consumeJobs s - 1, consumers := consumers s @ [AtLock]\<rparr>)
          else None
      | ConsumerStep i \<Rightarrow> if i < length (consumers s) then consumer_step i s else None
      | CtorFinished \<Rightarrow>
          if phase_of s = Constructing \<or> twice \<and> phase_of s = Live then Some (ctorFinished s) else None
      | WaitForDtor \<Rightarrow> if phase_of s = Live then Some (waitForReadyToDtor s) else None
      | DtorTest \<Rightarrow> if phase_of s = DtorWaiting True then Some (waitForReadyToDtor s) else None
      | DtorSpurious \<Rightarrow>
          (case phase_of s of DtorWaiting b \<Rightarrow> Some (s\<lparr>phase_of := DtorWaiting True\<rparr>) | _ \<Rightarrow> None))"

inductive aq_step :: "'cb actor_q \<Rightarrow> 'cb actor_q \<Rightarrow> bool" where
  "aq_exec False a s = Some s' \<Longrightarrow> aq_step s s'"

inductive_cases aq_stepE: "aq_step s s'"

fun aq_run :: "bool \<Rightarrow> 'cb aq_action list \<Rightarrow> 'cb actor_q \<Rightarrow> 'cb actor_q option" where
  "aq_run twice [] s = Some s"
| "aq_run twice (a # as) s = (case aq_exec twice a s of None \<Rightarrow> None | Some s' \<Rightarrow> aq_run twice as s')"

abbreviation aq_reachable :: "'cb actor_q \<Rightarrow> bool" where
  "aq_reachable \<equiv> aq_step\<^sup>*\<^sup>* actor_init"

lemma aq_run_steps: "aq_run False as s = Some s' \<Longrightarrow> aq_step\<^sup>*\<^sup>* s s'"
proof (induction as arbitrary: s)
  case (Cons a as)
  then obtain r where "aq_exec False a s = Some r" "aq_run False as r = Some s'"
    by (auto split: option.splits)
  with Cons.IH show ?case by (meson aq_step.intros converse_rtranclp_into_rtranclp)
qed simp

lemmas aq_ops = actor_schedule_def actor_consume_def consumer_step_def ctorFinished_def
  waitForReadyToDtor_def priority_schedule_consume_def notify_dtor_def

section \<open>The handshake with the priority\<close>

definition running_consumer :: "'cb consumer \<Rightarrow> bool" where
  "running_consumer c \<longleftrightarrow> c \<noteq> Returned"

definition aq_view :: "'cb actor_q \<Rightarrow> handshake" where
  "aq_view s = \<lparr>work = length (callBackQueue s), flagged = scheduled_flag s, tokens = consumeJobs s,
     active = (if phase_of s = Constructing then 1 else 0) + count_if running_consumer (consumers s)\<rparr>"

lemma running_consumer_simps [simp]:
  "running_consumer AtLock" "running_consumer (CallingBack cb)" "\<not> running_consumer Returned"
  by (simp_all add: running_consumer_def)

lemma notify_dtor_frame [simp]:
  "callBackQueue (notify_dtor s) = callBackQueue s" "scheduled_flag (notify_dtor s) = scheduled_flag s"
  "consumeJobs (notify_dtor s) = consumeJobs s" "consumers (notify_dtor s) = consumers s"
  "postedLog (notify_dtor s) = postedLog s" "begunLog (notify_dtor s) = begunLog s"
  "phase_of (notify_dtor s) = Constructing \<longleftrightarrow> phase_of s = Constructing"
  by (auto simp: notify_dtor_def split: actor_phase.splits)

lemma aq_view_post: "aq_view (actor_schedule cb s) = (let x = aq_view s in
    if flagged x then x\<lparr>work := work x + 1\<rparr>
    else x\<lparr>work := work x + 1, flagged := True, tokens := tokens x + 1\<rparr>)"
  by (simp add: aq_view_def actor_schedule_def priority_schedule_consume_def Let_def)

lemma aq_view_consume:
  assumes i: "i < length (consumers s)" and "running_consumer (consumers s ! i)"
  shows "handshake_step (aq_view s) (aq_view (actor_consume i s))"
proof -
  have pos: "0 < count_if running_consumer (consumers s)"
    using assms by (rule count_if_pos)
  show ?thesis
  proof (cases "callBackQueue s")
    case Nil
    then show ?thesis
      using handshake_step.release [of "aq_view s"] assms pos
      by (simp add: aq_view_def actor_consume_def count_if_update)
  next
    case (Cons cb cbs)
    then show ?thesis
      using handshake_step.drain [of "aq_view s"] assms pos
      by (simp add: aq_view_def actor_consume_def count_if_update_same)
  qed
qed

lemma aq_view_ctor:
  assumes "phase_of s = Constructing"
  shows "handshake_step (aq_view s) (aq_view (ctorFinished s))"
  using assms handshake_step.release [of "aq_view s"] handshake_step.again [of "aq_view s"]
  by (auto simp: aq_view_def ctorFinished_def priority_schedule_consume_def Let_def)

lemma aq_simulates:
  assumes "aq_step s s'"
  shows "aq_view s' = aq_view s \<or> handshake_step (aq_view s) (aq_view s')"
proof -
  from assms obtain a where e: "aq_exec False a s = Some s'" by (auto elim: aq_stepE)
  show ?thesis
  proof (cases a)
    case (Post cb)
    then have "s' = actor_schedule cb s" using e by (simp add: aq_exec_def split: if_splits)
    then show ?thesis
      using handshake_step.post [of "aq_view s"] by (simp add: aq_view_post Let_def)
  next
    case BeginConsume
    then show ?thesis
      using e handshake_step.claim [of "aq_view s"]
      by (auto simp: aq_exec_def aq_view_def split: if_splits)
  next
    case (ConsumerStep i)
    then show ?thesis
      using e aq_view_consume [of i s]
      by (auto simp: aq_exec_def consumer_step_def aq_view_def count_if_update_same
          split: if_splits consumer.splits)
  next
    case CtorFinished
    then show ?thesis using e aq_view_ctor [of s] by (auto simp: aq_exec_def split: if_splits)
  next
    case DtorSpurious
    then show ?thesis using e by (auto simp: aq_exec_def aq_view_def split: actor_phase.splits)
  qed (use e in \<open>auto simp: aq_exec_def aq_view_def waitForReadyToDtor_def split: if_splits\<close>)
qed

interpretation actor_handshake: scheduled_once "\<lambda>s. s = actor_init" aq_step aq_view
proof unfold_locales
  show "handshake_ok (aq_view s)" if "s = actor_init" for s :: "'a actor_q"
    using that by (simp add: aq_view_def actor_init_def handshake_ok_def)
qed (rule aq_simulates)

section \<open>Invariants\<close>

lemma aq_log_step:
  assumes "aq_exec twice a s = Some s'" and "postedLog s = begunLog s @ callBackQueue s"
  shows "postedLog s' = begunLog s' @ callBackQueue s'"
  using assms
  by (cases a) (auto simp: aq_exec_def aq_ops Let_def
      split: if_splits actor_phase.splits consumer.splits list.splits)

lemma aq_reachable_log: "aq_reachable s \<Longrightarrow> postedLog s = begunLog s @ callBackQueue s"
  by (induction rule: rtranclp_induct)
    (simp add: actor_init_def, metis aq_log_step aq_stepE)

text \<open>The destructor waits only while the flag is set or it has been notified.\<close>

definition dtor_ok :: "'cb actor_q \<Rightarrow> bool" where
  "dtor_ok s \<longleftrightarrow> (case phase_of s of
      DtorWaiting b \<Rightarrow> scheduled_flag s \<or> b
    | DtorLocked \<Rightarrow> \<not> scheduled_flag s
    | _ \<Rightarrow> True)"

lemma aq_dtor_step:
  assumes "aq_exec twice a s = Some s'" and "dtor_ok s"
  shows "dtor_ok s'"
  using assms
  by (cases a) (auto simp: aq_exec_def aq_ops dtor_ok_def Let_def
      split: if_splits actor_phase.splits consumer.splits list.splits)

lemma aq_reachable_dtor: "aq_reachable s \<Longrightarrow> dtor_ok s"
  by (induction rule: rtranclp_induct)
    (simp add: actor_init_def dtor_ok_def, metis aq_dtor_step aq_stepE)

lemmas aq_reachable_handshake = actor_handshake.runs_ok [OF _ refl]

section \<open>Draining\<close>

fun consumer_weight :: "'cb consumer \<Rightarrow> nat" where
  "consumer_weight AtLock = 1"
| "consumer_weight (CallingBack cb) = 2"
| "consumer_weight Returned = 0"

definition aq_measure :: "'cb actor_q \<Rightarrow> nat" where
  "aq_measure s = 2 * length (callBackQueue s) + 2 * consumeJobs s +
     sum_list (map consumer_weight (consumers s))"

definition dispatcher_action :: "'cb aq_action \<Rightarrow> bool" where
  "dispatcher_action a \<longleftrightarrow> (case a of BeginConsume \<Rightarrow> True | ConsumerStep i \<Rightarrow> True | _ \<Rightarrow> False)"

lemma aq_dispatch_decreases:
  assumes e: "aq_exec twice a s = Some s'" and a: "dispatcher_action a"
  shows "aq_measure s' < aq_measure s"
proof (cases a)
  case (ConsumerStep i)
  then have i: "i < length (consumers s)" and c: "consumer_step i s = Some s'"
    using e by (auto simp: aq_exec_def split: if_splits)
  have upd: "sum_list (map consumer_weight ((consumers s)[i := c])) + consumer_weight (consumers s ! i)
      = sum_list (map consumer_weight (consumers s)) + consumer_weight c" for c
    using i by (rule sum_list_update_nat)
  show ?thesis
    using c upd [of Returned] upd [of AtLock] upd [of "CallingBack (hd (callBackQueue s))"]
    by (cases "callBackQueue s")
      (auto simp: consumer_step_def actor_consume_def aq_measure_def split: if_splits consumer.splits)
qed (use e a in \<open>auto simp: aq_exec_def dispatcher_action_def aq_measure_def split: if_splits\<close>)

text \<open>As long as the flag is set on a constructed actor, a dispatcher can go on with it.\<close>

lemma aq_dispatch_enabled:
  assumes ok: "handshake_ok (aq_view s)" and "scheduled_flag s" and "phase_of s \<noteq> Constructing"
    and "phase_of s \<noteq> DtorLocked"
  shows "\<exists>a s'. dispatcher_action a \<and> aq_exec False a s = Some s'"
proof -
  have "consumeJobs s + count_if running_consumer (consumers s) = 1"
    using ok assms(2,3) by (simp add: handshake_ok_def aq_view_def)
  then consider "0 < consumeJobs s" | "0 < count_if running_consumer (consumers s)" by linarith
  then show ?thesis
  proof cases
    case 1
    then show ?thesis
      by (intro exI [of _ BeginConsume]) (simp add: dispatcher_action_def aq_exec_def)
  next
    case 2
    then obtain i where i: "i < length (consumers s)" and "running_consumer (consumers s ! i)"
      by (auto simp: count_if_def filter_empty_conv in_set_conv_nth)
    then show ?thesis using assms(4)
      by (intro exI [of _ "ConsumerStep i"], cases "consumers s ! i")
        (simp_all add: dispatcher_action_def aq_exec_def consumer_step_def)
  qed
qed

lemma aq_dispatch_phase:
  assumes "aq_exec twice a s = Some s'" and "dispatcher_action a"
  shows "\<exists>b. phase_of s = DtorWaiting b \<Longrightarrow> \<exists>b. phase_of s' = DtorWaiting b"
  using assms
  by (cases a) (auto simp: aq_exec_def aq_ops dispatcher_action_def
      split: if_splits consumer.splits list.splits)

end
