(* ===== verification/Actor_Queue_Properties.thy ===== *)
theory Actor_Queue_Properties
  imports Actor_Queue
begin

text \<open>
  The properties of an actor's callback queue, for every interleaving of the threads that schedule on it,
  the dispatchers that consume it, its constructor and its destructor.
\<close>

definition demo_actor :: "nat actor_q" where
  "demo_actor = \<lparr>callBackQueue = [2], scheduled_flag = True, consumeJobs = 0, consumers = [CallingBack 1],
     phase_of = DtorWaiting False, postedLog = [1, 2], begunLog = [1]\<rparr>"

lemma demo_actor_reach: "aq_reachable demo_actor"
  by (rule aq_run_steps [where as = "[Post 1, CtorFinished, BeginConsume, ConsumerStep 0, Post 2, WaitForDtor]"])
    (simp add: aq_exec_def aq_ops actor_init_def demo_actor_def Let_def)

text \<open>
  Lemma: an actor is single threaded. In every reachable state at most one execution of
  \<^verbatim>\<open>consume\<close> is in progress, none is while the constructor runs, and while one is in
  progress no other is waiting in the priority; so no two callbacks of an actor ever overlap.
\<close>

theorem actor_single_threaded:
  assumes "aq_reachable s"
  shows "count_if running_consumer (consumers s) + consumeJobs s \<le> 1 \<and>
    (phase_of s = Constructing \<longrightarrow> count_if running_consumer (consumers s) = 0 \<and> consumeJobs s = 0)"
  using aq_reachable_handshake [OF assms]
  by (auto simp: handshake_ok_def aq_view_def split: if_splits)

lemma actor_single_threaded_witness:
  "count_if running_consumer (consumers demo_actor) + consumeJobs demo_actor \<le> 1"
  using actor_single_threaded [OF demo_actor_reach] by simp

text \<open>
  Lemma: the callbacks given to an actor are begun exactly once and in the order in which they were given.
\<close>

theorem actor_callbacks_in_order:
  assumes "aq_reachable s"
  shows "postedLog s = begunLog s @ callBackQueue s"
  by (rule aq_reachable_log [OF assms])

lemma actor_callbacks_in_order_witness: "postedLog demo_actor = begunLog demo_actor @ callBackQueue demo_actor"
  by (rule actor_callbacks_in_order [OF demo_actor_reach])

text \<open>
  Lemma: no work of a constructed actor is forgotten. Whenever its queue is not empty and its constructor has
  finished, exactly one execution of \<^verbatim>\<open>consume\<close> is waiting in the priority or in
  progress.
\<close>

theorem actor_work_is_scheduled:
  assumes "aq_reachable s" and "phase_of s \<noteq> Constructing" and "callBackQueue s \<noteq> []"
  shows "count_if running_consumer (consumers s) + consumeJobs s = 1"
  using actor_handshake.work_is_scheduled [OF assms(1) refl] aq_reachable_handshake [OF assms(1)] assms(2,3)
  by (auto simp: handshake_ok_def aq_view_def split: if_splits)

lemma actor_work_is_scheduled_witness:
  "count_if running_consumer (consumers demo_actor) + consumeJobs demo_actor = 1"
  using actor_work_is_scheduled [OF demo_actor_reach] by (simp add: demo_actor_def)

text \<open>
  Lemma: the destructor waits long enough. Once \<^verbatim>\<open>waitForReadyToDtor\<close> has returned, no
  callback is queued, running or scheduled, and nothing can be posted any more.
\<close>

theorem destroyed_actor_is_quiescent:
  assumes "aq_reachable s" and "phase_of s = DtorLocked"
  shows "callBackQueue s = [] \<and> consumeJobs s = 0 \<and> (\<forall>c \<in> set (consumers s). c = Returned) \<and>
    aq_exec False a s = None"
proof -
  have "\<not> scheduled_flag s" using aq_reachable_dtor [OF assms(1)] assms(2) by (simp add: dtor_ok_def)
  then have q: "callBackQueue s = []" "consumeJobs s = 0" "count_if running_consumer (consumers s) = 0"
    using actor_handshake.idle_is_quiescent [OF assms(1) refl] by (simp_all add: aq_view_def)
  then have r: "\<forall>c \<in> set (consumers s). c = Returned"
    by (auto simp: count_if_def filter_empty_conv running_consumer_def)
  moreover have "aq_exec False a s = None"
    using q r assms(2) nth_mem by (cases a) (fastforce simp: aq_exec_def consumer_step_def)+
  ultimately show ?thesis using q by simp
qed

definition demo_destroyed :: "nat actor_q" where
  "demo_destroyed = demo_actor\<lparr>callBackQueue := [], scheduled_flag := False, consumers := [Returned],
     phase_of := DtorLocked, begunLog := [1, 2]\<rparr>"

lemma demo_destroyed_reach: "aq_reachable demo_destroyed"
  by (rule rtranclp_trans [OF demo_actor_reach aq_run_steps [where as =
        "[ConsumerStep 0, ConsumerStep 0, ConsumerStep 0, ConsumerStep 0, DtorTest]"]])
    (simp add: aq_exec_def aq_ops demo_actor_def demo_destroyed_def Let_def)

lemma destroyed_actor_is_quiescent_witness:
  "callBackQueue demo_destroyed = [] \<and> aq_exec False (Post 3) demo_destroyed = None"
  using destroyed_actor_is_quiescent [OF demo_destroyed_reach] by (simp add: demo_destroyed_def)

text \<open>
  Lemma: the destructor does not wait longer than needed. When nothing more is posted to an actor whose
  destructor waits, at most \<open>aq_measure\<close> steps of the dispatchers lead to a state in which the
  destructor has been notified and its next test succeeds.
\<close>

theorem destructor_wait_ends:
  assumes "aq_reachable s" and "phase_of s = DtorWaiting b"
  shows "\<exists>as s'. length as \<le> aq_measure s \<and> (\<forall>a \<in> set as. dispatcher_action a) \<and>
    aq_run False (as @ [DtorTest]) s = Some s' \<and> phase_of s' = DtorLocked"
  using assms
proof (induction "aq_measure s" arbitrary: s b rule: less_induct)
  case less
  show ?case
  proof (cases "scheduled_flag s")
    case False
    then have "phase_of s = DtorWaiting True"
      using aq_reachable_dtor [OF less.prems(1)] less.prems(2) by (simp add: dtor_ok_def)
    with False show ?thesis
      by (intro exI [of _ "[]"]) (simp add: aq_exec_def waitForReadyToDtor_def)
  next
    case True
    then obtain a r where a: "dispatcher_action a" and r: "aq_exec False a s = Some r"
      using aq_dispatch_enabled [OF aq_reachable_handshake [OF less.prems(1)]] less.prems(2) by auto
    have w: "aq_measure r < aq_measure s" by (rule aq_dispatch_decreases [OF r a])
    obtain c where c: "phase_of r = DtorWaiting c"
      using aq_dispatch_phase [OF r a] less.prems(2) by blast
    have "aq_reachable r" using less.prems(1) r by (meson aq_step.intros rtranclp.rtrancl_into_rtrancl)
    from less.hyps [OF w this c] obtain as s' where
      "length as \<le> aq_measure r" "\<forall>a \<in> set as. dispatcher_action a"
      "aq_run False (as @ [DtorTest]) r = Some s'" "phase_of s' = DtorLocked" by blast
    with a r w show ?thesis by (intro exI [of _ "a # as"] exI [of _ s']) simp
  qed
qed

lemma destructor_wait_ends_witness:
  "\<exists>as s'. length as \<le> 4 \<and> aq_run False (as @ [DtorTest]) demo_actor = Some s' \<and>
     phase_of s' = DtorLocked"
  using destructor_wait_ends [OF demo_actor_reach, of False]
  by (auto simp: demo_actor_def aq_measure_def)

text \<open>
  Lemma: calling \<^verbatim>\<open>ctorFinished\<close> a second time, as the comments of
  \<^verbatim>\<open>actor.hpp\<close> ask every derived constructor to do although
  \<^verbatim>\<open>ActorLifeCycle\<close> already does, breaks the single-threadedness: there is a run
  with one such call after which two callbacks of the actor execute at the same time.
\<close>

theorem second_ctorFinished_breaks_exclusion:
  "\<exists>as s. aq_run True as actor_init = Some s \<and> length (filter (\<lambda>a. a = CtorFinished) as) = 2 \<and>
     consumers s = [CallingBack (1 :: nat), CallingBack 2]"
proof -
  let ?as = "[CtorFinished, Post 1, BeginConsume, ConsumerStep 0, Post 2, CtorFinished, BeginConsume,
    ConsumerStep 1 :: nat aq_action]"
  have "\<exists>s. aq_run True ?as actor_init = Some s \<and> consumers s = [CallingBack 1, CallingBack 2]"
    by (simp add: aq_exec_def aq_ops actor_init_def Let_def)
  then show ?thesis by (intro exI [of _ ?as]) simp
qed

end
