(* ===== verification/Callback_Store.thy ===== *)
theory Callback_Store
  imports Core_Prelude
begin

text \<open>
  The containers of callbacks, \<^verbatim>\<open>core/impl/async_call_back_vector.hpp\<close>, and the
  map from type ids to them that \<^verbatim>\<open>Network\<close> and \<^verbatim>\<open>Port\<close> keep.

  \<^verbatim>\<open>AsyncCallbackVector\<close> is an \<^verbatim>\<open>std::unordered_map\<close> from
  handles to callbacks: here an association list with distinct keys. The order in which the real container
  is iterated is unspecified, so statements about dispatching are about multisets of calls. The locale
  \<open>callback_store\<close> is what the two users rely on.
\<close>

type_synonym handle = int

text \<open>
  \<^verbatim>\<open>++handleCounter_\<close> on a 32 bit \<^verbatim>\<open>int\<close>: beyond its largest value the behaviour is
  undefined, so there is no next handle.
\<close>

definition handle_max :: handle where
  "handle_max = 2147483647"

definition next_handle :: "handle \<Rightarrow> handle option" where
  "next_handle k = (if k < handle_max then Some (k + 1) else None)"

section \<open>The interface\<close>

locale callback_store =
  fixes inv :: "'s \<Rightarrow> bool"
    and lookup :: "'s \<Rightarrow> handle \<Rightarrow> 'cb option"
    and calls :: "'s \<Rightarrow> 'cb list"
    and empty :: 's
    and add :: "handle \<Rightarrow> 'cb \<Rightarrow> 's \<Rightarrow> 's"
    and remove :: "handle \<Rightarrow> 's \<Rightarrow> 's \<times> bool"
  assumes inv_empty: "inv empty"
    and inv_add: "inv s \<Longrightarrow> inv (add h c s)"
    and inv_remove: "inv s \<Longrightarrow> inv (fst (remove h s))"
    and lookup_empty: "lookup empty = Map.empty"
    and lookup_add: "inv s \<Longrightarrow> lookup (add h c s) = (lookup s)(h \<mapsto> c)"
    and lookup_remove: "inv s \<Longrightarrow> lookup (fst (remove h s)) = (lookup s)(h := None)"
    and remove_empty: "inv s \<Longrightarrow> snd (remove h s) \<longleftrightarrow> lookup (fst (remove h s)) = Map.empty"
    and finite_lookup: "inv s \<Longrightarrow> finite (dom (lookup s))"
    and calls_once: "inv s \<Longrightarrow> mset (calls s) = image_mset (\<lambda>h. the (lookup s h)) (mset_set (dom (lookup s)))"
begin

text \<open>Registering under a new handle adds one call; removing a handle takes its call away.\<close>

lemma calls_add_fresh:
  assumes "inv s" and "lookup s h = None"
  shows "mset (calls (add h c s)) = add_mset c (mset (calls s))"
proof -
  have h: "h \<notin> dom (lookup s)" using assms(2) by auto
  have "mset (calls (add h c s)) =
      image_mset (\<lambda>k. the (((lookup s)(h \<mapsto> c)) k)) (mset_set (insert h (dom (lookup s))))"
    by (simp add: calls_once inv_add assms(1) lookup_add)
  also have "\<dots> = add_mset c (image_mset (\<lambda>k. the (((lookup s)(h \<mapsto> c)) k)) (mset_set (dom (lookup s))))"
    using h finite_lookup [OF assms(1)] by simp
  also have "image_mset (\<lambda>k. the (((lookup s)(h \<mapsto> c)) k)) (mset_set (dom (lookup s))) = mset (calls s)"
    unfolding calls_once [OF assms(1)] using h finite_lookup [OF assms(1)]
    by (intro image_mset_cong) auto
  finally show ?thesis .
qed

lemma calls_remove:
  assumes "inv s" and "lookup s h = Some c"
  shows "mset (calls s) = add_mset c (mset (calls (fst (remove h s))))"
proof -
  have "lookup s = lookup (add h c (fst (remove h s)))"
    using assms by (auto simp: lookup_add lookup_remove inv_remove)
  then have "mset (calls s) = mset (calls (add h c (fst (remove h s))))"
    by (simp add: calls_once assms(1) inv_add inv_remove)
  then show ?thesis
    using assms by (simp add: calls_add_fresh inv_remove lookup_remove)
qed

lemma calls_remove_absent:
  assumes "inv s" and "lookup s h = None"
  shows "mset (calls (fst (remove h s))) = mset (calls s)"
proof -
  have "lookup (fst (remove h s)) = lookup s" using assms by (auto simp: lookup_remove)
  then show ?thesis by (simp add: calls_once assms(1) inv_remove)
qed

lemma calls_mem: "inv s \<Longrightarrow> c \<in> set (calls s) \<longleftrightarrow> (\<exists>h. lookup s h = Some c)"
proof -
  assume s: "inv s"
  have "set (calls s) = set_mset (mset (calls s))" by simp
  also have "\<dots> = (\<lambda>h. the (lookup s h)) ` dom (lookup s)"
    unfolding calls_once [OF s] using finite_lookup [OF s] by simp
  finally show ?thesis by force
qed

end

section \<open>The container\<close>

type_synonym 'cb callback_vector = "(handle \<times> 'cb) list"

definition vector_add :: "handle \<Rightarrow> 'cb \<Rightarrow> 'cb callback_vector \<Rightarrow> 'cb callback_vector" where
  "vector_add h c v = AList.update h c v"

definition vector_remove :: "handle \<Rightarrow> 'cb callback_vector \<Rightarrow> 'cb callback_vector \<times> bool" where
  "vector_remove h v = (let v' = AList.delete h v in (v', v' = []))"

definition vector_calls :: "'cb callback_vector \<Rightarrow> 'cb list" where
  "vector_calls v = map snd v"

definition vector_ok :: "'cb callback_vector \<Rightarrow> bool" where
  "vector_ok v \<longleftrightarrow> distinct (map fst v)"

lemma vector_calls_once:
  "vector_ok v \<Longrightarrow>
     mset (vector_calls v) = image_mset (\<lambda>h. the (map_of v h)) (mset_set (dom (map_of v)))"
proof (induction v)
  case (Cons hc v)
  obtain h c where hc: "hc = (h, c)" by (cases hc)
  with Cons.prems have h: "h \<notin> dom (map_of v)" and v: "vector_ok v"
    by (auto simp: vector_ok_def dom_map_of_conv_image_fst)
  have d: "mset_set (dom (map_of (hc # v))) = add_mset h (mset_set (dom (map_of v)))"
    using h by (simp add: hc finite_dom_map_of dom_map_of_conv_image_fst)
  have "image_mset (\<lambda>k. the (map_of (hc # v) k)) (mset_set (dom (map_of v))) =
      image_mset (\<lambda>k. the (map_of v k)) (mset_set (dom (map_of v)))"
    using h by (intro image_mset_cong) (auto simp: hc finite_dom_map_of)
  with Cons.IH [OF v] show ?case
    unfolding d by (simp add: hc vector_calls_def)
qed (simp add: vector_calls_def)

interpretation vec: callback_store vector_ok map_of vector_calls "[]" vector_add vector_remove
proof unfold_locales
  fix v :: "'a callback_vector" and h :: handle and c :: 'a
  show "vector_ok v \<Longrightarrow> vector_ok (vector_add h c v)"
    by (simp add: vector_ok_def vector_add_def distinct_update)
  show "vector_ok v \<Longrightarrow> vector_ok (fst (vector_remove h v))"
    by (simp add: vector_ok_def vector_remove_def distinct_delete Let_def)
  show "vector_ok v \<Longrightarrow> map_of (vector_add h c v) = (map_of v)(h \<mapsto> c)"
    by (simp add: vector_add_def update_conv')
  show "vector_ok v \<Longrightarrow> map_of (fst (vector_remove h v)) = (map_of v)(h := None)"
    by (simp add: vector_remove_def delete_conv' Let_def)
  show "vector_ok v \<Longrightarrow> snd (vector_remove h v) = (map_of (fst (vector_remove h v)) = Map.empty)"
    by (simp add: vector_remove_def Let_def)
  show "vector_ok v \<Longrightarrow> finite (dom (map_of v))" by (rule finite_dom_map_of)
  show "vector_ok v \<Longrightarrow>
      mset (vector_calls v) = image_mset (\<lambda>h. the (map_of v h)) (mset_set (dom (map_of v)))"
    by (rule vector_calls_once)
qed (simp_all add: vector_ok_def)

section \<open>Callbacks by type\<close>

type_synonym ('m, 'cb) callback_table = "'m \<rightharpoonup> 'cb callback_vector"

definition table_ok :: "('m, 'cb) callback_table \<Rightarrow> bool" where
  "table_ok t \<longleftrightarrow> (\<forall>m v. t m = Some v \<longrightarrow> vector_ok v)"

text \<open>The calls an event of type \<open>m\<close> causes, and the callback registered for a type and a handle.\<close>

definition table_calls :: "'m \<Rightarrow> ('m, 'cb) callback_table \<Rightarrow> 'cb list" where
  "table_calls m t = (case t m of None \<Rightarrow> [] | Some v \<Rightarrow> vector_calls v)"

definition table_lookup :: "('m, 'cb) callback_table \<Rightarrow> 'm \<Rightarrow> handle \<Rightarrow> 'cb option" where
  "table_lookup t m h = (case t m of None \<Rightarrow> None | Some v \<Rightarrow> map_of v h)"

definition table_add :: "'m \<Rightarrow> handle \<Rightarrow> 'cb \<Rightarrow> ('m, 'cb) callback_table \<Rightarrow> ('m, 'cb) callback_table" where
  "table_add m h c t = t(m \<mapsto> vector_add h c (case t m of None \<Rightarrow> [] | Some v \<Rightarrow> v))"

lemma table_ok_simps [simp]: "table_ok Map.empty" "table_ok t \<Longrightarrow> table_ok (table_add m h c t)"
  by (auto simp: table_ok_def table_add_def vec.inv_add vec.inv_empty split: option.splits)

lemma table_ok_vector: "table_ok t \<Longrightarrow> t m = Some v \<Longrightarrow> vector_ok v"
  by (simp add: table_ok_def)

lemma table_lookup_empty [simp]: "table_lookup Map.empty = (\<lambda>m h. None)"
  by (simp add: table_lookup_def fun_eq_iff)

lemma table_lookup_add:
  "table_ok t \<Longrightarrow> table_lookup (table_add m h c t) =
     (\<lambda>m' h'. if m' = m \<and> h' = h then Some c else table_lookup t m' h')"
  by (auto simp: fun_eq_iff table_lookup_def table_add_def vec.lookup_add vec.inv_empty
      dest: table_ok_vector split: option.splits)

lemma table_calls_add_fresh:
  assumes "table_ok t" and "table_lookup t m h = None"
  shows "mset (table_calls m' (table_add m h c t)) =
    (if m' = m then add_mset c (mset (table_calls m' t)) else mset (table_calls m' t))"
  using assms
  by (auto simp: table_calls_def table_add_def table_lookup_def vec.calls_add_fresh vec.inv_empty
      dest: table_ok_vector split: option.splits)
    (simp add: vector_add_def vector_calls_def)

lemma table_calls_mem:
  "table_ok t \<Longrightarrow> c \<in> set (table_calls m t) \<longleftrightarrow> (\<exists>h. table_lookup t m h = Some c)"
  using vec.calls_mem [OF table_ok_vector, of t m]
  by (cases "t m") (simp_all add: table_calls_def table_lookup_def)

end
