(* ===== verification/Port_Queue.thy ===== *)
theory Port_Queue
  imports Handshake Callback_Store
begin

text \<open>
  A port, \<^verbatim>\<open>rapi_core/include/core/port.hpp\<close> and
  \<^verbatim>\<open>rapi_core/src/port.cpp\<close>: the queue of events and the queue of listen and unlisten
  commands that any thread may fill, and \<^verbatim>\<open>consume\<close>, which the owning actor runs.

  Every stretch of code that holds \<^verbatim>\<open>eventMutex_\<close> is one step, and so is one command
  or one event handled without it. \<open>ownerTokens\<close> counts the callbacks
  \<^verbatim>\<open>[this] { consume(); }\<close> that the port has given to
  \<^verbatim>\<open>Actor::schedule\<close> and that have not begun; \<open>netListens\<close> is the list of
  message types for which the port has registered itself at the network, its only effect there. An event
  is a message type with a payload. The commands are closures in the source; here they are data with
  \<open>exec_command\<close> as their meaning, and likewise for events.

  Ghost state: \<open>issuedLog\<close> and \<open>executedLog\<close> record the commands in the order in which
  they were queued and executed, \<open>postedEvents\<close> and \<open>poppedEvents\<close> the events, and each
  event carries the number of commands issued before it.
\<close>

section \<open>State\<close>

datatype ('m, 'cb) command =
    CListen handle 'm 'cb
  | CUnlisten handle 'm
  | CUnlistenAll handle

type_synonym ('m, 'e) stamped = "nat \<times> 'm \<times> 'e"

datatype ('m, 'e, 'cb) pconsumer =
    PTest nat                           \<comment> \<open>about to lock and test \<open>commandsQueue_\<close>; argument: events consumed\<close>
  | PCommand "('m, 'cb) command" nat    \<comment> \<open>executing a command, unlocked\<close>
  | PPop nat                            \<comment> \<open>loop condition held, about to lock and take an event\<close>
  | PEvent "('m, 'e) stamped" nat       \<comment> \<open>executing the event, unlocked\<close>
  | PFinish nat                         \<comment> \<open>loop left, about to lock for the final section\<close>
  | PDone nat                           \<comment> \<open>returned this number\<close>
  | PUndefined                          \<comment> \<open>\<open>front()\<close> of an empty queue: undefined behaviour\<close>

record ('m, 'e, 'cb) port =
  pt_handleCounter :: handle
  pt_callbacks :: "('m, 'cb) callback_table"
  pt_eventQueue :: "('m, 'e) stamped list"
  pt_commandsQueue :: "('m, 'cb) command list"
  pt_scheduled :: bool
  ownerTokens :: nat
  netListens :: "'m list"
  pconsumers :: "('m, 'e, 'cb) pconsumer list"
  issuedLog :: "('m, 'cb) command list"
  executedLog :: "('m, 'cb) command list"
  postedEvents :: "('m \<times> 'e) list"
  poppedEvents :: "('m \<times> 'e) list"
  callLog :: "(('m \<times> 'e) \<times> 'cb list) list"

definition port_init :: "('m, 'e, 'cb) port" where
  "port_init = \<lparr>pt_handleCounter = 0, pt_callbacks = Map.empty, pt_eventQueue = [],
     pt_commandsQueue = [], pt_scheduled = False, ownerTokens = 0, netListens = [], pconsumers = [],
     issuedLog = [], executedLog = [], postedEvents = [], poppedEvents = [], callLog = []\<rparr>"

section \<open>Operations of any thread\<close>

definition port_newHandle :: "('m, 'e, 'cb) port \<Rightarrow> (handle \<times> ('m, 'e, 'cb) port) option" where
  "port_newHandle s =
     (case next_handle (pt_handleCounter s) of
        None \<Rightarrow> None
      | Some handle \<Rightarrow> Some (handle, s\<lparr>pt_handleCounter := handle\<rparr>))"

definition scheduleOnOwner :: "('m, 'e, 'cb) port \<Rightarrow> ('m, 'e, 'cb) port" where
  "scheduleOnOwner s =
     (if \<not> pt_scheduled s then s\<lparr>pt_scheduled := True, ownerTokens := ownerTokens s + 1\<rparr> else s)"

definition push_command :: "('m, 'cb) command \<Rightarrow> ('m, 'e, 'cb) port \<Rightarrow> ('m, 'e, 'cb) port" where
  "push_command c s =
     s\<lparr>pt_commandsQueue := pt_commandsQueue s @ [c], issuedLog := issuedLog s @ [c]\<rparr>"

definition port_listen :: "'m \<Rightarrow> handle \<Rightarrow> 'cb \<Rightarrow> ('m, 'e, 'cb) port \<Rightarrow> ('m, 'e, 'cb) port" where
  "port_listen m h cb s = scheduleOnOwner (push_command (CListen h m cb) s)"

definition port_unlisten :: "'m \<Rightarrow> handle \<Rightarrow> ('m, 'e, 'cb) port \<Rightarrow> ('m, 'e, 'cb) port" where
  "port_unlisten m h s = scheduleOnOwner (push_command (CUnlisten h m) s)"

text \<open>The one operation that queues a command without scheduling the port.\<close>

definition port_unlistenAll :: "handle \<Rightarrow> ('m, 'e, 'cb) port \<Rightarrow> ('m, 'e, 'cb) port" where
  "port_unlistenAll h s = push_command (CUnlistenAll h) s"

definition port_schedule :: "'m \<times> 'e \<Rightarrow> ('m, 'e, 'cb) port \<Rightarrow> ('m, 'e, 'cb) port" where
  "port_schedule ev s =
     scheduleOnOwner (s\<lparr>pt_eventQueue := pt_eventQueue s @ [(length (issuedLog s), ev)],
                        postedEvents := postedEvents s @ [ev]\<rparr>)"

section \<open>Commands and events\<close>

fun exec_command :: "('m, 'cb) command \<Rightarrow> ('m, 'e, 'cb) port \<Rightarrow> ('m, 'e, 'cb) port" where
  "exec_command (CListen h m cb) s =
     (let s' = (case pt_callbacks s m of
          None \<Rightarrow> s\<lparr>pt_callbacks := (pt_callbacks s)(m \<mapsto> []), netListens := netListens s @ [m]\<rparr>
        | Some v \<Rightarrow> s)
      in s'\<lparr>pt_callbacks := table_add m h cb (pt_callbacks s')\<rparr>)"
| "exec_command (CUnlisten h m) s =
     (case pt_callbacks s m of
        None \<Rightarrow> s
      | Some v \<Rightarrow> s\<lparr>pt_callbacks := (pt_callbacks s)(m \<mapsto> fst (vector_remove h v))\<rparr>)"
| "exec_command (CUnlistenAll h) s =
     s\<lparr>pt_callbacks := (\<lambda>m. map_option (\<lambda>v. fst (vector_remove h v)) (pt_callbacks s m))\<rparr>"

definition dispatch_event :: "'m \<times> 'e \<Rightarrow> ('m, 'e, 'cb) port \<Rightarrow> ('m, 'e, 'cb) port" where
  "dispatch_event ev s =
     (case pt_callbacks s (fst ev) of
        None \<Rightarrow> s\<lparr>callLog := callLog s @ [(ev, [])]\<rparr>
      | Some v \<Rightarrow> s\<lparr>callLog := callLog s @ [(ev, vector_calls v)]\<rparr>)"

section \<open>Consuming\<close>

definition set_pcon :: "nat \<Rightarrow> ('m, 'e, 'cb) pconsumer \<Rightarrow> ('m, 'e, 'cb) port \<Rightarrow> ('m, 'e, 'cb) port" where
  "set_pcon i c s = s\<lparr>pconsumers := (pconsumers s)[i := c]\<rparr>"

text \<open>
  One locked iteration of \<^verbatim>\<open>processCommandsAndGetQueuedEventsCount\<close>; when no
  command is left the number of events decides, with the bound \<open>mx\<close>, how
  \<^verbatim>\<open>consume\<close> goes on.
\<close>

definition processCommands :: "nat \<Rightarrow> nat \<Rightarrow> nat \<Rightarrow> ('m, 'e, 'cb) port \<Rightarrow> ('m, 'e, 'cb) port" where
  "processCommands mx i k s =
     (case pt_commandsQueue s of
        c # cs \<Rightarrow> set_pcon i (PCommand c k) (s\<lparr>pt_commandsQueue := cs\<rparr>)
      | [] \<Rightarrow> set_pcon i (if pt_eventQueue s \<noteq> [] \<and> k < mx then PPop k else PFinish k) s)"

definition take_event :: "nat \<Rightarrow> nat \<Rightarrow> ('m, 'e, 'cb) port \<Rightarrow> ('m, 'e, 'cb) port" where
  "take_event i k s =
     (case pt_eventQueue s of
        e # es \<Rightarrow> set_pcon i (PEvent e k)
                   (s\<lparr>pt_eventQueue := es, poppedEvents := poppedEvents s @ [snd e]\<rparr>)
      | [] \<Rightarrow> set_pcon i PUndefined s)"

definition finish_consume :: "nat \<Rightarrow> nat \<Rightarrow> ('m, 'e, 'cb) port \<Rightarrow> ('m, 'e, 'cb) port" where
  "finish_consume i k s =
     (let s' = set_pcon i (PDone k) (s\<lparr>pt_scheduled := False\<rparr>)
      in if pt_eventQueue s' \<noteq> [] \<or> pt_commandsQueue s' \<noteq> [] then scheduleOnOwner s' else s')"

definition consume_step :: "nat \<Rightarrow> nat \<Rightarrow> ('m, 'e, 'cb) port \<Rightarrow> ('m, 'e, 'cb) port option" where
  "consume_step mx i s =
     (case pconsumers s ! i of
        PTest k \<Rightarrow> Some (processCommands mx i k s)
      | PCommand c k \<Rightarrow>
          Some (set_pcon i (PTest k) ((exec_command c s)\<lparr>executedLog := executedLog s @ [c]\<rparr>))
      | PPop k \<Rightarrow> Some (take_event i k s)
      | PEvent e k \<Rightarrow> Some (set_pcon i (PTest (k + 1)) (dispatch_event (snd e) s))
      | PFinish k \<Rightarrow> Some (finish_consume i k s)
      | PDone k \<Rightarrow> None
      | PUndefined \<Rightarrow> None)"

text \<open>The bound with which the owner consumes, \<^verbatim>\<open>numeric_limits<int>::max()\<close>.\<close>

definition int_max :: nat where
  "int_max = 2147483647"

section \<open>Steps\<close>

datatype ('m, 'e, 'cb) port_action =
    NewHandle
  | Listen 'm handle 'cb
  | Unlisten 'm handle
  | UnlistenAll handle
  | Schedule "'m \<times> 'e"
  | OwnerBegins               \<comment> \<open>the owner begins a \<open>consume\<close> it was given\<close>
  | ConsumeStep nat

definition port_exec ::
  "nat \<Rightarrow> ('m, 'e, 'cb) port_action \<Rightarrow> ('m, 'e, 'cb) port \<Rightarrow> ('m, 'e, 'cb) port option" where
  "port_exec mx a s =
     (case a of
        NewHandle \<Rightarrow> map_option snd (port_newHandle s)
      | Listen m h cb \<Rightarrow> Some (port_listen m h cb s)
      | Unlisten m h \<Rightarrow> Some (port_unlisten m h s)
      | UnlistenAll h \<Rightarrow> Some (port_unlistenAll h s)
      | Schedule ev \<Rightarrow> Some (port_schedule ev s)
      | OwnerBegins \<Rightarrow>
          if 0 < ownerTokens s
          then Some (s\<lparr>ownerTokens := ownerTokens s - 1, pconsumers := pconsumers s @ [PTest 0]\<rparr>)
          else None
      | ConsumeStep i \<Rightarrow> if i < length (pconsumers s) then consume_step mx i s else None)"

inductive port_step :: "nat \<Rightarrow> ('m, 'e, 'cb) port \<Rightarrow> ('m, 'e, 'cb) port \<Rightarrow> bool" for mx :: nat where
  "port_exec mx a s = Some s' \<Longrightarrow> port_step mx s s'"

inductive_cases port_stepE: "port_step mx s s'"

fun port_run :: "nat \<Rightarrow> ('m, 'e, 'cb) port_action list \<Rightarrow> ('m, 'e, 'cb) port \<Rightarrow> ('m, 'e, 'cb) port option" where
  "port_run mx [] s = Some s"
| "port_run mx (a # as) s = (case port_exec mx a s of None \<Rightarrow> None | Some s' \<Rightarrow> port_run mx as s')"

abbreviation port_reachable :: "nat \<Rightarrow> ('m, 'e, 'cb) port \<Rightarrow> bool" where
  "port_reachable mx \<equiv> (port_step mx)\<^sup>*\<^sup>* port_init"

lemma port_run_steps: "port_run mx as s = Some s' \<Longrightarrow> (port_step mx)\<^sup>*\<^sup>* s s'"
proof (induction as arbitrary: s)
  case (Cons a as)
  then obtain r where "port_exec mx a s = Some r" "port_run mx as r = Some s'"
    by (auto split: option.splits)
  with Cons.IH show ?case by (meson port_step.intros converse_rtranclp_into_rtranclp)
qed simp

lemmas port_ops = port_listen_def port_unlisten_def port_unlistenAll_def port_schedule_def
  push_command_def scheduleOnOwner_def port_newHandle_def processCommands_def take_event_def
  finish_consume_def consume_step_def set_pcon_def dispatch_event_def

end
