(* ===== verification/Port_Invariants.thy ===== *)
theory Port_Invariants
  imports Port_Queue
begin

text \<open>
  Invariants of a port: the handshake with its owner, the order of commands and events, and the meaning
  of the callback table as the commands executed so far.
\<close>

section \<open>The handshake with the owner\<close>

fun running_pcon :: "('m, 'e, 'cb) pconsumer \<Rightarrow> bool" where
  "running_pcon (PDone k) = False"
| "running_pcon c = True"

fun schedules :: "('m, 'cb) command \<Rightarrow> bool" where
  "schedules (CUnlistenAll h) = False"
| "schedules c = True"

definition port_view :: "('m, 'e, 'cb) port \<Rightarrow> handshake" where
  "port_view s = \<lparr>work = length (pt_eventQueue s) + count_if schedules (pt_commandsQueue s),
     flagged = pt_scheduled s, tokens = ownerTokens s, active = count_if running_pcon (pconsumers s)\<rparr>"

lemma exec_command_frame [simp]:
  "pt_eventQueue (exec_command c s) = pt_eventQueue s"
  "pt_commandsQueue (exec_command c s) = pt_commandsQueue s"
  "pt_scheduled (exec_command c s) = pt_scheduled s" "ownerTokens (exec_command c s) = ownerTokens s"
  "pconsumers (exec_command c s) = pconsumers s" "issuedLog (exec_command c s) = issuedLog s"
  "executedLog (exec_command c s) = executedLog s" "postedEvents (exec_command c s) = postedEvents s"
  "poppedEvents (exec_command c s) = poppedEvents s" "callLog (exec_command c s) = callLog s"
  "pt_handleCounter (exec_command c s) = pt_handleCounter s"
  by (cases c; simp add: Let_def split: option.split)+

lemma dispatch_event_frame [simp]:
  "pt_eventQueue (dispatch_event e s) = pt_eventQueue s"
  "pt_commandsQueue (dispatch_event e s) = pt_commandsQueue s"
  "pt_scheduled (dispatch_event e s) = pt_scheduled s" "ownerTokens (dispatch_event e s) = ownerTokens s"
  "pconsumers (dispatch_event e s) = pconsumers s" "issuedLog (dispatch_event e s) = issuedLog s"
  "executedLog (dispatch_event e s) = executedLog s" "postedEvents (dispatch_event e s) = postedEvents s"
  "poppedEvents (dispatch_event e s) = poppedEvents s"
  "pt_callbacks (dispatch_event e s) = pt_callbacks s" "netListens (dispatch_event e s) = netListens s"
  by (auto simp: dispatch_event_def split: option.split)

lemma view_posts:
  "port_view (port_schedule ev s) = (let x = port_view s in if flagged x then x\<lparr>work := work x + 1\<rparr>
     else x\<lparr>work := work x + 1, flagged := True, tokens := tokens x + 1\<rparr>)"
  "port_view (port_listen m h cb s) = (let x = port_view s in if flagged x then x\<lparr>work := work x + 1\<rparr>
     else x\<lparr>work := work x + 1, flagged := True, tokens := tokens x + 1\<rparr>)"
  "port_view (port_unlisten m h s) = (let x = port_view s in if flagged x then x\<lparr>work := work x + 1\<rparr>
     else x\<lparr>work := work x + 1, flagged := True, tokens := tokens x + 1\<rparr>)"
  "port_view (port_unlistenAll h s) = port_view s"
  by (simp_all add: port_view_def port_ops Let_def)

lemma view_consume:
  assumes ok: "handshake_ok (port_view s)" and i: "i < length (pconsumers s)"
    and step: "consume_step mx i s = Some s'"
  shows "port_view s' = port_view s \<or> handshake_step (port_view s) (port_view s')"
proof -
  have r: "running_pcon (pconsumers s ! i)"
    using step by (cases "pconsumers s ! i") (simp_all add: consume_step_def)
  have pos: "0 < active (port_view s)" and cnt: "0 < count_if running_pcon (pconsumers s)"
    using count_if_pos [OF i, of running_pcon] r by (simp_all add: port_view_def)
  have fl: "pt_scheduled s" using handshake_flagged [OF ok pos] by (simp add: port_view_def)
  note same = count_if_update_same [OF i, of running_pcon]
  note stay = handshake_step.drain [OF pos] handshake_step.release [OF pos] handshake_step.again [OF pos]
  show ?thesis
  proof (cases "pconsumers s ! i")
    case (PTest k)
    then show ?thesis using step stay(1)
      by (cases "pt_commandsQueue s")
        (auto simp: consume_step_def processCommands_def set_pcon_def port_view_def same)
  next
    case (PPop k)
    then show ?thesis using step stay(1)
      by (cases "pt_eventQueue s") (auto simp: consume_step_def take_event_def set_pcon_def port_view_def same)
  next
    case (PFinish k)
    then have s': "s' = finish_consume i k s" using step by (simp add: consume_step_def)
    show ?thesis
    proof (cases "pt_eventQueue s = [] \<and> pt_commandsQueue s = []")
      case True
      then show ?thesis using stay(2) PFinish cnt i
        by (simp add: s' finish_consume_def set_pcon_def port_view_def count_if_update)
    next
      case False
      then have "s' = scheduleOnOwner (set_pcon i (PDone k) (s\<lparr>pt_scheduled := False\<rparr>))"
        by (auto simp: s' finish_consume_def set_pcon_def)
      then show ?thesis using stay(3) PFinish cnt fl i
        by (simp add: scheduleOnOwner_def set_pcon_def port_view_def count_if_update)
    qed
  qed (use step in \<open>auto simp: consume_step_def set_pcon_def port_view_def same\<close>)
qed

lemma port_simulates:
  assumes ok: "handshake_ok (port_view s)" and "port_step mx s s'"
  shows "port_view s' = port_view s \<or> handshake_step (port_view s) (port_view s')"
proof -
  from assms(2) obtain a where e: "port_exec mx a s = Some s'" by (auto elim: port_stepE)
  show ?thesis
  proof (cases a)
    case NewHandle
    with e show ?thesis
      by (auto simp: port_exec_def port_newHandle_def port_view_def split: option.splits)
  next
    case OwnerBegins
    with e handshake_step.claim [of "port_view s"] show ?thesis
      by (auto simp: port_exec_def port_view_def split: if_splits)
  next
    case (ConsumeStep i)
    with e view_consume [OF ok] show ?thesis by (simp add: port_exec_def split: if_splits)
  qed (use e handshake_step.post [of "port_view s"] in \<open>auto simp: port_exec_def view_posts Let_def\<close>)
qed

interpretation port_handshake: scheduled_once "\<lambda>s. s = port_init" "port_step mx" port_view for mx
proof unfold_locales
  show "handshake_ok (port_view s)" if "s = port_init" for s :: "('m, 'e, 'cb) port"
    using that by (simp add: port_view_def port_init_def handshake_ok_def)
qed (rule port_simulates)

lemmas port_reachable_handshake = port_handshake.runs_ok [OF _ refl]

section \<open>Commands\<close>

text \<open>What a sequence of commands means: which callback a type and a handle have.\<close>

fun command_effect ::
  "('m, 'cb) command \<Rightarrow> ('m \<Rightarrow> handle \<Rightarrow> 'cb option) \<Rightarrow> 'm \<Rightarrow> handle \<Rightarrow> 'cb option" where
  "command_effect (CListen h m cb) f = (\<lambda>m' h'. if m' = m \<and> h' = h then Some cb else f m' h')"
| "command_effect (CUnlisten h m) f = (\<lambda>m' h'. if m' = m \<and> h' = h then None else f m' h')"
| "command_effect (CUnlistenAll h) f = (\<lambda>m' h'. if h' = h then None else f m' h')"

definition registered :: "('m, 'cb) command list \<Rightarrow> 'm \<Rightarrow> handle \<Rightarrow> 'cb option" where
  "registered cs = fold command_effect cs (\<lambda>m h. None)"

lemma registered_snoc: "registered (cs @ [c]) = command_effect c (registered cs)"
  by (simp add: registered_def)

lemma lookup_add_empty [simp]: "table_lookup (t(m \<mapsto> [])) = (\<lambda>m' h. if m' = m then None else table_lookup t m' h)"
  by (auto simp: table_lookup_def fun_eq_iff)

lemma table_add_listen:
  "table_add m h cb (t(m \<mapsto> [])) = table_add m h cb t" if "t m = None"
  using that by (auto simp: table_add_def)

lemma exec_command_table:
  assumes "table_ok (pt_callbacks s)"
  shows "table_ok (pt_callbacks (exec_command c s)) \<and>
    table_lookup (pt_callbacks (exec_command c s)) = command_effect c (table_lookup (pt_callbacks s))"
proof (cases c)
  case (CListen h m cb)
  then have "pt_callbacks (exec_command c s) = table_add m h cb (pt_callbacks s)"
    by (simp add: table_add_listen Let_def split: option.split)
  with CListen assms show ?thesis by (simp add: table_lookup_add)
next
  case (CUnlisten h m)
  with assms show ?thesis
    by (auto simp: table_ok_def table_lookup_def fun_eq_iff vec.inv_remove vec.lookup_remove
        split: option.splits)
next
  case (CUnlistenAll h)
  with assms show ?thesis
    by (auto simp: table_ok_def table_lookup_def fun_eq_iff vec.inv_remove vec.lookup_remove
        split: option.splits)
qed

lemma exec_command_net:
  assumes "distinct (netListens s)" and "set (netListens s) = dom (pt_callbacks s)"
  shows "distinct (netListens (exec_command c s)) \<and>
    set (netListens (exec_command c s)) = dom (pt_callbacks (exec_command c s))"
  using assms
  by (cases c) (auto simp: Let_def table_add_def split: option.splits)

section \<open>The port invariant\<close>

fun pc_cmd :: "('m, 'e, 'cb) pconsumer \<Rightarrow> ('m, 'cb) command list" where
  "pc_cmd (PCommand c k) = [c]"
| "pc_cmd c = []"

fun pc_ok :: "('m, 'e, 'cb) port \<Rightarrow> ('m, 'e, 'cb) pconsumer \<Rightarrow> bool" where
  "pc_ok s (PPop k) \<longleftrightarrow> pt_eventQueue s \<noteq> [] \<and> fst (hd (pt_eventQueue s)) \<le> length (executedLog s)"
| "pc_ok s (PEvent e k) \<longleftrightarrow> fst e \<le> length (executedLog s)"
| "pc_ok s PUndefined \<longleftrightarrow> False"
| "pc_ok s c \<longleftrightarrow> True"

definition port_inv :: "('m, 'e, 'cb) port \<Rightarrow> bool" where
  "port_inv s \<longleftrightarrow>
     issuedLog s = executedLog s @ concat (map pc_cmd (pconsumers s)) @ pt_commandsQueue s \<and>
     postedEvents s = poppedEvents s @ map snd (pt_eventQueue s) \<and>
     (\<forall>n \<in> set (map fst (pt_eventQueue s)). n \<le> length (issuedLog s)) \<and>
     (\<forall>c \<in> set (pconsumers s). pc_ok s c) \<and>
     table_ok (pt_callbacks s) \<and>
     table_lookup (pt_callbacks s) = registered (executedLog s) \<and>
     distinct (netListens s) \<and> set (netListens s) = dom (pt_callbacks s)"

lemma port_init_inv: "port_inv port_init"
  by (simp add: port_inv_def port_init_def registered_def)

lemma others_done:
  assumes ok: "handshake_ok (port_view s)" and i: "i < length (pconsumers s)" "running_pcon (pconsumers s ! i)"
    and j: "j < length (pconsumers s)" "j \<noteq> i"
  shows "\<not> running_pcon (pconsumers s ! j)"
  using handshake_exclusive [OF ok] count_if_unique [of running_pcon, OF _ i j(1)] j(2)
  by (auto simp: port_view_def)

lemma concat_map_only:
  assumes i: "i < length xs" and "\<And>j. j < length xs \<Longrightarrow> j \<noteq> i \<Longrightarrow> f (xs ! j) = []"
  shows "concat (map f (xs[i := c])) = f c"
proof -
  have "\<forall>x \<in> set (take i xs). f x = []" "\<forall>x \<in> set (drop (Suc i) xs). f x = []"
    using assms by (auto simp: in_set_conv_nth)
  then have "concat (map f (take i xs)) = []" "concat (map f (drop (Suc i) xs)) = []"
    by (simp_all only: concat_eq_Nil_conv set_map ball_simps)
  then show ?thesis using i by (simp only: upd_conv_take_nth_drop map_append list.map concat_append
      concat.simps append_Nil append_Nil2)
qed

lemma pc_ok_done: "\<not> running_pcon c \<Longrightarrow> pc_ok s c"
  by (cases c) simp_all

lemma not_running_cmd: "\<not> running_pcon c \<Longrightarrow> pc_cmd c = []"
  by (cases c) simp_all


lemma port_inv_push:
  assumes "port_inv s"
  shows "port_inv (push_command c s)"
proof -
  have "pc_ok (push_command c s) = pc_ok s"
    by (intro ext) (auto simp: push_command_def elim!: pc_ok.elims)
  with assms show ?thesis
    by (auto simp: port_inv_def push_command_def)
qed

lemma pc_ok_cong:
  "pt_eventQueue s' = pt_eventQueue s \<Longrightarrow> executedLog s' = executedLog s \<Longrightarrow> pc_ok s' c = pc_ok s c"
  by (cases c) simp_all

lemma port_inv_handle: "port_inv (s\<lparr>pt_handleCounter := h\<rparr>) = port_inv s"
  unfolding port_inv_def by (simp cong: pc_ok_cong)

lemma port_inv_begin:
  "port_inv (s\<lparr>ownerTokens := n, pconsumers := pconsumers s @ [PTest 0]\<rparr>) = port_inv s"
  unfolding port_inv_def by (simp cong: pc_ok_cong)

lemma port_inv_scheduleOnOwner [simp]: "port_inv (scheduleOnOwner s) = port_inv s"
  by (auto simp: scheduleOnOwner_def port_inv_def cong: pc_ok_cong)

lemma port_inv_schedule:
  assumes "port_inv s"
  shows "port_inv (port_schedule ev s)"
proof -
  let ?s = "s\<lparr>pt_eventQueue := pt_eventQueue s @ [(length (issuedLog s), ev)],
    postedEvents := postedEvents s @ [ev]\<rparr>"
  have "pc_ok s c \<Longrightarrow> pc_ok ?s c" for c by (cases c) auto
  then have "port_inv ?s" using assms by (auto simp: port_inv_def)
  then show ?thesis by (simp add: port_schedule_def)
qed

lemma set_update_others:
  "x \<in> set (xs[i := y]) \<Longrightarrow> x = y \<or> (\<exists>j < length xs. j \<noteq> i \<and> x = xs ! j)"
  by (metis in_set_conv_nth length_list_update nth_list_update_eq nth_list_update_neq)

text \<open>A step of the only running consumer: it suffices to check the consumer's own new position.\<close>

lemma port_inv_consumer:
  assumes ok: "handshake_ok (port_view s)" and i: "i < length (pconsumers s)"
    and r: "running_pcon (pconsumers s ! i)" and t: "pconsumers t = pconsumers s"
    and cmd: "issuedLog t = executedLog t @ pc_cmd c @ pt_commandsQueue t"
    and ev: "postedEvents t = poppedEvents t @ map snd (pt_eventQueue t)"
    and st: "\<forall>n \<in> set (map fst (pt_eventQueue t)). n \<le> length (issuedLog t)"
    and c: "pc_ok t c" and tab: "table_ok (pt_callbacks t)"
      "table_lookup (pt_callbacks t) = registered (executedLog t)"
    and net: "distinct (netListens t)" "set (netListens t) = dom (pt_callbacks t)"
  shows "port_inv (set_pcon i c t)"
proof -
  have idle: "\<not> running_pcon (pconsumers s ! j)" if "j < length (pconsumers s)" "j \<noteq> i" for j
    by (rule others_done [OF ok i r that])
  have "concat (map pc_cmd ((pconsumers s)[i := c])) = pc_cmd c"
    using idle by (intro concat_map_only [OF i] not_running_cmd)
  moreover have "\<forall>d \<in> set ((pconsumers s)[i := c]). pc_ok (set_pcon i c t) d"
  proof
    fix d assume "d \<in> set ((pconsumers s)[i := c])"
    then consider "d = c" | "\<not> running_pcon d"
      using idle by (auto dest!: set_update_others)
    moreover have "pc_ok (set_pcon i c t) d = pc_ok t d"
      by (rule pc_ok_cong) (simp_all add: set_pcon_def)
    ultimately show "pc_ok (set_pcon i c t) d"
      using c pc_ok_done by metis
  qed
  ultimately show ?thesis
    using cmd ev st tab net t by (simp add: port_inv_def set_pcon_def)
qed

lemma current_cmd:
  assumes ok: "handshake_ok (port_view s)" and i: "i < length (pconsumers s)"
    and r: "running_pcon (pconsumers s ! i)"
  shows "concat (map pc_cmd (pconsumers s)) = pc_cmd (pconsumers s ! i)"
  using concat_map_only [OF i, of pc_cmd "pconsumers s ! i"] others_done [OF ok i r] not_running_cmd
  by (metis list_update_id)

lemma port_inv_consume:
  assumes ok: "handshake_ok (port_view s)" and inv: "port_inv s" and i: "i < length (pconsumers s)"
    and step: "consume_step mx i s = Some s'"
  shows "port_inv s'"
proof -
  have r: "running_pcon (pconsumers s ! i)"
    using step by (cases "pconsumers s ! i") (simp_all add: consume_step_def)
  note con = port_inv_consumer [OF ok i r]
  have log: "issuedLog s = executedLog s @ pc_cmd (pconsumers s ! i) @ pt_commandsQueue s"
    and pc: "pc_ok s (pconsumers s ! i)"
    using inv current_cmd [OF ok i r] nth_mem [OF i] by (auto simp: port_inv_def)
  have facts: "postedEvents s = poppedEvents s @ map snd (pt_eventQueue s)"
    "\<forall>n \<in> set (map fst (pt_eventQueue s)). n \<le> length (issuedLog s)"
    "table_ok (pt_callbacks s)" "table_lookup (pt_callbacks s) = registered (executedLog s)"
    "distinct (netListens s)" "set (netListens s) = dom (pt_callbacks s)"
    using inv unfolding port_inv_def by blast+
  show ?thesis
  proof (cases "pconsumers s ! i")
    case (PTest k)
    then have s': "s' = processCommands mx i k s" using step by (simp add: consume_step_def)
    show ?thesis
    proof (cases "pt_commandsQueue s")
      case Nil
      have "pc_ok s (if pt_eventQueue s \<noteq> [] \<and> k < mx then PPop k else PFinish k)"
        using facts(2) log Nil PTest by (cases "pt_eventQueue s") auto
      then show ?thesis unfolding s' processCommands_def Nil
        using log facts PTest Nil by (auto intro!: con)
    next
      case (Cons c cs)
      then show ?thesis unfolding s' processCommands_def Cons
        using log facts PTest Cons by (auto intro!: con)
    qed
  next
    case (PCommand c k)
    then have s': "s' = set_pcon i (PTest k) ((exec_command c s)\<lparr>executedLog := executedLog s @ [c]\<rparr>)"
      using step by (simp add: consume_step_def)
    show ?thesis unfolding s'
      using log facts PCommand exec_command_table [OF facts(3), of c] exec_command_net [OF facts(5,6), of c]
      by (intro con) (auto simp: registered_snoc)
  next
    case (PPop k)
    then obtain e es where q: "pt_eventQueue s = e # es" and e: "fst e \<le> length (executedLog s)"
      using pc by (cases "pt_eventQueue s") auto
    have s': "s' = set_pcon i (PEvent e k) (s\<lparr>pt_eventQueue := es, poppedEvents := poppedEvents s @ [snd e]\<rparr>)"
      using step PPop q by (simp add: consume_step_def take_event_def)
    show ?thesis unfolding s' using log facts PPop q e by (intro con) auto
  next
    case (PEvent e k)
    then have s': "s' = set_pcon i (PTest (k + 1)) (dispatch_event (snd e) s)"
      using step by (simp add: consume_step_def)
    show ?thesis unfolding s' using log facts PEvent by (intro con) auto
  next
    case (PFinish k)
    have "port_inv (set_pcon i (PDone k) (s\<lparr>pt_scheduled := False\<rparr>))"
      using log facts PFinish by (intro con) auto
    moreover have "s' = finish_consume i k s" using step PFinish by (simp add: consume_step_def)
    ultimately show ?thesis by (simp add: finish_consume_def Let_def)
  qed (use r step in \<open>auto simp: consume_step_def\<close>)
qed

lemma port_inv_step:
  assumes "handshake_ok (port_view s)" and inv: "port_inv s" and "port_step mx s s'"
  shows "port_inv s'"
proof -
  from assms(3) obtain a where e: "port_exec mx a s = Some s'" by (auto elim: port_stepE)
  show ?thesis
  proof (cases a)
    case NewHandle
    with e inv show ?thesis
      by (auto simp: port_exec_def port_newHandle_def port_inv_handle split: option.splits)
  next
    case OwnerBegins
    with e inv show ?thesis
      by (auto simp: port_exec_def port_inv_begin split: if_splits)
  next
    case (ConsumeStep i)
    with e inv port_inv_consume [OF assms(1)] show ?thesis by (simp add: port_exec_def split: if_splits)
  qed (use e inv in \<open>auto simp: port_exec_def port_listen_def port_unlisten_def port_unlistenAll_def
      port_inv_push port_inv_schedule\<close>)
qed

lemma port_reachable_inv: "port_reachable mx s \<Longrightarrow> port_inv s"
proof (induction rule: rtranclp_induct)
  case (step s s')
  then show ?case using port_reachable_handshake port_inv_step by blast
qed (rule port_init_inv)

end
