(* ===== verification/Port_Properties.thy ===== *)
theory Port_Properties
  imports Port_Invariants
begin

text \<open>
  The properties of a port, for every interleaving of the threads that listen, unlisten and schedule on it
  with the executions of \<^verbatim>\<open>consume\<close>. The demo state is a port in the middle of
  handling its first event.
\<close>

definition demo_port :: "(nat, nat, nat) port" where
  "demo_port = \<lparr>pt_handleCounter = 0, pt_callbacks = [5 \<mapsto> [(1, 70)]],
     pt_eventQueue = [(1, 5, 31)], pt_commandsQueue = [CUnlisten 1 5], pt_scheduled = True,
     ownerTokens = 0, netListens = [5], pconsumers = [PEvent (1, 5, 30) 0],
     issuedLog = [CListen 1 5 70, CUnlisten 1 5], executedLog = [CListen 1 5 70],
     postedEvents = [(5, 30), (5, 31)], poppedEvents = [(5, 30)], callLog = []\<rparr>"

lemma demo_port_reach: "port_reachable 9 demo_port"
  by (rule port_run_steps [where as = "[Listen 5 1 70, Schedule (5, 30), Schedule (5, 31), OwnerBegins,
        ConsumeStep 0, ConsumeStep 0, ConsumeStep 0, ConsumeStep 0, Unlisten 5 1]"])
    (simp add: port_exec_def port_ops port_init_def demo_port_def table_add_def vector_add_def)

text \<open>
  C24: a port is consumed by one thread at a time, and \<^verbatim>\<open>consume\<close> never takes the
  front of an empty queue although it tests and takes in two separate critical sections.
\<close>

theorem port_single_consumer_no_undefined:
  assumes "port_reachable mx s"
  shows "count_if running_pcon (pconsumers s) + ownerTokens s \<le> 1 \<and> PUndefined \<notin> set (pconsumers s)"
proof -
  have "\<forall>c \<in> set (pconsumers s). pc_ok s c"
    using port_reachable_inv [OF assms] by (simp add: port_inv_def)
  then have "PUndefined \<notin> set (pconsumers s)" by auto
  then show ?thesis
    using port_reachable_handshake [OF assms] by (auto simp: handshake_ok_def port_view_def split: if_splits)
qed

lemma port_single_consumer_no_undefined_witness: "PUndefined \<notin> set (pconsumers demo_port)"
  using port_single_consumer_no_undefined [OF demo_port_reach] by simp

text \<open>
  Lemma: events are taken exactly once and in the order in which they were scheduled.
\<close>

theorem port_events_in_order:
  assumes "port_reachable mx s"
  shows "postedEvents s = poppedEvents s @ map snd (pt_eventQueue s)"
  using port_reachable_inv [OF assms] by (simp add: port_inv_def)

lemma port_events_in_order_witness: "postedEvents demo_port = poppedEvents demo_port @ map snd (pt_eventQueue demo_port)"
  by (rule port_events_in_order [OF demo_port_reach])

text \<open>
  C25: a listen or unlisten takes effect for every later event. When an event is handled, all commands that
  were issued before the event was scheduled have been executed, in order; commands issued later may have
  been executed too.
\<close>

theorem commands_before_later_events:
  assumes "port_reachable mx s" and "PEvent (n, ev) k \<in> set (pconsumers s)"
  shows "\<exists>rest. executedLog s = take n (issuedLog s) @ rest"
proof -
  have inv: "port_inv s" by (rule port_reachable_inv [OF assms(1)])
  then have "n \<le> length (executedLog s)"
    using assms(2) by (force simp: port_inv_def)
  moreover obtain r where "issuedLog s = executedLog s @ r" using inv by (auto simp: port_inv_def)
  ultimately show ?thesis by (intro exI [of _ "drop n (executedLog s)"]) simp
qed

lemma commands_before_later_events_witness:
  "\<exists>rest. executedLog demo_port = take 1 (issuedLog demo_port) @ rest"
  by (rule commands_before_later_events [OF demo_port_reach, of 1 "(5, 30)" 0]) (simp add: demo_port_def)

text \<open>
  C26: handling an event calls exactly the callbacks that the executed commands leave registered for its
  type, each once: the table of vectors implements the abstract map from types and handles to callbacks.
\<close>

theorem event_calls_registered:
  assumes "port_reachable mx s" and "i < length (pconsumers s)" and "pconsumers s ! i = PEvent (n, m, e) k"
  shows "\<exists>s' cs. consume_step mx i s = Some s' \<and> callLog s' = callLog s @ [((m, e), cs)] \<and>
    mset cs = image_mset (\<lambda>h. the (registered (executedLog s) m h))
      (mset_set {h. registered (executedLog s) m h \<noteq> None})"
proof -
  let ?v = "case pt_callbacks s m of None \<Rightarrow> [] | Some v \<Rightarrow> v"
  have "table_ok (pt_callbacks s)" and reg: "table_lookup (pt_callbacks s) = registered (executedLog s)"
    using port_reachable_inv [OF assms(1)] by (simp_all add: port_inv_def)
  then have "vector_ok ?v" by (auto simp: vec.inv_empty dest: table_ok_vector split: option.split)
  moreover have "map_of ?v = registered (executedLog s) m"
    unfolding reg [symmetric] by (auto simp: table_lookup_def fun_eq_iff split: option.split)
  ultimately have "mset (vector_calls ?v) = image_mset (\<lambda>h. the (registered (executedLog s) m h))
      (mset_set {h. registered (executedLog s) m h \<noteq> None})"
    using vec.calls_once [of ?v] by (simp add: dom_def)
  moreover have "consume_step mx i s = Some (set_pcon i (PTest (k + 1)) (dispatch_event (m, e) s))"
    using assms(3) by (simp add: consume_step_def)
  moreover have "callLog (dispatch_event (m, e) s) = callLog s @ [((m, e), vector_calls ?v)]"
    by (simp add: dispatch_event_def vector_calls_def split: option.split)
  ultimately show ?thesis by (auto simp: set_pcon_def)
qed

lemma event_calls_registered_witness:
  "\<exists>s' cs. consume_step 9 0 demo_port = Some s' \<and> callLog s' = callLog demo_port @ [((5, 30), cs)]"
  using event_calls_registered [OF demo_port_reach, of 0 1 5 30 0] by (auto simp: demo_port_def)

lemma exec_command_listens:
  "dom (pt_callbacks (exec_command c s)) = dom (pt_callbacks s) \<union> {m. \<exists>h cb. c = CListen h m cb}"
  by (cases c) (auto simp: table_add_def Let_def split: option.splits)

lemma port_listens_step:
  assumes "port_step mx s s'" and "dom (pt_callbacks s) = {m. \<exists>h cb. CListen h m cb \<in> set (executedLog s)}"
  shows "dom (pt_callbacks s') = {m. \<exists>h cb. CListen h m cb \<in> set (executedLog s')}"
proof -
  from assms(1) obtain a where e: "port_exec mx a s = Some s'" by (auto elim: port_stepE)
  show ?thesis
  proof (cases "\<exists>i c k. a = ConsumeStep i \<and> pconsumers s ! i = PCommand c k")
    case True
    then obtain i c k where "s' = set_pcon i (PTest k) ((exec_command c s)\<lparr>executedLog := executedLog s @ [c]\<rparr>)"
      using e by (auto simp: port_exec_def consume_step_def split: if_splits)
    then show ?thesis using assms(2) by (auto simp: set_pcon_def exec_command_listens)
  next
    case False
    then have "pt_callbacks s' = pt_callbacks s \<and> executedLog s' = executedLog s"
      using e by (cases a) (auto simp: port_exec_def port_ops Let_def
          split: if_splits list.splits option.splits pconsumer.splits)
    then show ?thesis using assms(2) by simp
  qed
qed

text \<open>
  Lemma: a port registers at the network once per message type, for exactly the types it has ever listened
  to, however many callbacks listen or stop listening; so a broadcast event enters a port's queue once.
\<close>

theorem port_registers_once_per_type:
  assumes "port_reachable mx s"
  shows "distinct (netListens s) \<and>
    (m \<in> set (netListens s) \<longleftrightarrow> (\<exists>h cb. CListen h m cb \<in> set (executedLog s)))"
proof -
  have "dom (pt_callbacks s) = {m. \<exists>h cb. CListen h m cb \<in> set (executedLog s)}"
    using assms
    by (induction rule: rtranclp_induct) (simp add: port_init_def, rule port_listens_step)
  moreover have "distinct (netListens s) \<and> set (netListens s) = dom (pt_callbacks s)"
    using port_reachable_inv [OF assms] by (simp add: port_inv_def)
  ultimately show ?thesis by blast
qed

lemma port_registers_once_per_type_witness: "distinct (netListens demo_port) \<and> 5 \<in> set (netListens demo_port)"
  using port_registers_once_per_type [OF demo_port_reach, of 5] by (auto simp: demo_port_def)

text \<open>
  Lemma: no event and no listen or unlisten is forgotten. Whenever the event queue is not empty, or a command
  other than an unlistenAll is queued, exactly one \<^verbatim>\<open>consume\<close> is waiting at the
  owner or in progress.
\<close>

theorem port_work_is_scheduled:
  assumes "port_reachable mx s"
    and "pt_eventQueue s \<noteq> [] \<or> (\<exists>c \<in> set (pt_commandsQueue s). schedules c)"
  shows "count_if running_pcon (pconsumers s) + ownerTokens s = 1"
proof -
  have "0 < work (port_view s)"
    using assms(2) by (auto simp: port_view_def count_if_def filter_empty_conv)
  then show ?thesis
    using port_reachable_handshake [OF assms(1)] by (auto simp: handshake_ok_def port_view_def split: if_splits)
qed

lemma port_work_is_scheduled_witness:
  "count_if running_pcon (pconsumers demo_port) + ownerTokens demo_port = 1"
  by (rule port_work_is_scheduled [OF demo_port_reach]) (simp add: demo_port_def)

text \<open>
  Lemma: unlistenAll alone is not carried out. After a call of \<^verbatim>\<open>unlistenAll\<close> on an
  idle port the command stays in the queue with nobody to execute it, unlike a call of
  \<^verbatim>\<open>unlisten\<close>; the callback remains registered.
\<close>

theorem unlistenAll_is_not_scheduled:
  "\<exists>as (s :: (nat, nat, nat) port). port_run 9 (as @ [UnlistenAll 1]) port_init = Some s \<and>
     pt_commandsQueue s = [CUnlistenAll 1] \<and> ownerTokens s = 0 \<and> pconsumers s = [PDone 0] \<and>
     table_lookup (pt_callbacks s) 5 1 = Some 70"
proof -
  let ?as = "[Listen 5 1 70, OwnerBegins, ConsumeStep 0, ConsumeStep 0, ConsumeStep 0, ConsumeStep 0]
    :: (nat, nat, nat) port_action list"
  have "\<exists>s. port_run 9 (?as @ [UnlistenAll 1]) port_init = Some s \<and>
     pt_commandsQueue s = [CUnlistenAll 1] \<and> ownerTokens s = 0 \<and> pconsumers s = [PDone 0] \<and>
     table_lookup (pt_callbacks s) 5 1 = Some 70"
    by (simp add: port_exec_def port_ops port_init_def table_add_def vector_add_def table_lookup_def)
  then show ?thesis by (intro exI [of _ ?as])
qed

section \<open>A consume that is left alone\<close>

lemma port_run_Cons: "port_exec mx a s = Some r \<Longrightarrow> port_run mx (a # as) s = port_run mx as r"
  by simp

lemma consume_alone:
  "i < length (pconsumers s) \<Longrightarrow> pconsumers s ! i = PTest k \<Longrightarrow> k \<le> mx \<Longrightarrow>
   \<exists>n s'. port_run mx (replicate n (ConsumeStep i)) s = Some s' \<and>
     n \<le> 2 * length (pt_commandsQueue s) + 3 * length (pt_eventQueue s) + 2 \<and>
     pconsumers s' ! i = PDone (k + min (mx - k) (length (pt_eventQueue s))) \<and>
     pt_eventQueue s' = drop (mx - k) (pt_eventQueue s) \<and> pt_commandsQueue s' = [] \<and>
     executedLog s' = executedLog s @ pt_commandsQueue s \<and>
     map fst (callLog s') = map fst (callLog s) @ map snd (take (mx - k) (pt_eventQueue s))"
proof (induction "2 * length (pt_commandsQueue s) + 3 * length (pt_eventQueue s)" arbitrary: s k
    rule: less_induct)
  case less
  note i = less.prems(1) and pc = less.prems(2) and k = less.prems(3)
  show ?case
  proof (cases "pt_commandsQueue s")
    case (Cons c cs)
    let ?r = "set_pcon i (PTest k)
      ((exec_command c (set_pcon i (PCommand c k) (s\<lparr>pt_commandsQueue := cs\<rparr>)))
         \<lparr>executedLog := executedLog s @ [c]\<rparr>)"
    have two: "port_run mx (ConsumeStep i # ConsumeStep i # as) s = port_run mx as ?r" for as
      using i pc Cons by (simp add: port_exec_def consume_step_def processCommands_def set_pcon_def)
    have "\<exists>n s'. port_run mx (replicate n (ConsumeStep i)) ?r = Some s' \<and>
     n \<le> 2 * length (pt_commandsQueue ?r) + 3 * length (pt_eventQueue ?r) + 2 \<and>
     pconsumers s' ! i = PDone (k + min (mx - k) (length (pt_eventQueue ?r))) \<and>
     pt_eventQueue s' = drop (mx - k) (pt_eventQueue ?r) \<and> pt_commandsQueue s' = [] \<and>
     executedLog s' = executedLog ?r @ pt_commandsQueue ?r \<and>
     map fst (callLog s') = map fst (callLog ?r) @ map snd (take (mx - k) (pt_eventQueue ?r))"
      using i k Cons by (intro less.hyps) (simp_all add: set_pcon_def)
    then obtain n s' where "port_run mx (replicate n (ConsumeStep i)) ?r = Some s'"
     "n \<le> 2 * length (pt_commandsQueue ?r) + 3 * length (pt_eventQueue ?r) + 2"
     "pconsumers s' ! i = PDone (k + min (mx - k) (length (pt_eventQueue ?r)))"
     "pt_eventQueue s' = drop (mx - k) (pt_eventQueue ?r)" "pt_commandsQueue s' = []"
     "executedLog s' = executedLog ?r @ pt_commandsQueue ?r"
     "map fst (callLog s') = map fst (callLog ?r) @ map snd (take (mx - k) (pt_eventQueue ?r))"
      by blast
    then show ?thesis using Cons two
      by (intro exI [of _ "Suc (Suc n)"] exI [of _ s']) (simp add: set_pcon_def)
  next
    case Nil
    show ?thesis
    proof (cases "pt_eventQueue s \<noteq> [] \<and> k < mx")
      case False
      let ?s = "finish_consume i k (set_pcon i (PFinish k) s)"
      have "port_run mx [ConsumeStep i, ConsumeStep i] s = Some ?s"
        using i pc Nil False
        by (auto simp: port_exec_def consume_step_def processCommands_def set_pcon_def)
      then show ?thesis using i k Nil False
        by (intro exI [of _ 2] exI [of _ ?s])
          (auto simp: numeral_2_eq_2 finish_consume_def scheduleOnOwner_def set_pcon_def Let_def)
    next
      case True
      then obtain e es where q: "pt_eventQueue s = e # es" and km: "k < mx"
        by (cases "pt_eventQueue s") auto
      let ?r = "set_pcon i (PTest (k + 1)) (dispatch_event (snd e) (set_pcon i (PEvent e k)
        (s\<lparr>pt_eventQueue := es, poppedEvents := poppedEvents s @ [snd e]\<rparr>)))"
      have three: "port_run mx (ConsumeStep i # ConsumeStep i # ConsumeStep i # as) s = port_run mx as ?r" for as
        using i pc Nil q km
        by (simp add: port_exec_def consume_step_def processCommands_def take_event_def set_pcon_def)
      have log: "map fst (callLog ?r) = map fst (callLog s) @ [snd e]"
        by (simp add: set_pcon_def dispatch_event_def split: option.split)
      have "\<exists>n s'. port_run mx (replicate n (ConsumeStep i)) ?r = Some s' \<and>
       n \<le> 2 * length (pt_commandsQueue ?r) + 3 * length (pt_eventQueue ?r) + 2 \<and>
       pconsumers s' ! i = PDone (k + 1 + min (mx - (k + 1)) (length (pt_eventQueue ?r))) \<and>
       pt_eventQueue s' = drop (mx - (k + 1)) (pt_eventQueue ?r) \<and> pt_commandsQueue s' = [] \<and>
       executedLog s' = executedLog ?r @ pt_commandsQueue ?r \<and>
       map fst (callLog s') = map fst (callLog ?r) @ map snd (take (mx - (k + 1)) (pt_eventQueue ?r))"
        using i km Nil q by (intro less.hyps) (simp_all add: set_pcon_def)
      then obtain n s' where "port_run mx (replicate n (ConsumeStep i)) ?r = Some s'"
       "n \<le> 2 * length (pt_commandsQueue ?r) + 3 * length (pt_eventQueue ?r) + 2"
       "pconsumers s' ! i = PDone (k + 1 + min (mx - (k + 1)) (length (pt_eventQueue ?r)))"
       "pt_eventQueue s' = drop (mx - (k + 1)) (pt_eventQueue ?r)" "pt_commandsQueue s' = []"
       "executedLog s' = executedLog ?r @ pt_commandsQueue ?r"
       "map fst (callLog s') = map fst (callLog ?r) @ map snd (take (mx - (k + 1)) (pt_eventQueue ?r))"
        by blast
      moreover have "mx - k = Suc (mx - (k + 1))" using km by simp
      ultimately show ?thesis using Nil q three log
        by (intro exI [of _ "Suc (Suc (Suc n))"] exI [of _ s']) (simp add: set_pcon_def)
    qed
  qed
qed

text \<open>
  Lemma: a \<^verbatim>\<open>consume\<close> that nobody interferes with terminates and does its work. It
  executes all queued commands, then handles the oldest events up to its bound, and returns their number;
  it takes at most two steps per command, three per event and two more.
\<close>

theorem consume_terminates:
  assumes "i < length (pconsumers s)" and "pconsumers s ! i = PTest 0"
  shows "\<exists>n s'. port_run mx (replicate n (ConsumeStep i)) s = Some s' \<and>
    n \<le> 2 * length (pt_commandsQueue s) + 3 * length (pt_eventQueue s) + 2 \<and>
    pconsumers s' ! i = PDone (min mx (length (pt_eventQueue s))) \<and>
    pt_eventQueue s' = drop mx (pt_eventQueue s) \<and> pt_commandsQueue s' = [] \<and>
    executedLog s' = executedLog s @ pt_commandsQueue s \<and>
    map fst (callLog s') = map fst (callLog s) @ map snd (take mx (pt_eventQueue s))"
  using consume_alone [OF assms, of mx] by simp

lemma consume_terminates_witness:
  "\<exists>n s'. port_run 9 (replicate n (ConsumeStep 0)) (demo_port\<lparr>pconsumers := [PTest 0]\<rparr>) = Some s' \<and>
     pconsumers s' ! 0 = PDone 1 \<and> pt_commandsQueue s' = []"
  using consume_terminates [of 0 "demo_port\<lparr>pconsumers := [PTest 0]\<rparr>" 9] by (auto simp: demo_port_def)

end
