(* ===== verification/Runtime_System.thy ===== *)
theory Runtime_System
  imports Priority_Properties Actor_Queue_Properties Port_Properties
begin

text \<open>
  The three layers of queues put together: the ports of \<^verbatim>\<open>Port_Queue\<close> schedule themselves on
  the actors of \<^verbatim>\<open>Actor_Queue\<close>, and these on the priority of
  \<^verbatim>\<open>Priority_Dispatch\<close>, whose dispatchers call \<^verbatim>\<open>Actor::consume\<close>, which
  calls \<^verbatim>\<open>Port::consume\<close>, which calls the callbacks of the application, which publish and listen
  again. The parameters of the single models become the operations of the others: the tokens of a port are the
  callbacks in the queue of its actor, the accepted calls of \<^verbatim>\<open>consume\<close> of an actor are the
  jobs of the priority.

  Actors are numbered, and each has one port. A call from one layer into the next happens with the mutex of
  the calling layer held (\<^verbatim>\<open>Lock_Order\<close>), which nobody can look behind, so the nested
  sections are one step. A dispatcher that executes the job of an actor has a frame that says how far down it
  is. Destruction comes in \<^verbatim>\<open>Runtime_Destruction\<close>.
\<close>

section \<open>State\<close>

datatype frame =
    FNone               \<comment> \<open>no call of \<open>Actor::consume\<close> begun\<close>
  | FActor nat          \<comment> \<open>in that execution of \<open>Actor::consume\<close>\<close>
  | FPort nat nat       \<comment> \<open>furthermore in that execution of \<open>Port::consume\<close>\<close>

fun frame_consumer :: "frame \<Rightarrow> nat option" where
  "frame_consumer FNone = None"
| "frame_consumer (FActor c) = Some c"
| "frame_consumer (FPort c p) = Some c"

record ('m, 'e, 'cb) runtime =
  rt_priority :: "nat prio"
  rt_actors :: "unit actor_q list"
  rt_ports :: "('m, 'e, 'cb) port list"
  rt_frames :: "frame list"

text \<open>\<open>n\<close> dispatchers and \<open>N\<close> actors, none of which is constructed yet.\<close>

definition runtime_init :: "int \<Rightarrow> nat \<Rightarrow> ('m, 'e, 'cb) runtime" where
  "runtime_init n N = \<lparr>rt_priority = priority_init n, rt_actors = replicate N actor_init,
     rt_ports = replicate N port_init, rt_frames = replicate (nat n) FNone\<rparr>"

section \<open>Calls from layer to layer\<close>

text \<open>The new state \<open>a\<close> of an actor, the new state \<open>q\<close> of a port: a token is a call of the layer below.\<close>

definition set_actor ::
  "handler \<Rightarrow> nat \<Rightarrow> unit actor_q \<Rightarrow> ('m, 'e, 'cb) runtime \<Rightarrow> error + ('m, 'e, 'cb) runtime" where
  "set_actor h i a s =
     (let t = s\<lparr>rt_actors := (rt_actors s)[i := a]\<rparr>
      in if consumeJobs (rt_actors s ! i) < consumeJobs a
         then map_sum id (\<lambda>p. t\<lparr>rt_priority := p\<rparr>) (schedule h i (rt_priority s)) else Inr t)"

definition set_port ::
  "handler \<Rightarrow> nat \<Rightarrow> ('m, 'e, 'cb) port \<Rightarrow> ('m, 'e, 'cb) runtime \<Rightarrow> error + ('m, 'e, 'cb) runtime" where
  "set_port h i q s =
     (let t = s\<lparr>rt_ports := (rt_ports s)[i := q]\<rparr>
      in if ownerTokens (rt_ports s ! i) < ownerTokens q
         then set_actor h i (actor_schedule () (rt_actors s ! i)) t else Inr t)"

section \<open>Steps\<close>

text \<open>Who may call into the runtime: a dispatcher that executes an event, or a thread of the application.\<close>

definition in_event :: "nat \<Rightarrow> ('m, 'e, 'cb) runtime \<Rightarrow> bool" where
  "in_event k s \<longleftrightarrow> k < length (rt_frames s) \<and> k < length (dispatchers (rt_priority s)) \<and>
     (case (dispatchers (rt_priority s) ! k, rt_frames s ! k) of
        (Running i, FPort c p) \<Rightarrow> i < length (rt_ports s) \<and>
          (case pconsumers (rt_ports s ! i) ! p of PEvent e m \<Rightarrow> True | _ \<Rightarrow> False)
      | _ \<Rightarrow> False)"

definition may_call :: "pstate set \<Rightarrow> caller \<Rightarrow> ('m, 'e, 'cb) runtime \<Rightarrow> bool" where
  "may_call E c s \<longleftrightarrow> (case c of
       Dispatcher k \<Rightarrow> in_event k s
     | External \<Rightarrow> client (rt_priority s) \<noteq> CDestroyed \<and> pstate (rt_priority s) \<in> E)"

definition outside :: "('m, 'e, 'cb) port_action \<Rightarrow> bool" where
  "outside a \<longleftrightarrow> (case a of OwnerBegins \<Rightarrow> False | ConsumeStep p \<Rightarrow> False | _ \<Rightarrow> True)"

text \<open>The next step of dispatcher \<open>k\<close> in the job of actor \<open>i\<close>.\<close>

definition work_step ::
  "handler \<Rightarrow> nat \<Rightarrow> nat \<Rightarrow> ('m, 'e, 'cb) runtime \<Rightarrow> (error + ('m, 'e, 'cb) runtime) option" where
  "work_step h k i s =
     (let a = rt_actors s ! i; q = rt_ports s ! i;
          at = (\<lambda>a' f. s\<lparr>rt_actors := (rt_actors s)[i := a'], rt_frames := (rt_frames s)[k := f]\<rparr>)
      in case rt_frames s ! k of
           FNone \<Rightarrow> map_option (\<lambda>a'. Inr (at a' (FActor (length (consumers a))))) (aq_exec False BeginConsume a)
         | FActor c \<Rightarrow> (case consumers a ! c of
             AtLock \<Rightarrow> map_option (\<lambda>a'. Inr (at a' (FActor c))) (aq_exec False (ConsumerStep c) a)
           | CallingBack cb \<Rightarrow>
               map_option (\<lambda>q'. Inr (s\<lparr>rt_ports := (rt_ports s)[i := q'],
                     rt_frames := (rt_frames s)[k := FPort c (length (pconsumers q))]\<rparr>))
                 (port_exec int_max OwnerBegins q)
           | Returned \<Rightarrow> None)
         | FPort c p \<Rightarrow> (case pconsumers q ! p of
             PDone m \<Rightarrow> map_option (\<lambda>a'. Inr (at a' (FActor c))) (aq_exec False (ConsumerStep c) a)
           | _ \<Rightarrow> map_option (\<lambda>q'. set_port h i q' s) (port_exec int_max (ConsumeStep p) q)))"

text \<open>A dispatcher goes on with its loop when it does not execute a job, or has returned from it.\<close>

definition job_done :: "nat \<Rightarrow> ('m, 'e, 'cb) runtime \<Rightarrow> bool" where
  "job_done k s \<longleftrightarrow> (case dispatchers (rt_priority s) ! k of
       Running i \<Rightarrow> i < length (rt_actors s) \<and>
         (case rt_frames s ! k of FActor c \<Rightarrow> consumers (rt_actors s ! i) ! c = Returned | _ \<Rightarrow> False)
     | _ \<Rightarrow> True)"

datatype ('m, 'e, 'cb) runtime_action =
    CallPort caller nat "('m, 'e, 'cb) port_action"
  | FinishCtor caller nat
  | Work nat
  | PriorityAction "nat action"

definition runtime_exec ::
  "handler \<Rightarrow> pstate set \<Rightarrow> ('m, 'e, 'cb) runtime_action \<Rightarrow> ('m, 'e, 'cb) runtime \<Rightarrow>
     (error + ('m, 'e, 'cb) runtime) option" where
  "runtime_exec h E x s = (case x of
       CallPort c i a \<Rightarrow>
         if may_call E c s \<and> i < length (rt_ports s) \<and> outside a
         then map_option (\<lambda>q. set_port h i q s) (port_exec int_max a (rt_ports s ! i)) else None
     | FinishCtor c i \<Rightarrow>
         if may_call E c s \<and> i < length (rt_actors s)
         then map_option (\<lambda>a. set_actor h i a s) (aq_exec False CtorFinished (rt_actors s ! i)) else None
     | Work k \<Rightarrow>
         if k < length (dispatchers (rt_priority s))
         then (case dispatchers (rt_priority s) ! k of
             Running i \<Rightarrow> if i < length (rt_actors s) then work_step h k i s else None
           | _ \<Rightarrow> None) else None
     | PriorityAction a \<Rightarrow> (case a of
           Dispatch k \<Rightarrow>
             if k < length (dispatchers (rt_priority s)) \<and> job_done k s
             then map_option (map_sum id (\<lambda>p. s\<lparr>rt_priority := p, rt_frames := (rt_frames s)[k := FNone]\<rparr>))
                    (exec h a (rt_priority s)) else None
         | CallSchedule c j \<Rightarrow> None
         | _ \<Rightarrow> map_option (map_sum id (\<lambda>p. s\<lparr>rt_priority := p\<rparr>)) (exec h a (rt_priority s))))"

inductive runtime_reachable :: "handler \<Rightarrow> int \<Rightarrow> nat \<Rightarrow> pstate set \<Rightarrow> ('m, 'e, 'cb) runtime \<Rightarrow> bool"
  for h :: handler and n :: int and N :: nat and E :: "pstate set" where
  init: "runtime_reachable h n N E (runtime_init n N)"
| step: "runtime_reachable h n N E s \<Longrightarrow> runtime_exec h E x s = Some (Inr t) \<Longrightarrow> runtime_reachable h n N E t"

fun runtime_run ::
  "handler \<Rightarrow> pstate set \<Rightarrow> ('m, 'e, 'cb) runtime_action list \<Rightarrow> ('m, 'e, 'cb) runtime \<Rightarrow>
     (error + ('m, 'e, 'cb) runtime) option" where
  "runtime_run h E [] s = Some (Inr s)"
| "runtime_run h E (x # xs) s = (case runtime_exec h E x s of
     None \<Rightarrow> None | Some (Inl e) \<Rightarrow> Some (Inl e) | Some (Inr t) \<Rightarrow> runtime_run h E xs t)"

lemma runtime_run_reachable:
  "runtime_run h E xs s = Some (Inr t) \<Longrightarrow> runtime_reachable h n N E s \<Longrightarrow> runtime_reachable h n N E t"
proof (induction xs arbitrary: s)
  case (Cons x xs)
  then obtain u where "runtime_exec h E x s = Some (Inr u)" "runtime_run h E xs u = Some (Inr t)"
    by (auto split: option.splits sum.splits)
  then show ?case using Cons runtime_reachable.step by blast
qed simp

section \<open>One actor and the dispatchers\<close>

text \<open>
  What one actor, its port, and the dispatchers that execute its jobs have to do with each other.
  \<open>X k f\<close> says that dispatcher \<open>k\<close> executes a job of the actor with frame \<open>f\<close>, and
  \<open>n\<close> is the number of jobs of the actor in the queue of the priority. The first two parts say that every
  token is somewhere, the others that nothing else is.
\<close>

definition tokens_ok :: "(nat \<Rightarrow> frame \<Rightarrow> bool) \<Rightarrow> nat \<Rightarrow> unit actor_q \<Rightarrow> ('m, 'e, 'cb) port \<Rightarrow> bool" where
  "tokens_ok X n a t \<longleftrightarrow>
     (0 < consumeJobs a \<longrightarrow> 0 < n \<or> (\<exists>k. X k FNone)) \<and>
     (0 < ownerTokens t \<longrightarrow> callBackQueue a \<noteq> [] \<or>
        (\<exists>k c. X k (FActor c) \<and> c < length (consumers a) \<and> consumers a ! c = CallingBack ())) \<and>
     n \<le> consumeJobs a \<and> (\<forall>k. X k FNone \<longrightarrow> n = 0 \<and> 0 < consumeJobs a) \<and>
     (\<forall>k l. X k FNone \<and> X l FNone \<longrightarrow> k = l) \<and>
     length (callBackQueue a) \<le> ownerTokens t \<and>
     (\<forall>k c. X k (FActor c) \<and> consumers a ! c = CallingBack () \<longrightarrow> callBackQueue a = [] \<and> 0 < ownerTokens t)"

definition frames_ok :: "(nat \<Rightarrow> frame \<Rightarrow> bool) \<Rightarrow> unit actor_q \<Rightarrow> ('m, 'e, 'cb) port \<Rightarrow> bool" where
  "frames_ok X a t \<longleftrightarrow>
     (\<forall>c < length (consumers a). running_consumer (consumers a ! c) \<longrightarrow> (\<exists>k f. X k f \<and> frame_consumer f = Some c)) \<and>
     (\<forall>p < length (pconsumers t). running_pcon (pconsumers t ! p) \<longrightarrow> (\<exists>k c. X k (FPort c p))) \<and>
     (\<forall>k f c. X k f \<and> frame_consumer f = Some c \<longrightarrow> c < length (consumers a)) \<and>
     (\<forall>k c p. X k (FPort c p) \<longrightarrow> p < length (pconsumers t) \<and> consumers a ! c = CallingBack ()) \<and>
     (\<forall>k l f g c. X k f \<and> X l g \<and> frame_consumer f = Some c \<and> frame_consumer g = Some c \<longrightarrow> k = l)"

definition layers_ok :: "(nat \<Rightarrow> frame \<Rightarrow> bool) \<Rightarrow> nat \<Rightarrow> unit actor_q \<Rightarrow> ('m, 'e, 'cb) port \<Rightarrow> bool" where
  "layers_ok X n a t \<longleftrightarrow> aq_reachable a \<and> (phase_of a = Constructing \<or> phase_of a = Live) \<and>
     port_reachable int_max t \<and> tokens_ok X n a t \<and> frames_ok X a t"

lemma layers_okD:
  assumes "layers_ok X n a t"
  shows "aq_reachable a" "phase_of a = Constructing \<or> phase_of a = Live" "port_reachable int_max t"
    "0 < consumeJobs a \<Longrightarrow> 0 < n \<or> (\<exists>k. X k FNone)"
    "\<And>c. c < length (consumers a) \<Longrightarrow> running_consumer (consumers a ! c) \<Longrightarrow> \<exists>k f. X k f \<and> frame_consumer f = Some c"
    "0 < ownerTokens t \<Longrightarrow> callBackQueue a \<noteq> [] \<or>
        (\<exists>k c. X k (FActor c) \<and> c < length (consumers a) \<and> consumers a ! c = CallingBack ())"
    "\<And>p. p < length (pconsumers t) \<Longrightarrow> running_pcon (pconsumers t ! p) \<Longrightarrow> \<exists>k c. X k (FPort c p)"
    "\<And>k f c. X k f \<Longrightarrow> frame_consumer f = Some c \<Longrightarrow> c < length (consumers a)"
    "\<And>k c p. X k (FPort c p) \<Longrightarrow> p < length (pconsumers t) \<and> consumers a ! c = CallingBack ()"
    "\<And>k l f g c. X k f \<Longrightarrow> X l g \<Longrightarrow> frame_consumer f = Some c \<Longrightarrow> frame_consumer g = Some c \<Longrightarrow> k = l"
    "n \<le> consumeJobs a" "\<And>k. X k FNone \<Longrightarrow> n = 0 \<and> 0 < consumeJobs a" "\<And>k l. X k FNone \<Longrightarrow> X l FNone \<Longrightarrow> k = l"
    "length (callBackQueue a) \<le> ownerTokens t"
    "\<And>k c. X k (FActor c) \<Longrightarrow> consumers a ! c = CallingBack () \<Longrightarrow> callBackQueue a = [] \<and> 0 < ownerTokens t"
  using assms unfolding layers_ok_def tokens_ok_def frames_ok_def by blast+

definition move :: "nat \<Rightarrow> frame \<Rightarrow> (nat \<Rightarrow> frame \<Rightarrow> bool) \<Rightarrow> nat \<Rightarrow> frame \<Rightarrow> bool" where
  "move k f X = X(k := (\<lambda>g. g = f))"

lemma move_iff: "move k f X l g \<longleftrightarrow> (if l = k then g = f else X l g)"
  by (simp add: move_def)

lemma reach_actor: "aq_reachable a \<Longrightarrow> aq_exec False x a = Some b \<Longrightarrow> aq_reachable b"
  by (meson aq_step.intros rtranclp.rtrancl_into_rtrancl)

lemma reach_port: "port_reachable m t \<Longrightarrow> port_exec m x t = Some u \<Longrightarrow> port_reachable m u"
  by (meson port_step.intros rtranclp.rtrancl_into_rtrancl)

lemma tokens_le_one:
  "aq_reachable a \<Longrightarrow> consumeJobs a \<le> 1" "port_reachable m t \<Longrightarrow> ownerTokens t \<le> 1"
proof -
  show "consumeJobs a \<le> 1" if "aq_reachable a"
    using aq_reachable_handshake [OF that] by (simp add: handshake_ok_def aq_view_def split: if_splits)
  show "ownerTokens t \<le> 1" if "port_reachable m t"
    using port_reachable_handshake [OF that] by (simp add: handshake_ok_def port_view_def split: if_splits)
qed

lemma one_running_consumer:
  assumes "aq_reachable a" and "c < length (consumers a)" "running_consumer (consumers a ! c)"
    and "d < length (consumers a)" "running_consumer (consumers a ! d)"
  shows "d = c"
proof -
  have "count_if running_consumer (consumers a) \<le> 1"
    using handshake_exclusive [OF aq_reachable_handshake [OF assms(1)]] by (simp add: aq_view_def)
  then show ?thesis using count_if_unique assms(2-5) by blast
qed

lemma layers_begin:
  assumes ok: "layers_ok X n a t" and k: "\<And>f. X k f \<longleftrightarrow> f = FNone" and e: "aq_exec False BeginConsume a = Some b"
  shows "layers_ok (move k (FActor (length (consumers a))) X) n b t"
proof -
  let ?n = "length (consumers a)"
  let ?Y = "move k (FActor ?n) X"
  note D = layers_okD [OF ok]
  have b: "0 < consumeJobs a" "b = a\<lparr>consumeJobs := consumeJobs a - 1, consumers := consumers a @ [AtLock]\<rparr>"
    using e by (auto simp: aq_exec_def split: if_splits)
  have kn: "X k FNone" and n: "n = 0" using k D(12) [of k] by simp_all
  have z: "consumeJobs b = 0" using tokens_le_one(1) [OF D(1)] b by simp
  have keep: "?Y l f" if "X l f" "f \<noteq> FNone" for l f using that k by (auto simp: move_iff)
  have no: "\<not> ?Y l FNone" for l using D(13) [OF _ kn] by (auto simp: move_iff)
  have old: "X l f" "c < ?n" if "?Y l f" "frame_consumer f = Some c" "f \<noteq> FActor ?n" for l f c
    using that D(8) [of l f c] by (auto simp: move_iff split: if_splits)
  have nth: "consumers b ! c = (if c = ?n then AtLock else consumers a ! c)" if "c \<le> ?n" for c
    using that by (auto simp: b nth_append)
  have "tokens_ok ?Y n b t" unfolding tokens_ok_def
  proof (intro conjI allI impI)
    assume "0 < ownerTokens t"
    with D(6) consider "callBackQueue a \<noteq> []"
      | l c where "X l (FActor c)" "c < ?n" "consumers a ! c = CallingBack ()" by blast
    then show "callBackQueue b \<noteq> [] \<or> (\<exists>l c. ?Y l (FActor c) \<and> c < length (consumers b) \<and> consumers b ! c = CallingBack ())"
    proof cases
      case 2
      then show ?thesis using keep [of l "FActor c"] by (intro disjI2 exI [of _ l] exI [of _ c]) (simp add: b nth_append)
    qed (simp add: b)
  next
    fix l c assume y: "?Y l (FActor c) \<and> consumers b ! c = CallingBack ()"
    have "c \<noteq> ?n" using y nth [of ?n] by auto
    then have "X l (FActor c)" "c < ?n" using old [of l "FActor c" c] y by simp_all
    then show "callBackQueue b = []" "0 < ownerTokens t" using D(15) [of l c] y nth [of c] by (simp_all add: b)
  qed (use z n no D(14) in \<open>auto simp: b\<close>)
  moreover have "frames_ok ?Y b t" unfolding frames_ok_def
  proof (intro conjI allI impI)
    fix c assume c: "c < length (consumers b)" "running_consumer (consumers b ! c)"
    show "\<exists>l f. ?Y l f \<and> frame_consumer f = Some c"
    proof (cases "c = ?n")
      case True
      then show ?thesis by (intro exI [of _ k] exI [of _ "FActor c"]) (simp add: move_iff)
    next
      case False
      then have "c < ?n" "running_consumer (consumers a ! c)" using c by (auto simp: b nth_append)
      then obtain l f where "X l f" "frame_consumer f = Some c" using D(5) by blast
      moreover from this have "f \<noteq> FNone" by auto
      ultimately show ?thesis using keep by blast
    qed
  next
    fix p assume "p < length (pconsumers t)" "running_pcon (pconsumers t ! p)"
    then show "\<exists>l c. ?Y l (FPort c p)" using D(7) keep by blast
  next
    fix l f c assume "?Y l f \<and> frame_consumer f = Some c"
    then show "c < length (consumers b)" using D(8) [of l f c] by (auto simp: b move_iff split: if_splits)
  next
    fix l c p assume "?Y l (FPort c p)"
    then have x: "X l (FPort c p)" by (auto simp: move_iff split: if_splits)
    then have "c < ?n" using D(8) by fastforce
    then show "p < length (pconsumers t)" "consumers b ! c = CallingBack ()"
      using D(9) [OF x] by (simp_all add: b nth_append)
  next
    fix l m f g c
    assume "?Y l f \<and> ?Y m g \<and> frame_consumer f = Some c \<and> frame_consumer g = Some c"
    then show "l = m" using D(8) D(10) by (fastforce simp: move_iff split: if_splits)
  qed
  ultimately show ?thesis using D(2,3) reach_actor [OF D(1) e] by (simp add: layers_ok_def b)
qed

lemma consumer_step_cases:
  assumes "aq_exec False (ConsumerStep c) a = Some b" and "phase_of a = Constructing \<or> phase_of a = Live"
  shows "c < length (consumers a)" "consumers a ! c \<noteq> Returned"
    "consumers a ! c = AtLock \<Longrightarrow> consumers b = (consumers a)[c := if callBackQueue a = [] then Returned else CallingBack ()] \<and>
       callBackQueue b = tl (callBackQueue a) \<and> consumeJobs b = consumeJobs a \<and> phase_of b = phase_of a"
    "consumers a ! c = CallingBack () \<Longrightarrow> b = a\<lparr>consumers := (consumers a)[c := AtLock]\<rparr>"
  using assms
  by (auto simp: aq_exec_def consumer_step_def actor_consume_def notify_dtor_def
      split: if_splits consumer.splits list.splits)

lemma layers_lock:
  assumes ok: "layers_ok X n a t" and k: "X k (FActor c)" and l: "consumers a ! c = AtLock"
    and e: "aq_exec False (ConsumerStep c) a = Some b"
  shows "layers_ok X n b t"
proof -
  note D = layers_okD [OF ok]
  note S = consumer_step_cases [OF e D(2)]
  have b: "consumers b = (consumers a)[c := if callBackQueue a = [] then Returned else CallingBack ()]"
    "callBackQueue b = tl (callBackQueue a)" "consumeJobs b = consumeJobs a" "phase_of b = phase_of a"
    and c: "c < length (consumers a)"
    using S(1) S(3) [OF l] by auto
  have one: "length (callBackQueue a) \<le> 1" using D(14) tokens_le_one(2) [OF D(3)] by linarith
  have alone: "\<not> X m (FActor d)" if "consumers a ! d = CallingBack ()" for m d
  proof
    assume x: "X m (FActor d)"
    then have "d < length (consumers a)" using D(8) by fastforce
    then have "d = c" using one_running_consumer [OF D(1) c] that l by simp
    then show False using that l by simp
  qed
  have "tokens_ok X n b t" unfolding tokens_ok_def
  proof (intro conjI allI impI)
    assume tok: "0 < ownerTokens t"
    then have "callBackQueue a \<noteq> []" using D(6) alone by blast
    then show "callBackQueue b \<noteq> [] \<or> (\<exists>k d. X k (FActor d) \<and> d < length (consumers b) \<and> consumers b ! d = CallingBack ())"
      using k c by (intro disjI2 exI [of _ k] exI [of _ c]) (simp add: b)
  next
    fix m d assume x: "X m (FActor d) \<and> consumers b ! d = CallingBack ()"
    have "d = c" using x alone [of d m] by (cases "d = c") (auto simp: b)
    then have ne: "callBackQueue a \<noteq> []" using x c by (auto simp: b)
    show "callBackQueue b = []" using one by (cases "callBackQueue a") (simp_all add: b)
    show "0 < ownerTokens t" using ne D(14) by (cases "callBackQueue a") simp_all
  next
    show "length (callBackQueue b) \<le> ownerTokens t" using D(14) by (simp add: b)
  qed (use D(4,11,12,13) in \<open>auto simp: b\<close>)
  moreover have "frames_ok X b t" unfolding frames_ok_def
  proof (intro conjI allI impI)
    fix d assume d: "d < length (consumers b)" "running_consumer (consumers b ! d)"
    then have "running_consumer (consumers a ! d)"
      using l c by (cases "d = c") (auto simp: b)
    then show "\<exists>k f. X k f \<and> frame_consumer f = Some d" using D(5) [of d] d(1) by (simp add: b)
  next
    fix m d p assume x: "X m (FPort d p)"
    have "d \<noteq> c" using D(9) [OF x] l by auto
    then show "p < length (pconsumers t)" "consumers b ! d = CallingBack ()" using D(9) [OF x] by (simp_all add: b)
  qed (use D(7,8,10) in \<open>auto simp: b\<close>)
  ultimately show ?thesis using D(2,3) reach_actor [OF D(1) e] by (simp add: layers_ok_def b)
qed

lemma layers_port_begin:
  assumes ok: "layers_ok X n a t" and k: "\<And>f. X k f \<longleftrightarrow> f = FActor c" and cb: "consumers a ! c = CallingBack ()"
    and e: "port_exec int_max OwnerBegins t = Some u"
  shows "layers_ok (move k (FPort c (length (pconsumers t))) X) n a u"
proof -
  let ?n = "length (pconsumers t)"
  let ?Y = "move k (FPort c ?n) X"
  note D = layers_okD [OF ok]
  have u: "0 < ownerTokens t" "u = t\<lparr>ownerTokens := ownerTokens t - 1, pconsumers := pconsumers t @ [PTest 0]\<rparr>"
    using e by (auto simp: port_exec_def split: if_splits)
  have z: "ownerTokens u = 0" using tokens_le_one(2) [OF D(3)] u by simp
  have keep: "?Y l f" if "X l f" "f \<noteq> FActor c" for l f using that k by (auto simp: move_iff)
  have kk: "X k (FActor c)" "?Y k (FPort c ?n)" using k by (simp_all add: move_iff)
  have cl: "c < length (consumers a)" using D(8) [OF kk(1)] by simp
  have sub: "\<exists>g. X l g \<and> frame_consumer g = Some d" if "?Y l f" "frame_consumer f = Some d" for l f d
    using that kk(1) by (cases "l = k") (auto simp: move_iff)
  have none: "?Y l FNone \<longleftrightarrow> X l FNone" for l using k by (auto simp: move_iff)
  have alone: "consumers a ! d \<noteq> CallingBack ()" if y: "?Y l (FActor d)" for l d
  proof
    assume r: "consumers a ! d = CallingBack ()"
    have x: "X l (FActor d)" "l \<noteq> k" using y by (auto simp: move_iff split: if_splits)
    then have "d = c" using one_running_consumer [OF D(1) cl] D(8) [OF x(1)] r cb by simp
    then show False using D(10) [OF x(1) kk(1)] x(2) by simp
  qed
  have "tokens_ok ?Y n a u" unfolding tokens_ok_def none
  proof (intro conjI allI impI)
    show "length (callBackQueue a) \<le> ownerTokens u" using D(15) [OF kk(1) cb] by simp
  qed (use D(4,11,12,13) z alone in auto)
  moreover have "frames_ok ?Y a u" unfolding frames_ok_def
  proof (intro conjI allI impI)
    fix d assume d: "d < length (consumers a)" "running_consumer (consumers a ! d)"
    then obtain l f where x: "X l f" "frame_consumer f = Some d" using D(5) by blast
    show "\<exists>l f. ?Y l f \<and> frame_consumer f = Some d"
    proof (cases "f = FActor c")
      case True
      then show ?thesis using x(2) kk(2) by (intro exI [of _ k] exI [of _ "FPort c ?n"]) simp
    next
      case False
      then show ?thesis using x keep by blast
    qed
  next
    fix p assume p: "p < length (pconsumers u)" "running_pcon (pconsumers u ! p)"
    show "\<exists>l d. ?Y l (FPort d p)"
    proof (cases "p = ?n")
      case True
      then show ?thesis using kk(2) by blast
    next
      case False
      then have "p < ?n" "running_pcon (pconsumers t ! p)" using p by (auto simp: u nth_append)
      then show ?thesis using D(7) keep by blast
    qed
  next
    fix l f d assume "?Y l f \<and> frame_consumer f = Some d"
    then show "d < length (consumers a)" using sub D(8) by blast
  next
    fix l d p assume y: "?Y l (FPort d p)"
    show "p < length (pconsumers u)" "consumers a ! d = CallingBack ()"
      using y D(9) [of l d p] cb by (auto simp: move_iff u split: if_splits)
  next
    fix l m f g d
    assume "?Y l f \<and> ?Y m g \<and> frame_consumer f = Some d \<and> frame_consumer g = Some d"
    then show "l = m" using sub D(10) by blast
  qed
  ultimately show ?thesis using D(1,2) reach_port [OF D(3) e] by (simp add: layers_ok_def)
qed

lemma actor_schedule_facts [simp]:
  "consumers (actor_schedule cb a) = consumers a" "phase_of (actor_schedule cb a) = phase_of a"
  "callBackQueue (actor_schedule cb a) = callBackQueue a @ [cb]"
  "consumeJobs (actor_schedule cb a) = (if scheduled_flag a then consumeJobs a else consumeJobs a + 1)"
  by (simp_all add: actor_schedule_def priority_schedule_consume_def Let_def)

lemma unflagged_no_jobs: "aq_reachable a \<Longrightarrow> \<not> scheduled_flag a \<Longrightarrow> consumeJobs a = 0"
  using aq_reachable_handshake [of a] by (auto simp: handshake_ok_def aq_view_def)

text \<open>A step of the port, with the call of the actor that may follow.\<close>

lemma layers_port_step:
  assumes ok: "layers_ok X n a t" and u: "port_reachable int_max u"
    and len: "length (pconsumers u) = length (pconsumers t)"
    and run: "\<And>p. p < length (pconsumers t) \<Longrightarrow> running_pcon (pconsumers u ! p) \<Longrightarrow> running_pcon (pconsumers t ! p)"
    and inc: "ownerTokens t \<le> ownerTokens u"
    and b: "b = (if ownerTokens t < ownerTokens u then actor_schedule () a else a)"
    and m: "m = n + (consumeJobs b - consumeJobs a)"
  shows "layers_ok X m b u"
proof -
  note D = layers_okD [OF ok]
  have same: "consumers b = consumers a" "phase_of b = phase_of a" by (simp_all add: b)
  have rb: "aq_reachable b"
    using D(1,2) reach_actor [OF D(1), of "Post ()" b] by (auto simp: b aq_exec_def)
  have "tokens_ok X m b u"
  proof (cases "ownerTokens t < ownerTokens u")
    case False
    then have "b = a" "m = n" "ownerTokens u = ownerTokens t" using inc b m by simp_all
    then show ?thesis using ok by (simp add: layers_ok_def tokens_ok_def)
  next
    case True
    then have bb: "b = actor_schedule () a" by (simp add: b)
    have tk: "ownerTokens t = 0" "ownerTokens u = 1" using True tokens_le_one(2) [OF u] by simp_all
    then have cb: "callBackQueue b = [()]" using D(14) by (simp add: bb)
    have alone: "consumers a ! c \<noteq> CallingBack ()" if "X k (FActor c)" for k c using D(15) [OF that] tk(1) by auto
    show ?thesis
    proof (cases "scheduled_flag a")
      case True
      then have "consumeJobs b = consumeJobs a" "m = n" using m by (simp_all add: bb)
      then show ?thesis unfolding tokens_ok_def same cb using D(4,11,12,13) tk alone by auto
    next
      case False
      then have z: "consumeJobs a = 0" using unflagged_no_jobs [OF D(1)] by simp
      then have no: "\<not> X k FNone" for k using D(12) [of k] by auto
      have "consumeJobs b = 1" "m = 1" using False z m D(11) by (simp_all add: bb)
      then show ?thesis unfolding tokens_ok_def same cb using no tk alone by auto
    qed
  qed
  moreover have "frames_ok X b u" unfolding frames_ok_def same len
    using D(5,7,8,9,10) run by blast
  ultimately show ?thesis using D(2) rb u same by (simp add: layers_ok_def)
qed

lemma layers_ctor:
  assumes ok: "layers_ok X n a t" and e: "aq_exec False CtorFinished a = Some b"
    and m: "m = n + (consumeJobs b - consumeJobs a)"
  shows "layers_ok X m b t"
proof -
  note D = layers_okD [OF ok]
  have con: "phase_of a = Constructing" and b: "consumers b = consumers a" "callBackQueue b = callBackQueue a"
    "phase_of b = Live" "consumeJobs b = (if callBackQueue a = [] then consumeJobs a else consumeJobs a + 1)"
    using e by (auto simp: aq_exec_def ctorFinished_def priority_schedule_consume_def Let_def split: if_splits)
  have "consumeJobs a = 0"
    using aq_reachable_handshake [OF D(1)] con by (auto simp: handshake_ok_def aq_view_def split: if_splits)
  then have "tokens_ok X m b t"
    using D(6,11,12,14,15) m by (auto simp: tokens_ok_def b)
  moreover have "frames_ok X b t" using ok by (simp add: layers_ok_def frames_ok_def b)
  ultimately show ?thesis using D(3) reach_actor [OF D(1) e] by (simp add: layers_ok_def b)
qed

lemma layers_port_done:
  assumes ok: "layers_ok X n a t" and k: "\<And>f. X k f \<longleftrightarrow> f = FPort c p" and pd: "\<not> running_pcon (pconsumers t ! p)"
    and e: "aq_exec False (ConsumerStep c) a = Some b"
  shows "layers_ok (move k (FActor c) X) n b t"
proof -
  let ?Y = "move k (FActor c) X"
  note D = layers_okD [OF ok]
  have kk: "X k (FPort c p)" "?Y k (FActor c)" using k by (simp_all add: move_iff)
  have cb: "consumers a ! c = CallingBack ()" using D(9) [OF kk(1)] by simp
  have b: "b = a\<lparr>consumers := (consumers a)[c := AtLock]\<rparr>" and c: "c < length (consumers a)"
    using consumer_step_cases(1,4) [OF e D(2)] cb by simp_all
  have keep: "?Y l f" if "X l f" "f \<noteq> FPort c p" for l f using that k by (auto simp: move_iff)
  have sub: "\<exists>g. X l g \<and> frame_consumer g = Some d" if "?Y l f" "frame_consumer f = Some d" for l f d
    using that kk(1) by (cases "l = k") (auto simp: move_iff)
  have none: "?Y l FNone \<longleftrightarrow> X l FNone" for l using k by (auto simp: move_iff)
  have other: "l = k" if "X l f" "frame_consumer f = Some c" for l f using D(10) [OF that(1) kk(1) that(2)] by simp
  have "tokens_ok ?Y n b t" unfolding tokens_ok_def none
  proof (intro conjI allI impI)
    assume "0 < ownerTokens t"
    with D(6) consider "callBackQueue a \<noteq> []"
      | l d where "X l (FActor d)" "d < length (consumers a)" "consumers a ! d = CallingBack ()" by blast
    then show "callBackQueue b \<noteq> [] \<or> (\<exists>l d. ?Y l (FActor d) \<and> d < length (consumers b) \<and> consumers b ! d = CallingBack ())"
    proof cases
      case 2
      then have "l \<noteq> k" using k by auto
      then have "d \<noteq> c" using other 2(1) by fastforce
      then show ?thesis using 2 keep [OF 2(1)] by (intro disjI2 exI [of _ l] exI [of _ d]) (simp add: b)
    qed (simp add: b)
  next
    fix l d assume y: "?Y l (FActor d) \<and> consumers b ! d = CallingBack ()"
    have dc: "d \<noteq> c" using y c by (auto simp: b)
    then have "X l (FActor d)" using y by (auto simp: move_iff split: if_splits)
    then show "callBackQueue b = []" "0 < ownerTokens t" using D(15) [of l d] y dc by (simp_all add: b)
  qed (use D(4,11,12,13,14) in \<open>auto simp: b\<close>)
  moreover have "frames_ok ?Y b t" unfolding frames_ok_def
  proof (intro conjI allI impI)
    fix d assume d: "d < length (consumers b)" "running_consumer (consumers b ! d)"
    show "\<exists>l f. ?Y l f \<and> frame_consumer f = Some d"
    proof (cases "d = c")
      case True
      then show ?thesis using kk(2) by (intro exI [of _ k] exI [of _ "FActor c"]) simp
    next
      case False
      then have "d < length (consumers a)" "running_consumer (consumers a ! d)" using d by (simp_all add: b)
      then obtain l f where x: "X l f" "frame_consumer f = Some d" using D(5) by blast
      then have "f \<noteq> FPort c p" using False by auto
      then show ?thesis using x keep by blast
    qed
  next
    fix r assume r: "r < length (pconsumers t)" "running_pcon (pconsumers t ! r)"
    then obtain l d where "X l (FPort d r)" using D(7) by blast
    moreover have "r \<noteq> p" using r pd by auto
    ultimately show "\<exists>l d. ?Y l (FPort d r)" using keep by blast
  next
    fix l f d assume "?Y l f \<and> frame_consumer f = Some d"
    then show "d < length (consumers b)" using sub D(8) by (fastforce simp: b)
  next
    fix l d r assume y: "?Y l (FPort d r)"
    then have x: "X l (FPort d r)" "l \<noteq> k" by (auto simp: move_iff split: if_splits)
    then have "d \<noteq> c" using other by fastforce
    then show "r < length (pconsumers t)" "consumers b ! d = CallingBack ()" using D(9) [OF x(1)] by (simp_all add: b)
  next
    fix l m f g d
    assume "?Y l f \<and> ?Y m g \<and> frame_consumer f = Some d \<and> frame_consumer g = Some d"
    then show "l = m" using sub D(10) by blast
  qed
  ultimately show ?thesis using D(2,3) reach_actor [OF D(1) e] by (simp add: layers_ok_def b)
qed

lemma layers_leave:
  assumes ok: "layers_ok X n a t" and k: "\<And>f. X k f \<longleftrightarrow> f = FActor c" and r: "consumers a ! c = Returned"
  shows "layers_ok (X(k := (\<lambda>f. False))) n a t"
proof -
  let ?Y = "X(k := (\<lambda>f. False))"
  note D = layers_okD [OF ok]
  have keep: "?Y l f" if "X l f" "f \<noteq> FActor c" for l f using that k by auto
  have sub: "X l f" if "?Y l f" for l f using that by (auto split: if_splits)
  have none: "?Y l FNone \<longleftrightarrow> X l FNone" for l using k by auto
  have "tokens_ok ?Y n a t" unfolding tokens_ok_def none
  proof (intro conjI allI impI)
    assume "0 < ownerTokens t"
    with D(6) r keep show "callBackQueue a \<noteq> [] \<or> (\<exists>l d. ?Y l (FActor d) \<and> d < length (consumers a) \<and> consumers a ! d = CallingBack ())"
      by (metis consumer.distinct(5) frame.inject(1))
  next
    fix l d assume "?Y l (FActor d) \<and> consumers a ! d = CallingBack ()"
    then show "callBackQueue a = []" "0 < ownerTokens t" using D(15) sub by blast+
  qed (use D(4,11,12,13,14) in auto)
  moreover have "frames_ok ?Y a t" unfolding frames_ok_def
  proof (intro conjI allI impI)
    fix d assume d: "d < length (consumers a)" "running_consumer (consumers a ! d)"
    then obtain l f where x: "X l f" "frame_consumer f = Some d" using D(5) by blast
    have "d \<noteq> c" using d r by auto
    with x have "f \<noteq> FActor c" by auto
    with x keep show "\<exists>l f. ?Y l f \<and> frame_consumer f = Some d" by blast
  next
    fix p assume "p < length (pconsumers t)" "running_pcon (pconsumers t ! p)"
    with D(7) keep show "\<exists>l d. ?Y l (FPort d p)" by blast
  next
    fix l m f g d
    assume "?Y l f \<and> ?Y m g \<and> frame_consumer f = Some d \<and> frame_consumer g = Some d"
    then show "l = m" using D(10) sub by blast
  next
    fix l f d assume "?Y l f \<and> frame_consumer f = Some d"
    then show "d < length (consumers a)" using D(8) sub by blast
  next
    fix l d p assume "?Y l (FPort d p)"
    then show "p < length (pconsumers t)" "consumers a ! d = CallingBack ()" using D(9) sub by blast+
  qed
  ultimately show ?thesis using D(1,2,3) by (simp add: layers_ok_def)
qed

lemma layers_take:
  assumes ok: "layers_ok X (Suc n) a t" and k: "\<And>f. \<not> X k f"
  shows "layers_ok (move k FNone X) n a t"
proof -
  let ?Y = "move k FNone X"
  note D = layers_okD [OF ok]
  have keep: "?Y l f" if "X l f" for l f using that k by (auto simp: move_iff)
  have sub: "X l f" if "?Y l f" "f \<noteq> FNone" for l f using that by (auto simp: move_iff split: if_splits)
  have sub2: "X l f" if "?Y l f" "frame_consumer f = Some d" for l f d using that sub by (cases f) auto
  have one: "consumeJobs a = 1" "n = 0" using D(11) tokens_le_one(1) [OF D(1)] by simp_all
  have "\<not> X l FNone" for l using D(12) [of l] by auto
  then have none: "?Y l FNone \<longleftrightarrow> l = k" for l by (auto simp: move_iff)
  have "tokens_ok ?Y n a t" unfolding tokens_ok_def none
  proof (intro conjI allI impI)
    assume "0 < ownerTokens t"
    then show "callBackQueue a \<noteq> [] \<or> (\<exists>l d. ?Y l (FActor d) \<and> d < length (consumers a) \<and> consumers a ! d = CallingBack ())"
      using D(6) keep by blast
  next
    fix l d assume "?Y l (FActor d) \<and> consumers a ! d = CallingBack ()"
    then show "callBackQueue a = []" "0 < ownerTokens t" using D(15) sub by blast+
  qed (use one D(14) in auto)
  moreover have "frames_ok ?Y a t" unfolding frames_ok_def
  proof (intro conjI allI impI)
    fix l m f g d
    assume "?Y l f \<and> ?Y m g \<and> frame_consumer f = Some d \<and> frame_consumer g = Some d"
    then show "l = m" using D(10) sub2 by blast
  next
    fix l f d assume "?Y l f \<and> frame_consumer f = Some d"
    then show "d < length (consumers a)" using D(8) sub2 by blast
  next
    fix l d p assume "?Y l (FPort d p)"
    then show "p < length (pconsumers t)" "consumers a ! d = CallingBack ()" using D(9) sub by blast+
  next
    fix d assume "d < length (consumers a)" "running_consumer (consumers a ! d)"
    then show "\<exists>l f. ?Y l f \<and> frame_consumer f = Some d" using D(5) keep by blast
  next
    fix p assume "p < length (pconsumers t)" "running_pcon (pconsumers t ! p)"
    with D(7) keep show "\<exists>l d. ?Y l (FPort d p)" by blast
  qed
  ultimately show ?thesis using D(1,2,3) by (simp add: layers_ok_def)
qed

end
