(* ===== verification/Runtime_Invariants.thy ===== *)
theory Runtime_Invariants
  imports Runtime_System
begin

text \<open>
  The invariant of the runtime: for every actor the relation \<open>layers_ok\<close> to the dispatchers that execute
  its jobs. It is kept by every step, and the priority inside the runtime is a reachable priority.
\<close>

section \<open>The invariant\<close>

definition executes :: "('m, 'e, 'cb) runtime \<Rightarrow> nat \<Rightarrow> nat \<Rightarrow> frame \<Rightarrow> bool" where
  "executes s i k f \<longleftrightarrow> k < length (dispatchers (rt_priority s)) \<and>
     dispatchers (rt_priority s) ! k = Running i \<and> rt_frames s ! k = f"

definition runtime_inv :: "('m, 'e, 'cb) runtime \<Rightarrow> bool" where
  "runtime_inv s \<longleftrightarrow> length (rt_frames s) = length (dispatchers (rt_priority s)) \<and>
     length (rt_ports s) = length (rt_actors s) \<and>
     (\<forall>k < length (rt_frames s). \<not> is_running (dispatchers (rt_priority s) ! k) \<longrightarrow> rt_frames s ! k = FNone) \<and>
     (\<forall>i < length (rt_actors s). layers_ok (executes s i) (count_list (actorQueue (rt_priority s)) i)
        (rt_actors s ! i) (rt_ports s ! i))"

text \<open>What the priority does when no dispatcher takes or leaves a job.\<close>

definition same_running :: "nat prio \<Rightarrow> nat prio \<Rightarrow> bool" where
  "same_running p p' \<longleftrightarrow> length (dispatchers p') = length (dispatchers p) \<and>
     (\<forall>k < length (dispatchers p). \<forall>j. dispatchers p' ! k = Running j \<longleftrightarrow> dispatchers p ! k = Running j)"

lemma wake_running [simp]:
  "wake_sleeping c = Running j \<longleftrightarrow> c = Running j" "wake_start_blocked c = Running j \<longleftrightarrow> c = Running j"
  by (cases c; simp)+

lemma map_sum_Inr: "map_sum id f x = Inr t \<longleftrightarrow> (\<exists>p. x = Inr p \<and> t = f p)"
  by (cases x) auto

lemma schedule_jobs:
  assumes "schedule h i p = Inr p'"
  shows "same_running p p'" "actorQueue p' = actorQueue p @ [i]"
  using assms by (auto simp: schedule_def notify_all_schedule_def same_running_def Let_def split: if_splits)

lemma is_running_iff: "is_running c \<longleftrightarrow> (\<exists>j. c = Running j)"
  by (cases c) simp_all

lemma exec_jobs:
  assumes "exec h a p = Some (Inr p')" and "\<And>k. a \<noteq> Dispatch k" and "\<And>c j. a \<noteq> CallSchedule c j"
  shows "same_running p p' \<and> actorQueue p' = actorQueue p"
proof (cases a)
  case Client
  then have c: "client_section h p = Some (Inr p')" using assms(1) by (simp add: exec_def)
  from client_frame(3,6) [OF c] show ?thesis by (auto simp: same_running_def)
next
  case (SpuriousDispatcher i)
  then show ?thesis using assms(1)
    by (auto simp: exec_def set_pc_def same_running_def nth_list_update split: if_splits)
qed (use assms in \<open>auto simp: exec_def start_locked_def stop_locked_def stop_wait_def stop_finish_def
      waitForIdle_def destructor_def same_running_def Let_def split: if_splits pstate.splits\<close>)

lemma dispatch_jobs:
  assumes "dispatcherLoop k p = Some p'"
  obtains (leaves) i where "dispatchers p ! k = Running i" "p' = set_pc k LoopEntry p"
    | (moves) c where "\<not> is_running (dispatchers p ! k)" "\<not> is_running c"
        "dispatchers p' = (dispatchers p)[k := c]" "actorQueue p' = actorQueue p"
    | (takes) j js where "\<not> is_running (dispatchers p ! k)" "actorQueue p = j # js" "actorQueue p' = js"
        "dispatchers p' = (dispatchers p)[k := Running j]"
proof -
  have loop: "(\<exists>c. \<not> is_running c \<and> dispatchers (loop_head k q) = (dispatchers q)[k := c] \<and>
      actorQueue (loop_head k q) = actorQueue q) \<or>
    (\<exists>j js. actorQueue q = j # js \<and> actorQueue (loop_head k q) = js \<and>
      dispatchers (loop_head k q) = (dispatchers q)[k := Running j])" for q :: "'a prio"
  proof (cases "pstate q = RUNNING")
    case True
    then show ?thesis by (cases "actorQueue q")
      (auto simp: loop_head_def go_to_sleep_def take_job_def set_pc_def Let_def intro!: exI [of _ "Sleeping False"])
  next
    case False
    then show ?thesis by (cases "actorQueue q")
      (auto simp: loop_head_def leave_loop_def take_job_def set_pc_def intro!: exI [of _ Exited])
  qed
  have wait: "(\<exists>c. \<not> is_running c \<and> dispatchers (after_wait k q) = (dispatchers q)[k := c] \<and>
      actorQueue (after_wait k q) = actorQueue q) \<or>
    (\<exists>j js. actorQueue q = j # js \<and> actorQueue (after_wait k q) = js \<and>
      dispatchers (after_wait k q) = (dispatchers q)[k := Running j])" for q :: "'a prio"
    using loop [of "q\<lparr>sleepingCount := sleepingCount q - 1\<rparr>"]
    by (cases "actorQueue q") (auto simp: after_wait_def take_job_def set_pc_def Let_def intro: exI [of _ "Sleeping False"])
  show ?thesis
  proof (cases "dispatchers p ! k")
    case (Running i)
    then show ?thesis using assms leaves by (simp add: dispatcherLoop_def)
  next
    case LoopEntry
    then have "p' = loop_head k p" "\<not> is_running (dispatchers p ! k)" using assms by (simp_all add: dispatcherLoop_def)
    then show ?thesis using loop [of p] moves takes by blast
  next
    case (Sleeping b)
    then have "p' = after_wait k p" "\<not> is_running (dispatchers p ! k)"
      using assms by (simp_all add: dispatcherLoop_def split: if_splits)
    then show ?thesis using wait [of p] moves takes by blast
  next
    case AtStart
    then show ?thesis using assms moves [of "if pstate p = RUNNING then BeforeCount else StartBlocked False"]
      by (auto simp: dispatcherLoop_def start_wait_def set_pc_def)
  next
    case (StartBlocked b)
    then show ?thesis using assms moves [of "if pstate p = RUNNING then BeforeCount else StartBlocked False"]
      by (auto simp: dispatcherLoop_def start_wait_def set_pc_def split: if_splits)
  next
    case BeforeCount
    then show ?thesis using assms moves [of LoopEntry]
      by (auto simp: dispatcherLoop_def count_started_def set_pc_def)
  next
    case Exited
    then show ?thesis using assms by (simp add: dispatcherLoop_def)
  qed
qed

section \<open>Preservation\<close>

text \<open>A step on one actor, with the jobs of the priority as they were.\<close>

lemma inv_update:
  assumes inv: "runtime_inv s" and i: "i < length (rt_actors s)" and same: "same_running (rt_priority s) p"
    and jobs: "\<And>j. j \<noteq> i \<Longrightarrow> count_list (actorQueue p) j = count_list (actorQueue (rt_priority s)) j"
    and fl: "length fs = length (rt_frames s)"
    and ff: "\<And>k. k < length fs \<Longrightarrow> fs ! k = rt_frames s ! k \<or> dispatchers (rt_priority s) ! k = Running i"
    and t: "t = s\<lparr>rt_priority := p, rt_actors := (rt_actors s)[i := a], rt_ports := (rt_ports s)[i := q], rt_frames := fs\<rparr>"
    and ok: "layers_ok (executes t i) (count_list (actorQueue p) i) a q"
  shows "runtime_inv t"
proof -
  have l: "length (rt_frames s) = length (dispatchers (rt_priority s))" "length (rt_ports s) = length (rt_actors s)"
    and idle: "\<And>k. k < length (rt_frames s) \<Longrightarrow> \<not> is_running (dispatchers (rt_priority s) ! k) \<Longrightarrow> rt_frames s ! k = FNone"
    and layers: "\<And>j. j < length (rt_actors s) \<Longrightarrow> layers_ok (executes s j) (count_list (actorQueue (rt_priority s)) j)
        (rt_actors s ! j) (rt_ports s ! j)"
    using inv by (auto simp: runtime_inv_def)
  have run: "dispatchers p ! k = Running j \<longleftrightarrow> dispatchers (rt_priority s) ! k = Running j"
    if "k < length (dispatchers p)" for k j using same that by (simp add: same_running_def)
  have ld: "length (dispatchers p) = length (dispatchers (rt_priority s))" using same by (simp add: same_running_def)
  have "fs ! k = FNone" if "k < length fs" "\<not> is_running (dispatchers p ! k)" for k
    using ff [OF that(1)] that idle [of k] run [of k] fl l(1) ld by (auto simp: is_running_iff)
  moreover have "layers_ok (executes t j) (count_list (actorQueue p) j) (rt_actors t ! j) (rt_ports t ! j)"
    if j: "j < length (rt_actors s)" for j
  proof (cases "j = i")
    case True
    then show ?thesis using ok i l(2) by (simp add: t)
  next
    case False
    have "executes t j = executes s j"
      using False ff fl l(1) ld run by (fastforce simp: executes_def t fun_eq_iff)
    then show ?thesis using layers [OF j] False jobs [OF False] by (simp add: t)
  qed
  ultimately show ?thesis using fl l ld by (simp add: runtime_inv_def t)
qed

lemma inv_priority:
  assumes inv: "runtime_inv s" and same: "same_running (rt_priority s) p" and q: "actorQueue p = actorQueue (rt_priority s)"
  shows "runtime_inv (s\<lparr>rt_priority := p\<rparr>)"
proof -
  have "executes (s\<lparr>rt_priority := p\<rparr>) j = executes s j" for j
    using same by (auto simp: executes_def same_running_def fun_eq_iff)
  then show ?thesis using inv same q by (simp add: runtime_inv_def same_running_def is_running_iff)
qed

lemma inv_layers: "runtime_inv s \<Longrightarrow> i < length (rt_actors s) \<Longrightarrow>
    layers_ok (executes s i) (count_list (actorQueue (rt_priority s)) i) (rt_actors s ! i) (rt_ports s ! i)"
  by (simp add: runtime_inv_def)

lemma same_running_refl [simp]: "same_running p p"
  by (simp add: same_running_def)

lemma count_list_replicate: "count_list (replicate m x) y = (if x = y then m else 0)"
  by (induction m) auto

text \<open>A new state of a port, and what follows from it in the layers below.\<close>

lemma inv_set_port:
  assumes inv: "runtime_inv s" and i: "i < length (rt_actors s)" and t: "set_port h i q s = Inr t"
    and q: "port_reachable int_max q" "length (pconsumers q) = length (pconsumers (rt_ports s ! i))"
      "\<And>p. p < length (pconsumers (rt_ports s ! i)) \<Longrightarrow> running_pcon (pconsumers q ! p) \<Longrightarrow>
         running_pcon (pconsumers (rt_ports s ! i) ! p)"
      "ownerTokens (rt_ports s ! i) \<le> ownerTokens q"
  shows "runtime_inv t"
proof -
  let ?a = "rt_actors s ! i" and ?p = "rt_priority s"
  let ?b = "if ownerTokens (rt_ports s ! i) < ownerTokens q then actor_schedule () ?a else ?a"
  note L = inv_layers [OF inv i]
  obtain p where p: "same_running ?p p" "actorQueue p = actorQueue ?p @ replicate (consumeJobs ?b - consumeJobs ?a) i"
    and tt: "t = s\<lparr>rt_priority := p, rt_actors := (rt_actors s)[i := ?b], rt_ports := (rt_ports s)[i := q],
      rt_frames := rt_frames s\<rparr>"
  proof (cases "ownerTokens (rt_ports s ! i) < ownerTokens q \<and> consumeJobs ?a < consumeJobs (actor_schedule () ?a)")
    case True
    then obtain p where "schedule h i ?p = Inr p" "t = s\<lparr>rt_priority := p,
        rt_actors := (rt_actors s)[i := actor_schedule () ?a], rt_ports := (rt_ports s)[i := q]\<rparr>"
      using t by (auto simp: set_port_def set_actor_def Let_def map_sum_Inr split: if_splits)
    then show ?thesis using that [of p] schedule_jobs True by (simp split: if_splits)
  next
    case False
    then show ?thesis using that [of ?p] t by (auto simp: set_port_def set_actor_def Let_def split: if_splits)
  qed
  have same: "executes t i = executes s i"
    using p(1) by (auto simp: executes_def tt same_running_def fun_eq_iff)
  have "layers_ok (executes s i) (count_list (actorQueue p) i) ?b q"
    by (rule layers_port_step [OF L q refl]) (simp_all add: p(2) count_list_replicate)
  then show ?thesis using inv_update [OF inv i p(1) _ refl _ tt] same by (simp add: p(2) count_list_replicate)
qed

lemma outside_port:
  assumes "port_exec m x q = Some u" and "outside x"
  shows "pconsumers u = pconsumers q \<and> ownerTokens q \<le> ownerTokens u"
  using assms by (cases x) (auto simp: port_exec_def port_ops outside_def Let_def split: option.splits)

lemma consume_port:
  assumes "port_exec m (ConsumeStep p) q = Some u"
  shows "length (pconsumers u) = length (pconsumers q)" "ownerTokens q \<le> ownerTokens u"
    "running_pcon (pconsumers u ! r) \<Longrightarrow> r < length (pconsumers q) \<Longrightarrow> running_pcon (pconsumers q ! r)"
proof -
  have p: "p < length (pconsumers q)" and c: "consume_step m p q = Some u"
    using assms by (auto simp: port_exec_def split: if_splits)
  then have "\<exists>d. pconsumers u = (pconsumers q)[p := d] \<and> ownerTokens q \<le> ownerTokens u"
    by (auto simp: consume_step_def processCommands_def take_event_def finish_consume_def set_pcon_def
        scheduleOnOwner_def Let_def split: pconsumer.splits list.splits if_splits)
  then obtain d where d: "pconsumers u = (pconsumers q)[p := d]" "ownerTokens q \<le> ownerTokens u" by blast
  have "running_pcon (pconsumers q ! p)" using c by (cases "pconsumers q ! p") (simp_all add: consume_step_def)
  then show "running_pcon (pconsumers u ! r) \<Longrightarrow> r < length (pconsumers q) \<Longrightarrow> running_pcon (pconsumers q ! r)"
    by (cases "r = p") (simp_all add: d)
  show "length (pconsumers u) = length (pconsumers q)" "ownerTokens q \<le> ownerTokens u" using d by simp_all
qed

lemma inv_ctor:
  assumes inv: "runtime_inv s" and i: "i < length (rt_actors s)" and e: "aq_exec False CtorFinished (rt_actors s ! i) = Some b"
    and t: "set_actor h i b s = Inr t"
  shows "runtime_inv t"
proof -
  let ?a = "rt_actors s ! i" and ?p = "rt_priority s"
  note L = inv_layers [OF inv i]
  have jobs: "consumeJobs b - consumeJobs ?a = (if consumeJobs ?a < consumeJobs b then 1 else 0)"
    using e by (auto simp: aq_exec_def ctorFinished_def priority_schedule_consume_def Let_def split: if_splits)
  obtain p where p: "same_running ?p p" "actorQueue p = actorQueue ?p @ replicate (consumeJobs b - consumeJobs ?a) i"
    and tt: "t = s\<lparr>rt_priority := p, rt_actors := (rt_actors s)[i := b], rt_ports := (rt_ports s)[i := rt_ports s ! i],
      rt_frames := rt_frames s\<rparr>"
  proof (cases "consumeJobs ?a < consumeJobs b")
    case True
    then obtain p where "schedule h i ?p = Inr p" "t = s\<lparr>rt_priority := p, rt_actors := (rt_actors s)[i := b]\<rparr>"
      using t by (auto simp: set_actor_def Let_def map_sum_Inr)
    then show ?thesis using that [of p] schedule_jobs jobs True by simp
  next
    case False
    then show ?thesis using that [of ?p] t by (simp add: set_actor_def)
  qed
  have same: "executes t i = executes s i"
    using p(1) by (auto simp: executes_def tt same_running_def fun_eq_iff)
  have "layers_ok (executes s i) (count_list (actorQueue p) i) b (rt_ports s ! i)"
    by (rule layers_ctor [OF L e]) (simp add: p(2) count_list_replicate)
  then show ?thesis using inv_update [OF inv i p(1) _ refl _ tt] same by (simp add: p(2) count_list_replicate)
qed

text \<open>A dispatcher goes on inside the job of an actor.\<close>

lemma executes_frame: "executes s i k f \<Longrightarrow> executes s i k g \<longleftrightarrow> g = f"
  by (auto simp: executes_def)

lemma inv_frame:
  assumes inv: "runtime_inv s" and i: "i < length (rt_actors s)" and k: "executes s i k f"
    and t: "t = s\<lparr>rt_actors := (rt_actors s)[i := b], rt_ports := (rt_ports s)[i := q], rt_frames := (rt_frames s)[k := g]\<rparr>"
    and ok: "layers_ok (move k g (executes s i)) (count_list (actorQueue (rt_priority s)) i) b q"
  shows "runtime_inv t"
proof -
  have kl: "k < length (rt_frames s)" using inv k by (auto simp: runtime_inv_def executes_def)
  have tt: "t = s\<lparr>rt_priority := rt_priority s, rt_actors := (rt_actors s)[i := b], rt_ports := (rt_ports s)[i := q],
      rt_frames := (rt_frames s)[k := g]\<rparr>" using t by simp
  have ex: "executes t i = move k g (executes s i)"
    using k kl by (auto simp: t executes_def move_iff fun_eq_iff nth_list_update)
  show ?thesis
  proof (rule inv_update [OF inv i same_running_refl refl _ _ tt])
    fix l assume "l < length ((rt_frames s)[k := g])"
    show "(rt_frames s)[k := g] ! l = rt_frames s ! l \<or> dispatchers (rt_priority s) ! l = Running i"
      using k by (cases "l = k") (auto simp: executes_def)
  next
    show "layers_ok (executes t i) (count_list (actorQueue (rt_priority s)) i) b q" using ok by (simp only: ex)
  qed simp
qed

lemma inv_work:
  assumes inv: "runtime_inv s" and k: "k < length (dispatchers (rt_priority s))" "dispatchers (rt_priority s) ! k = Running i"
    and i: "i < length (rt_actors s)" and w: "work_step h k i s = Some (Inr t)"
  shows "runtime_inv t"
proof -
  let ?a = "rt_actors s ! i" and ?q = "rt_ports s ! i"
  note L = inv_layers [OF inv i]
  note D = layers_okD [OF L]
  have x: "executes s i k (rt_frames s ! k)" using k by (simp add: executes_def)
  have li: "i < length (rt_ports s)" using inv i by (simp add: runtime_inv_def)
  have idq: "(rt_ports s)[i := ?q] = rt_ports s" and ida: "(rt_actors s)[i := ?a] = rt_actors s" by simp_all
  show ?thesis
  proof (cases "rt_frames s ! k")
    case FNone
    then obtain b where b: "aq_exec False BeginConsume ?a = Some b" "t = s\<lparr>rt_actors := (rt_actors s)[i := b],
        rt_ports := (rt_ports s)[i := ?q], rt_frames := (rt_frames s)[k := FActor (length (consumers ?a))]\<rparr>"
      using w by (auto simp: work_step_def Let_def)
    show ?thesis
      by (rule inv_frame [OF inv i x b(2) layers_begin [OF L _ b(1)]]) (use executes_frame [OF x] FNone in auto)
  next
    case (FActor c)
    have xc: "executes s i k (FActor c)" using x FActor by simp
    show ?thesis
    proof (cases "consumers ?a ! c")
      case AtLock
      then obtain b where b: "aq_exec False (ConsumerStep c) ?a = Some b" "t = s\<lparr>rt_actors := (rt_actors s)[i := b],
          rt_ports := (rt_ports s)[i := ?q], rt_frames := (rt_frames s)[k := FActor c]\<rparr>"
        using w FActor by (auto simp: work_step_def Let_def)
      have "move k (FActor c) (executes s i) = executes s i"
        using executes_frame [OF xc] by (auto simp: move_iff fun_eq_iff)
      then show ?thesis
        using inv_frame [OF inv i x b(2)] layers_lock [OF L xc AtLock b(1)] by simp
    next
      case (CallingBack cb)
      then obtain q where q: "port_exec int_max OwnerBegins ?q = Some q" "t = s\<lparr>rt_actors := (rt_actors s)[i := ?a],
          rt_ports := (rt_ports s)[i := q], rt_frames := (rt_frames s)[k := FPort c (length (pconsumers ?q))]\<rparr>"
        using w FActor ida by (auto simp: work_step_def Let_def)
      show ?thesis
        by (rule inv_frame [OF inv i x q(2) layers_port_begin [OF L _ _ q(1)]])
          (use CallingBack executes_frame [OF xc] in auto)
    next
      case Returned
      then show ?thesis using w FActor by (simp add: work_step_def)
    qed
  next
    case (FPort c p)
    have xp: "executes s i k (FPort c p)" using x FPort by simp
    show ?thesis
    proof (cases "running_pcon (pconsumers ?q ! p)")
      case True
      then obtain q where q: "port_exec int_max (ConsumeStep p) ?q = Some q" "set_port h i q s = Inr t"
        using w FPort by (cases "pconsumers ?q ! p") (auto simp: work_step_def Let_def)
      show ?thesis
        by (rule inv_set_port [OF inv i q(2) reach_port [OF D(3) q(1)]]) (use consume_port [OF q(1)] in auto)
    next
      case False
      then obtain b where b: "aq_exec False (ConsumerStep c) ?a = Some b" "t = s\<lparr>rt_actors := (rt_actors s)[i := b],
          rt_ports := (rt_ports s)[i := ?q], rt_frames := (rt_frames s)[k := FActor c]\<rparr>"
        using w FPort idq by (cases "pconsumers ?q ! p") (auto simp: work_step_def Let_def)
      show ?thesis
        by (rule inv_frame [OF inv i x b(2) layers_port_done [OF L _ False b(1)]]) (use executes_frame [OF xp] in auto)
    qed
  qed
qed

text \<open>A dispatcher goes on in its loop.\<close>

lemma inv_dispatch:
  assumes inv: "runtime_inv s" and k: "k < length (dispatchers (rt_priority s))" and jd: "job_done k s"
    and d: "dispatcherLoop k (rt_priority s) = Some p"
    and t: "t = s\<lparr>rt_priority := p, rt_frames := (rt_frames s)[k := FNone]\<rparr>"
  shows "runtime_inv t"
proof -
  let ?p = "rt_priority s"
  have l: "length (rt_frames s) = length (dispatchers ?p)" "length (rt_ports s) = length (rt_actors s)"
    and idle: "\<And>l. l < length (rt_frames s) \<Longrightarrow> \<not> is_running (dispatchers ?p ! l) \<Longrightarrow> rt_frames s ! l = FNone"
    using inv by (auto simp: runtime_inv_def)
  have frame: "(rt_frames s)[k := FNone] ! m = (if m = k then FNone else rt_frames s ! m)" for m
    using k l(1) by (auto simp: nth_list_update)
  have goal: "runtime_inv t" if c: "dispatchers p = (dispatchers ?p)[k := c]"
    and ok: "\<And>i. i < length (rt_actors s) \<Longrightarrow> layers_ok (executes t i) (count_list (actorQueue p) i) (rt_actors s ! i) (rt_ports s ! i)" for c
    unfolding runtime_inv_def using l idle ok k
    by (auto simp: t c nth_list_update)
  have ex: "executes t i m f \<longleftrightarrow> (if m = k then c = Running i \<and> f = FNone else executes s i m f)"
    if "dispatchers p = (dispatchers ?p)[k := c]" for c i m f
    using k by (auto simp: executes_def t that frame nth_list_update)
  from d show ?thesis
  proof (cases rule: dispatch_jobs)
    case (leaves i)
    then have p: "dispatchers p = (dispatchers ?p)[k := LoopEntry]" "actorQueue p = actorQueue ?p"
      by (simp_all add: set_pc_def)
    obtain c where i: "i < length (rt_actors s)" and f: "rt_frames s ! k = FActor c" "consumers (rt_actors s ! i) ! c = Returned"
      using jd leaves(1) by (auto simp: job_done_def split: frame.splits)
    have x: "executes s i k (FActor c)" using k leaves(1) f(1) by (simp add: executes_def)
    show ?thesis
    proof (rule goal [OF p(1)])
      fix j assume j: "j < length (rt_actors s)"
      have "executes t j = (if j = i then (executes s i)(k := (\<lambda>f. False)) else executes s j)"
        unfolding fun_eq_iff ex [OF p(1)] using leaves(1) by (auto simp: executes_def)
      moreover have "layers_ok ((executes s i)(k := (\<lambda>f. False))) (count_list (actorQueue ?p) i) (rt_actors s ! i) (rt_ports s ! i)"
        by (rule layers_leave [OF inv_layers [OF inv i] _ f(2)]) (use executes_frame [OF x] in auto)
      ultimately show "layers_ok (executes t j) (count_list (actorQueue p) j) (rt_actors s ! j) (rt_ports s ! j)"
        using inv_layers [OF inv j] by (simp add: p(2))
    qed
  next
    case (moves c)
    show ?thesis
    proof (rule goal [OF moves(3)])
      fix j assume j: "j < length (rt_actors s)"
      have "executes t j = executes s j"
        unfolding fun_eq_iff ex [OF moves(3)] using moves(1,2) by (auto simp: executes_def)
      then show "layers_ok (executes t j) (count_list (actorQueue p) j) (rt_actors s ! j) (rt_ports s ! j)"
        using inv_layers [OF inv j] by (simp add: moves(4))
    qed
  next
    case (takes i js)
    show ?thesis
    proof (rule goal [OF takes(4)])
      fix j assume j: "j < length (rt_actors s)"
      note L = inv_layers [OF inv j]
      show "layers_ok (executes t j) (count_list (actorQueue p) j) (rt_actors s ! j) (rt_ports s ! j)"
      proof (cases "j = i")
        case True
        have no: "\<not> executes s j k f" for f using takes(1) by (auto simp: executes_def)
        have "executes t j = move k FNone (executes s j)"
          unfolding fun_eq_iff ex [OF takes(4)] using True by (auto simp: move_iff)
        moreover have "count_list (actorQueue ?p) j = Suc (count_list (actorQueue p) j)"
          using True by (simp add: takes(2,3))
        ultimately show ?thesis using layers_take [of "executes s j", OF _ no] L by simp
      next
        case False
        have "executes t j = executes s j"
          unfolding fun_eq_iff ex [OF takes(4)] using takes(1) False by (auto simp: executes_def)
        then show ?thesis using L False by (simp add: takes(2,3))
      qed
    qed
  qed
qed

lemma inv_exec:
  assumes inv: "runtime_inv s" and e: "runtime_exec h E x s = Some (Inr t)"
  shows "runtime_inv t"
proof (cases x)
  case (CallPort c i a)
  then obtain q where i: "i < length (rt_ports s)" and o: "outside a"
    and q: "port_exec int_max a (rt_ports s ! i) = Some q" and t: "set_port h i q s = Inr t"
    using e by (auto simp: runtime_exec_def split: if_splits)
  have i': "i < length (rt_actors s)" using inv i by (simp add: runtime_inv_def)
  have r: "port_reachable int_max q" using reach_port [OF layers_okD(3) [OF inv_layers [OF inv i']] q] .
  show ?thesis by (rule inv_set_port [OF inv i' t r]) (use outside_port [OF q o] in simp_all)
next
  case (FinishCtor c i)
  with e inv inv_ctor show ?thesis by (auto simp: runtime_exec_def split: if_splits)
next
  case (Work k)
  with e inv inv_work show ?thesis by (auto simp: runtime_exec_def split: if_splits dpc.splits)
next
  case (PriorityAction a)
  show ?thesis
  proof (cases "\<exists>k. a = Dispatch k")
    case True
    then obtain k p where "k < length (dispatchers (rt_priority s))" "job_done k s" "dispatcherLoop k (rt_priority s) = Some p"
      "t = s\<lparr>rt_priority := p, rt_frames := (rt_frames s)[k := FNone]\<rparr>"
      using e PriorityAction by (auto simp: runtime_exec_def exec_def map_sum_Inr split: if_splits)
    then show ?thesis using inv_dispatch [OF inv] by blast
  next
    case False
    then have "\<exists>p. exec h a (rt_priority s) = Some (Inr p) \<and> t = s\<lparr>rt_priority := p\<rparr>"
      using e PriorityAction by (cases a) (auto simp: runtime_exec_def map_sum_Inr)
    moreover have "\<And>c j. a \<noteq> CallSchedule c j" using e PriorityAction by (auto simp: runtime_exec_def)
    ultimately show ?thesis using exec_jobs [of h a] False inv_priority [OF inv] by blast
  qed
qed

section \<open>Reachable states\<close>

lemma layers_init: "(\<And>k f. \<not> X k f) \<Longrightarrow> layers_ok X 0 actor_init port_init"
  by (auto simp: layers_ok_def tokens_ok_def frames_ok_def actor_init_def port_init_def)

lemma runtime_init_inv: "runtime_inv (runtime_init n N)"
  by (auto intro!: layers_init simp: runtime_inv_def executes_def runtime_init_def priority_init_def)

lemma runtime_reachable_inv:
  assumes "runtime_reachable h n N E s"
  shows "runtime_inv s \<and> length (rt_actors s) = N"
  using assms
proof induction
  case init
  show ?case by (simp add: runtime_init_inv) (simp add: runtime_init_def)
next
  case (step s x t)
  have len: "length (rt_actors u) = length (rt_actors s)" if "set_actor h i a s = Inr u" for h i a and s u :: "('m, 'e, 'cb) runtime"
    using that by (auto simp: set_actor_def map_sum_Inr Let_def split: if_splits)
  have len2: "length (rt_actors u) = length (rt_actors s)" if "set_port h i q s = Inr u" for h i q and s u :: "('m, 'e, 'cb) runtime"
    using that len by (fastforce simp: set_port_def Let_def split: if_splits)
  have "length (rt_actors t) = length (rt_actors s)"
    using step.hyps(2) len len2
    by (cases x) (auto simp: runtime_exec_def work_step_def map_sum_Inr Let_def
        split: if_splits dpc.splits frame.splits consumer.splits pconsumer.splits action.splits)
  with inv_exec [OF _ step.hyps(2)] step.IH show ?case by blast
qed

end
