(* ===== verification/Runtime_Properties.thy ===== *)
theory Runtime_Properties
  imports Runtime_Invariants
begin

text \<open>
  What the layers give together: properties that no layer has alone. They rest on the invariant of
  \<^verbatim>\<open>Runtime_Invariants\<close> and on the properties of the single layers.
\<close>

section \<open>The priority inside the runtime\<close>

lemma set_actor_priority:
  assumes "set_actor h i a s = Inr t"
  shows "rt_priority t = rt_priority s \<or> schedule h i (rt_priority s) = Inr (rt_priority t)"
  using assms by (auto simp: set_actor_def map_sum_Inr Let_def split: if_splits)

lemma set_port_priority:
  assumes "set_port h i q s = Inr t"
  shows "rt_priority t = rt_priority s \<or> schedule h i (rt_priority s) = Inr (rt_priority t)"
  using assms by (auto simp: set_port_def Let_def dest: set_actor_priority split: if_splits)

lemma in_event_running:
  assumes "in_event k s"
  shows "may_schedule (Dispatcher k) (rt_priority s)"
  using assms by (auto simp: in_event_def may_schedule_def split: dpc.splits frame.splits)

lemma may_call_schedule:
  assumes "may_call E c s" and "schedule h i (rt_priority s) = Inr p"
  shows "exec h (CallSchedule c i) (rt_priority s) = Some (Inr p) \<and> allowed E (CallSchedule c i) (rt_priority s)"
  using assms in_event_running
  by (cases c) (auto simp: may_call_def exec_def allowed_def may_schedule_def)

lemma runtime_exec_priority:
  assumes e: "runtime_exec h E x s = Some (Inr t)"
  shows "rt_priority t = rt_priority s \<or>
    (\<exists>b. exec h b (rt_priority s) = Some (Inr (rt_priority t)) \<and> allowed E b (rt_priority s) \<and>
      (\<forall>c j. b = CallSchedule c j \<longrightarrow> j < length (rt_ports s) \<or> j < length (rt_actors s)))"
proof (cases x)
  case (CallPort c i a)
  then obtain q where m: "may_call E c s" and i: "i < length (rt_ports s)" and q: "set_port h i q s = Inr t"
    using e by (auto simp: runtime_exec_def split: if_splits)
  show ?thesis using set_port_priority [OF q] may_call_schedule [OF m] i by (metis action.inject(2))
next
  case (FinishCtor c i)
  then obtain a where m: "may_call E c s" and i: "i < length (rt_actors s)" and a: "set_actor h i a s = Inr t"
    using e by (auto simp: runtime_exec_def split: if_splits)
  show ?thesis using set_actor_priority [OF a] may_call_schedule [OF m] i by (metis action.inject(2))
next
  case (Work k)
  then obtain i where k: "k < length (dispatchers (rt_priority s))" "dispatchers (rt_priority s) ! k = Running i"
    and i: "i < length (rt_actors s)" and w: "work_step h k i s = Some (Inr t)"
    using e by (auto simp: runtime_exec_def split: if_splits dpc.splits)
  have "rt_priority t = rt_priority s \<or> (\<exists>q. set_port h i q s = Inr t)"
    using w by (auto simp: work_step_def Let_def split: frame.splits consumer.splits pconsumer.splits)
  then show ?thesis
  proof
    assume "\<exists>q. set_port h i q s = Inr t"
    then obtain q where q: "set_port h i q s = Inr t" ..
    have x: "exec h (CallSchedule (Dispatcher k) i) (rt_priority s) = Some (schedule h i (rt_priority s))"
      using k by (simp add: exec_def may_schedule_def)
    show ?thesis
    proof (cases "rt_priority t = rt_priority s")
      case False
      then show ?thesis using x set_port_priority [OF q] i
        by (intro disjI2 exI [of _ "CallSchedule (Dispatcher k) i"]) (simp add: allowed_def)
    qed simp
  qed simp
next
  case (PriorityAction a)
  then have "exec h a (rt_priority s) = Some (Inr (rt_priority t)) \<and> allowed E a (rt_priority s) \<and>
      (\<forall>c j. a \<noteq> CallSchedule c j)"
    using e by (cases a) (auto simp: runtime_exec_def allowed_def map_sum_Inr split: if_splits)
  then show ?thesis by blast
qed

lemma runtime_reachable_priority:
  assumes "runtime_reachable h n N E s"
  shows "reachable h n E (rt_priority s)"
  using assms
proof induction
  case init
  show ?case by (simp add: runtime_init_def reachable.init)
next
  case (step s x t)
  with runtime_exec_priority [OF step.hyps(2)] show ?case by (metis reachable.step prio_step.step)
qed

section \<open>Nothing left to do\<close>

text \<open>All messages and all listen and unlisten commands of a port have been dealt with.\<close>

definition all_handled :: "('m, 'e, 'cb) port \<Rightarrow> bool" where
  "all_handled q \<longleftrightarrow> pt_eventQueue q = [] \<and> poppedEvents q = postedEvents q \<and>
     issuedLog q = executedLog q @ pt_commandsQueue q \<and> (\<forall>c \<in> set (pt_commandsQueue q). \<not> schedules c) \<and>
     (\<forall>c \<in> set (pconsumers q). \<not> running_pcon c)"

lemma quiet_handled:
  assumes inv: "runtime_inv s" and i: "i < length (rt_actors s)" and live: "phase_of (rt_actors s ! i) = Live"
    and q: "actorQueue (rt_priority s) = []" and d: "\<forall>c \<in> set (dispatchers (rt_priority s)). \<not> is_running c"
  shows "callBackQueue (rt_actors s ! i) = [] \<and> all_handled (rt_ports s ! i) \<and>
    phase_of (waitForReadyToDtor (rt_actors s ! i)) = DtorLocked"
proof -
  let ?a = "rt_actors s ! i" and ?p = "rt_ports s ! i"
  note D = layers_okD [OF inv_layers [OF inv i]]
  have no: "\<not> executes s i k f" for k f
    using d by (metis executes_def is_running.simps(1) nth_mem)
  have a: "consumeJobs ?a = 0" using D(4) no q by auto
  have "count_if running_consumer (consumers ?a) = 0"
    using D(5) no by (auto simp: count_if_def filter_empty_conv in_set_conv_nth)
  then have cb: "callBackQueue ?a = []" and fl: "\<not> scheduled_flag ?a"
    using aq_reachable_handshake [OF D(1)] a live by (auto simp: handshake_ok_def aq_view_def split: if_splits)
  then have tk: "ownerTokens ?p = 0" using D(6) no by auto
  have idle: "\<forall>c \<in> set (pconsumers ?p). \<not> running_pcon c" using D(7) no by (auto simp: in_set_conv_nth)
  then have "count_if running_pcon (pconsumers ?p) = 0" by (simp add: count_if_def filter_empty_conv)
  then have w: "work (port_view ?p) = 0"
    using port_reachable_handshake [OF D(3)] tk by (auto simp: handshake_ok_def port_view_def split: if_splits)
  then have e: "pt_eventQueue ?p = []" "\<forall>c \<in> set (pt_commandsQueue ?p). \<not> schedules c"
    by (auto simp: port_view_def count_if_def filter_empty_conv)
  have "port_inv ?p" by (rule port_reachable_inv [OF D(3)])
  moreover have "concat (map pc_cmd (pconsumers ?p)) = []" using idle not_running_cmd by auto
  ultimately have "poppedEvents ?p = postedEvents ?p" "issuedLog ?p = executedLog ?p @ pt_commandsQueue ?p"
    using e(1) by (simp_all add: port_inv_def)
  with cb fl e idle show ?thesis by (simp add: all_handled_def waitForReadyToDtor_def)
qed

section \<open>A concrete session\<close>

text \<open>One dispatcher, one actor that listens in its constructor; then start and the wait for idle.\<close>

definition demo_runtime_steps :: "(nat, nat, nat) runtime_action list" where
  "demo_runtime_steps = [CallPort External 0 (Listen 5 1 70), FinishCtor External 0, PriorityAction CallStart,
     PriorityAction Client, PriorityAction (Dispatch 0), PriorityAction (Dispatch 0), PriorityAction Client,
     PriorityAction CallWaitForIdle, PriorityAction (Dispatch 0), Work 0, Work 0, Work 0]"

definition demo_runtime_rest :: "(nat, nat, nat) runtime_action list" where
  "demo_runtime_rest = [Work 0, Work 0, Work 0, Work 0, Work 0, Work 0,
     PriorityAction (Dispatch 0), PriorityAction (Dispatch 0)]"

definition demo_runtime_middle :: "(nat, nat, nat) runtime" where
  "demo_runtime_middle = \<lparr>rt_priority = \<lparr>pstate = RUNNING, dispatchers = [Running 0], actorQueue = [], startCount = 0,
       sleepingCount = 0, client = CIdleWait False, inDtor = False, scheduledLog = [0], takenLog = [(0, 0)]\<rparr>,
     rt_actors = [\<lparr>callBackQueue = [], scheduled_flag = True, consumeJobs = 0, consumers = [CallingBack ()],
       phase_of = Live, postedLog = [()], begunLog = [()]\<rparr>],
     rt_ports = [\<lparr>pt_handleCounter = 0, pt_callbacks = Map.empty, pt_eventQueue = [], pt_commandsQueue = [CListen 1 5 70],
       pt_scheduled = True, ownerTokens = 0, netListens = [], pconsumers = [PTest 0], issuedLog = [CListen 1 5 70],
       executedLog = [], postedEvents = [], poppedEvents = [], callLog = []\<rparr>],
     rt_frames = [FPort 0 0]\<rparr>"

lemmas runtime_defs = runtime_exec_def may_call_def outside_def set_port_def set_actor_def work_step_def job_done_def
  port_exec_def port_ops aq_exec_def aq_ops exec_def core_defs Let_def

lemma demo_runtime_first:
  "START \<in> E \<Longrightarrow> runtime_run h E demo_runtime_steps (runtime_init 1 1) = Some (Inr demo_runtime_middle)"
  by (simp add: demo_runtime_steps_def runtime_init_def priority_init_def actor_init_def port_init_def runtime_defs
      demo_runtime_middle_def)

lemma demo_runtime_middle_reach: "START \<in> E \<Longrightarrow> runtime_reachable h 1 1 E demo_runtime_middle"
  by (rule runtime_run_reachable [OF demo_runtime_first runtime_reachable.init])

definition demo_runtime_idle :: "(nat, nat, nat) runtime" where
  "demo_runtime_idle = \<lparr>rt_priority = \<lparr>pstate = RUNNING, dispatchers = [Sleeping False], actorQueue = [], startCount = 0,
       sleepingCount = 1, client = CIdleWait True, inDtor = False, scheduledLog = [0], takenLog = [(0, 0)]\<rparr>,
     rt_actors = [\<lparr>callBackQueue = [], scheduled_flag = False, consumeJobs = 0, consumers = [Returned],
       phase_of = Live, postedLog = [()], begunLog = [()]\<rparr>],
     rt_ports = [\<lparr>pt_handleCounter = 0, pt_callbacks = [5 \<mapsto> [(1, 70)]], pt_eventQueue = [], pt_commandsQueue = [],
       pt_scheduled = False, ownerTokens = 0, netListens = [5], pconsumers = [PDone 0], issuedLog = [CListen 1 5 70],
       executedLog = [CListen 1 5 70], postedEvents = [], poppedEvents = [], callLog = []\<rparr>],
     rt_frames = [FNone]\<rparr>"

lemma demo_runtime_second:
  "runtime_run h E demo_runtime_rest demo_runtime_middle = Some (Inr demo_runtime_idle)"
  by (simp add: demo_runtime_rest_def demo_runtime_middle_def runtime_defs demo_runtime_idle_def
      table_add_def vector_add_def)

lemma demo_runtime_idle_reach: "START \<in> E \<Longrightarrow> runtime_reachable h 1 1 E demo_runtime_idle"
  by (rule runtime_run_reachable [OF demo_runtime_second demo_runtime_middle_reach])

section \<open>Properties\<close>

text \<open>
  C12: what \<^verbatim>\<open>Core::run\<close> relies on when it delays the start until the priority is idle: if
  only callbacks schedule while the priority runs, then whenever \<^verbatim>\<open>waitForIdle\<close> returns,
  every constructed actor has an empty queue, and its port has handled every message and executed every listen
  and unlisten, those issued by callbacks included.
\<close>

theorem idle_means_all_handled:
  assumes "runtime_reachable h n N E s" and "obeys_contract h" and "0 < n" and "E \<inter> {RUNNING, STOPPING} = {}"
    and "client (rt_priority s) = CIdleWait b \<and> exec h Client (rt_priority s) = Some (Inr p') \<or>
      client (rt_priority s) = CIdle \<and> exec h CallWaitForIdle (rt_priority s) = Some (Inr p')"
    and "client p' = CIdle" and "i < N" and "phase_of (rt_actors s ! i) = Live"
  shows "callBackQueue (rt_actors s ! i) = [] \<and> all_handled (rt_ports s ! i)"
proof -
  have inv: "runtime_inv s" and N: "length (rt_actors s) = N" using runtime_reachable_inv [OF assms(1)] by simp_all
  have reach: "reachable h n E (rt_priority s)" by (rule runtime_reachable_priority [OF assms(1)])
  have out: "\<forall>c \<in> set (dispatchers (rt_priority s)). out_of_work c"
    using idle_return [OF assms(5,6)] counts_all_out [OF reachable_counts [OF reach]] by simp
  then have "actorQueue (rt_priority s) = []"
    using reachable_busy [OF reach assms(2-4)] by (auto simp: busy_ok_def)
  then show ?thesis using quiet_handled [OF inv _ assms(8)] out out_of_work_not_running assms(7) N by blast
qed

lemma idle_means_all_handled_witness:
  "\<exists>p. exec onErrorFunc Client (rt_priority demo_runtime_idle) = Some (Inr p) \<and> client p = CIdle \<and>
     all_handled (rt_ports demo_runtime_idle ! 0)"
proof -
  let ?p = "(rt_priority demo_runtime_idle)\<lparr>client := CIdle\<rparr>"
  have e: "exec onErrorFunc Client (rt_priority demo_runtime_idle) = Some (Inr ?p)"
    by (simp add: exec_def client_section_def demo_runtime_idle_def)
  have "all_handled (rt_ports demo_runtime_idle ! 0)"
    using idle_means_all_handled [OF demo_runtime_idle_reach [of "{START}" onErrorFunc], of True ?p 0] e
    by (simp add: demo_runtime_idle_def)
  with e show ?thesis by simp
qed

text \<open>
  C14: no message is lost at the stop: when the priority is stopped, every constructed actor has handled every
  message ever posted to its port, however the threads were interleaved, and its destructor does not wait.
\<close>

theorem stopped_means_all_handled:
  assumes "runtime_reachable h n N E s" and "obeys_contract h" and "pstate (rt_priority s) = STOPPED"
    and "i < N" and "phase_of (rt_actors s ! i) = Live"
  shows "callBackQueue (rt_actors s ! i) = [] \<and> all_handled (rt_ports s ! i) \<and>
    phase_of (waitForReadyToDtor (rt_actors s ! i)) = DtorLocked"
proof -
  have inv: "runtime_inv s" and N: "length (rt_actors s) = N" using runtime_reachable_inv [OF assms(1)] by simp_all
  have ph: "phase_ok (rt_priority s)" by (rule reachable_phase [OF runtime_reachable_priority [OF assms(1)] assms(2)])
  then have "actorQueue (rt_priority s) = []" using assms(3) by (simp add: phase_ok_def)
  then show ?thesis using quiet_handled [OF inv _ assms(5)] stopped_quiet [OF ph assms(3)] assms(4) N by blast
qed

lemma stopped_means_all_handled_witness:
  "\<exists>s. runtime_run onErrorFunc {START} [PriorityAction Client, PriorityAction CallStop, PriorityAction SpuriousClient,
       PriorityAction Client] demo_runtime_idle = Some (Inr s) \<and>
     pstate (rt_priority s) = STOPPED \<and> all_handled (rt_ports s ! 0)"
proof -
  obtain s where s: "runtime_run onErrorFunc {START} [PriorityAction Client, PriorityAction CallStop,
      PriorityAction SpuriousClient, PriorityAction Client] demo_runtime_idle = Some (Inr s)"
    "pstate (rt_priority s) = STOPPED" "phase_of (rt_actors s ! 0) = Live"
    by (simp add: runtime_exec_def exec_def core_defs all_done_def demo_runtime_idle_def Let_def)
  from stopped_means_all_handled [OF runtime_run_reachable [OF s(1) demo_runtime_idle_reach] _ s(2) _ s(3)] s(1,2)
  show ?thesis by simp
qed

text \<open>
  C18: actors are single threaded: two dispatchers are never inside \<^verbatim>\<open>consume\<close> of the same
  actor, however ports, actors and the priority are interleaved; a dispatcher that has returned from it but
  not yet gone back to its loop is not inside.
\<close>

theorem actor_on_one_dispatcher:
  assumes "runtime_reachable h n N E s" and "i < N"
    and "executes s i k f" and "frame_consumer f = Some c" and "consumers (rt_actors s ! i) ! c \<noteq> Returned"
    and "executes s i l g" and "frame_consumer g = Some d" and "consumers (rt_actors s ! i) ! d \<noteq> Returned"
  shows "k = l"
proof -
  let ?a = "rt_actors s ! i"
  have "runtime_inv s" "i < length (rt_actors s)" using runtime_reachable_inv [OF assms(1)] assms(2) by simp_all
  note D = layers_okD [OF inv_layers [OF this]]
  have c: "c < length (consumers ?a)" "d < length (consumers ?a)" using D(8) assms(3,4,6,7) by blast+
  have "count_if running_consumer (consumers ?a) \<le> 1"
    using handshake_exclusive [OF aq_reachable_handshake [OF D(1)]] by (simp add: aq_view_def)
  then have "d = c"
    using count_if_unique [of running_consumer "consumers ?a"] c assms(5,8) by (simp add: running_consumer_def)
  then show ?thesis using D(10) assms(3,4,6,7) by blast
qed

lemma actor_on_one_dispatcher_witness: "{l. executes demo_runtime_middle 0 l (FPort 0 0)} = {0}"
proof -
  have x: "executes demo_runtime_middle 0 0 (FPort 0 0)" by (simp add: executes_def demo_runtime_middle_def)
  have "l = 0" if "executes demo_runtime_middle 0 l (FPort 0 0)" for l
    using actor_on_one_dispatcher [OF demo_runtime_middle_reach [of UNIV] _ that _ _ x]
    by (simp add: demo_runtime_middle_def)
  with x show ?thesis by blast
qed

text \<open>While a dispatcher executes a job nothing in the layers below can fail.\<close>

lemma set_actor_ok:
  assumes "pstate (rt_priority s) \<noteq> STOPPED"
  shows "set_actor h i a s \<noteq> Inl e"
  using assms by (auto simp: set_actor_def schedule_def Let_def split: if_splits)

lemma set_port_ok:
  assumes "pstate (rt_priority s) \<noteq> STOPPED"
  shows "set_port h i q s \<noteq> Inl e"
  using assms set_actor_ok [of "s\<lparr>rt_ports := (rt_ports s)[i := q]\<rparr>"] by (auto simp: set_port_def Let_def split: if_splits)

lemma running_not_stopped:
  assumes "runtime_reachable h n N E s" and "obeys_contract h" and "may_schedule (Dispatcher k) (rt_priority s)"
  shows "pstate (rt_priority s) \<noteq> STOPPED"
  using stopped_quiet [OF reachable_phase [OF runtime_reachable_priority [OF assms(1)] assms(2)]] assms(3) nth_mem
  by (fastforce simp: may_schedule_def)

text \<open>
  C28: a callback may always publish, listen and unlisten, on any actor: in every reachable state, also
  while the priority is being stopped, no call of a port from a callback ends in an error of the layers
  below, the refusal of a stopped priority included.
\<close>

theorem callback_calls_never_fail:
  assumes "runtime_reachable h n N E s" and "obeys_contract h"
  shows "runtime_exec h E (CallPort (Dispatcher k) i a) s \<noteq> Some (Inl e)"
proof
  assume x: "runtime_exec h E (CallPort (Dispatcher k) i a) s = Some (Inl e)"
  then have "in_event k s" and "\<exists>q. set_port h i q s = Inl e"
    by (auto simp: runtime_exec_def may_call_def split: if_splits)
  then show False
    using set_port_ok running_not_stopped [OF assms in_event_running] by blast
qed

lemma callback_calls_never_fail_witness:
  "\<exists>s r. runtime_run onErrorFunc UNIV [PriorityAction Client, CallPort External 0 (Schedule (5, 30)),
       PriorityAction (Dispatch 0), Work 0, Work 0, Work 0, Work 0, Work 0] demo_runtime_idle = Some (Inr s) \<and>
     runtime_exec onErrorFunc UNIV (CallPort (Dispatcher 0) 0 (Listen 6 2 71)) s = Some r \<and> (\<forall>e. r \<noteq> Inl e)"
proof -
  obtain s r where s: "runtime_run onErrorFunc UNIV [PriorityAction Client, CallPort External 0 (Schedule (5, 30)),
       PriorityAction (Dispatch 0), Work 0, Work 0, Work 0, Work 0, Work 0] demo_runtime_idle = Some (Inr s)"
    "runtime_exec onErrorFunc UNIV (CallPort (Dispatcher 0) 0 (Listen 6 2 71)) s = Some r"
    by (simp add: runtime_defs in_event_def demo_runtime_idle_def int_max_def)
  have "runtime_reachable onErrorFunc 1 1 UNIV s"
    by (rule runtime_run_reachable [OF s(1) demo_runtime_idle_reach]) simp
  from callback_calls_never_fail [OF this, of 0 0 "Listen 6 2 71"] s show ?thesis by auto
qed

text \<open>The jobs of the priority are those of the actors.\<close>

lemma running_in_set:
  "Running j \<in> set (dispatchers p') \<Longrightarrow> same_running p p' \<Longrightarrow> Running j \<in> set (dispatchers p)"
  by (auto simp: same_running_def in_set_conv_nth)

lemma exec_jobs_ok:
  fixes p :: "nat prio"
  assumes e: "exec h b p = Some (Inr p')" and j: "\<And>c j. b = CallSchedule c j \<Longrightarrow> j < N"
    and q: "\<forall>j \<in> set (actorQueue p). j < N" and r: "\<forall>j. Running j \<in> set (dispatchers p) \<longrightarrow> j < N"
  shows "(\<forall>j \<in> set (actorQueue p'). j < N) \<and> (\<forall>j. Running j \<in> set (dispatchers p') \<longrightarrow> j < N)"
proof -
  consider (d) k where "b = Dispatch k" | (s) c i where "b = CallSchedule c i"
    | (o) "\<And>k. b \<noteq> Dispatch k" "\<And>c i. b \<noteq> CallSchedule c i" by (cases b) auto
  then show ?thesis
  proof cases
    case d
    then have "dispatcherLoop k p = Some p'" using e by (auto simp: exec_def split: if_splits)
    then show ?thesis
      by (cases rule: dispatch_jobs) (use q r in \<open>auto simp: set_pc_def dest!: set_update_cases\<close>)
  next
    case s
    then have "schedule h i p = Inr p'" using e by (auto simp: exec_def split: if_splits)
    from schedule_jobs [OF this] j [OF s] q r running_in_set show ?thesis by auto
  next
    case o
    with exec_jobs [OF e] q r running_in_set show ?thesis by auto
  qed
qed

lemma runtime_reachable_jobs:
  assumes "runtime_reachable h n N E s"
  shows "(\<forall>j \<in> set (actorQueue (rt_priority s)). j < N) \<and> (\<forall>j. Running j \<in> set (dispatchers (rt_priority s)) \<longrightarrow> j < N)"
  using assms
proof induction
  case init
  show ?case by (simp add: runtime_init_def priority_init_def)
next
  case (step s x t)
  have "length (rt_actors s) = N" "length (rt_ports s) = N"
    using runtime_reachable_inv [OF step.hyps(1)] by (simp_all add: runtime_inv_def)
  then have "rt_priority t = rt_priority s \<or> (\<exists>b. exec h b (rt_priority s) = Some (Inr (rt_priority t)) \<and>
      (\<forall>c j. b = CallSchedule c j \<longrightarrow> j < N))"
    using runtime_exec_priority [OF step.hyps(2)] by auto
  then show ?case
  proof (elim disjE exE conjE)
    fix b assume "exec h b (rt_priority s) = Some (Inr (rt_priority t))" "\<forall>c j. b = CallSchedule c j \<longrightarrow> j < N"
    then show ?thesis using exec_jobs_ok [of h b _ _ N] step.IH by blast
  qed (use step.IH in simp)
qed

lemma dispatcher_goes_on:
  assumes "runtime_reachable h n N E s" and "obeys_contract h" and "k < length (dispatchers (rt_priority s))"
    and "dispatchers (rt_priority s) ! k = Running i"
  shows "\<exists>x t. x \<in> {Work k, PriorityAction (Dispatch k)} \<and> runtime_exec h E x s = Some (Inr t)"
proof (cases "job_done k s")
  case True
  then have "runtime_exec h E (PriorityAction (Dispatch k)) s \<noteq> None \<and>
      (\<forall>e. runtime_exec h E (PriorityAction (Dispatch k)) s \<noteq> Some (Inl e))"
    using assms(3,4) by (simp add: runtime_exec_def exec_def dispatcherLoop_def)
  then show ?thesis by (metis insertI1 insert_commute not_None_eq old.sum.exhaust)
next
  case False
  have inv: "runtime_inv s" and N: "length (rt_actors s) = N" using runtime_reachable_inv [OF assms(1)] by simp_all
  have i: "i < length (rt_actors s)"
    using runtime_reachable_jobs [OF assms(1)] assms(3,4) nth_mem N by metis
  note D = layers_okD [OF inv_layers [OF inv i]]
  have x: "executes s i k (rt_frames s ! k)" using assms(3,4) by (simp add: executes_def)
  have ns: "pstate (rt_priority s) \<noteq> STOPPED"
    using running_not_stopped [OF assms(1,2), of k] assms(3,4) by (simp add: may_schedule_def)
  have port: "\<exists>t. map_option (\<lambda>q. set_port h i q s) (Some q) = Some (Inr t)" for q
    using set_port_ok [OF ns, of h i q] by (cases "set_port h i q s") auto
  have live: "phase_of (rt_actors s ! i) \<noteq> DtorLocked" using D(2) by auto
  have "\<exists>t. work_step h k i s = Some (Inr t)"
  proof (cases "rt_frames s ! k")
    case FNone
    then show ?thesis using D(12) [of k] x by (simp add: work_step_def aq_exec_def Let_def)
  next
    case (FActor c)
    then have c: "c < length (consumers (rt_actors s ! i))" using D(8) [OF x] by simp
    show ?thesis
    proof (cases "consumers (rt_actors s ! i) ! c")
      case AtLock
      then show ?thesis using FActor c live by (simp add: work_step_def aq_exec_def consumer_step_def Let_def)
    next
      case (CallingBack cb)
      then show ?thesis using FActor D(15) [of k c] x by (simp add: work_step_def port_exec_def Let_def)
    next
      case Returned
      then show ?thesis using False FActor assms(4) i by (simp add: job_done_def)
    qed
  next
    case (FPort c p)
    then have p: "p < length (pconsumers (rt_ports s ! i))" and c: "consumers (rt_actors s ! i) ! c = CallingBack ()"
      and cl: "c < length (consumers (rt_actors s ! i))" using D(8) [OF x] D(9) [of k c p] x by simp_all
    have "pconsumers (rt_ports s ! i) ! p \<noteq> PUndefined"
      using port_reachable_inv [OF D(3)] nth_mem [OF p] by (auto simp: port_inv_def)
    then show ?thesis
      using FPort p c cl live port
      by (cases "pconsumers (rt_ports s ! i) ! p")
        (auto simp: work_step_def port_exec_def consume_step_def aq_exec_def consumer_step_def Let_def)
  qed
  then show ?thesis using assms(3,4) i by (intro exI [of _ "Work k"]) (auto simp: runtime_exec_def)
qed

text \<open>
  C19: a dispatcher is never stuck inside a job: in every reachable state a dispatcher that executes the job of
  an actor can execute the next section of the actor, of its port or of its own loop, and this ends in no
  error; so the queues it finds are never empty when it needs an element, and the calls it was given are there.
\<close>

theorem dispatcher_never_stuck:
  assumes "runtime_reachable h n N E s" and "obeys_contract h" and "k < length (dispatchers (rt_priority s))"
    and "dispatchers (rt_priority s) ! k = Running i"
  shows "\<exists>x t. x \<in> {Work k, PriorityAction (Dispatch k)} \<and> runtime_exec h E x s = Some (Inr t)"
  by (rule dispatcher_goes_on [OF assms])

lemma dispatcher_never_stuck_witness:
  "\<exists>x t. x \<in> {Work 0, PriorityAction (Dispatch 0)} \<and>
     runtime_exec onErrorFunc {START} x demo_runtime_middle = Some (Inr t)"
  by (rule dispatcher_never_stuck [OF demo_runtime_middle_reach, of _ _ 0])
    (simp_all add: demo_runtime_middle_def)

section \<open>Destruction without a run\<close>

text \<open>A message, a listen or an unlisten waits in the port; the constructors of actors leave such listens.\<close>

definition port_waiting :: "('m, 'e, 'cb) port \<Rightarrow> bool" where
  "port_waiting q \<longleftrightarrow> pt_eventQueue q \<noteq> [] \<or> (\<exists>c \<in> set (pt_commandsQueue q). schedules c)"

lemma port_waiting_kept: "port_exec m a q = Some r \<Longrightarrow> outside a \<Longrightarrow> port_waiting q \<Longrightarrow> port_waiting r"
  by (cases a) (auto simp: port_exec_def outside_def port_ops port_waiting_def Let_def split: option.splits)

lemma not_started_kept:
  assumes "phase_ok p" and "pstate p = START" and "exec h b p = Some (Inr q)" and "obeys_contract h"
    and "b \<noteq> CallStart" and "b \<noteq> CallDestructor"
  shows "pstate q = START"
  using assms
  by (cases b) (auto simp: exec_def client_section_def phase_ok_def core_defs report_def obeys_contract_def Let_def
      split: if_splits option.splits cpc.splits dpc.splits list.splits)

lemma set_port_at:
  assumes "set_port h j q s = Inr t" and "i < length (rt_ports s)"
  shows "rt_ports t ! i = (if i = j then q else rt_ports s ! i)"
    "i < length (rt_actors s) \<Longrightarrow> phase_of (rt_actors t ! i) = phase_of (rt_actors s ! i)"
  using assms by (cases "i = j"; auto simp: set_port_def set_actor_def map_sum_Inr Let_def split: if_splits)+

lemma unstarted_step:
  assumes reach: "runtime_reachable h n N E s" and oc: "obeys_contract h" and st: "pstate (rt_priority s) = START"
    and i: "i < N" and live: "phase_of (rt_actors s ! i) = Live" and w: "port_waiting (rt_ports s ! i)"
    and e: "runtime_exec h E x s = Some (Inr t)" and x: "x \<notin> {PriorityAction CallStart, PriorityAction CallDestructor}"
  shows "pstate (rt_priority t) = START \<and> phase_of (rt_actors t ! i) = Live \<and> port_waiting (rt_ports t ! i)"
proof -
  have inv: "length (rt_ports s) = N" "length (rt_actors s) = N"
    using runtime_reachable_inv [OF reach] by (simp_all add: runtime_inv_def)
  have ph: "phase_ok (rt_priority s)" by (rule reachable_phase [OF runtime_reachable_priority [OF reach] oc])
  have sch: "pstate p = START" if "schedule h j (rt_priority s) = Inr p" for j p
    using that st by (auto simp: schedule_def notify_all_schedule_def Let_def split: if_splits)
  show ?thesis
  proof (cases x)
    case (CallPort c j a)
    then obtain q where q: "port_exec int_max a (rt_ports s ! j) = Some q" "outside a" and t: "set_port h j q s = Inr t"
      using e by (auto simp: runtime_exec_def split: if_splits)
    show ?thesis
      using set_port_at [OF t, of i] set_port_priority [OF t] sch st live w port_waiting_kept [OF q] i inv by auto
  next
    case (FinishCtor c j)
    then obtain a where a: "aq_exec False CtorFinished (rt_actors s ! j) = Some a" and t: "set_actor h j a s = Inr t"
      using e by (auto simp: runtime_exec_def split: if_splits)
    then have "j \<noteq> i" using live by (auto simp: aq_exec_def)
    then show ?thesis
      using t set_actor_priority [OF t] sch st live w i inv
      by (auto simp: set_actor_def map_sum_Inr Let_def split: if_splits)
  next
    case (Work k)
    then obtain j where "k < length (dispatchers (rt_priority s))" "dispatchers (rt_priority s) ! k = Running j"
      using e by (auto simp: runtime_exec_def split: if_splits dpc.splits)
    moreover have "\<forall>c \<in> set (dispatchers (rt_priority s)). fresh c" using ph st by (simp add: phase_ok_def)
    ultimately show ?thesis by (metis fresh.simps nth_mem)
  next
    case (PriorityAction b)
    then have "exec h b (rt_priority s) = Some (Inr (rt_priority t))" "rt_actors t = rt_actors s" "rt_ports t = rt_ports s"
      using e by (cases b; auto simp: runtime_exec_def map_sum_Inr split: if_splits)+
    then show ?thesis using not_started_kept [OF ph st _ oc] x PriorityAction live w by auto
  qed
qed

text \<open>
  C37: a core that is destroyed without a run hangs: while the priority has not been started, an actor at whose
  port a listen waits stays scheduled, whatever happens except the start, so its destructor waits without end;
  the destructor of the priority, which would start it, comes only after those of the actors.
\<close>

theorem destructor_hangs_without_run:
  assumes "runtime_reachable h n N E s" and "obeys_contract h" and "pstate (rt_priority s) = START"
    and "i < N" and "phase_of (rt_actors s ! i) = Live" and "port_waiting (rt_ports s ! i)"
    and "runtime_run h E xs s = Some (Inr t)"
    and "set xs \<inter> {PriorityAction CallStart, PriorityAction CallDestructor} = {}"
  shows "pstate (rt_priority t) = START \<and> phase_of (waitForReadyToDtor (rt_actors t ! i)) = DtorWaiting False"
  using assms
proof (induction xs arbitrary: s)
  case Nil
  then have t: "t = s" by simp
  have inv: "runtime_inv s" "i < length (rt_actors s)" using runtime_reachable_inv [OF Nil(1)] Nil(4) by simp_all
  note D = layers_okD [OF inv_layers [OF inv]]
  let ?a = "rt_actors s ! i" and ?p = "rt_ports s ! i"
  have "\<forall>c \<in> set (dispatchers (rt_priority s)). fresh c"
    using reachable_phase [OF runtime_reachable_priority [OF Nil(1)] Nil(2)] Nil(3) by (simp add: phase_ok_def)
  then have no: "\<not> executes s i k f" for k f by (metis executes_def fresh.simps nth_mem)
  have "0 < work (port_view ?p)"
    using Nil(6) by (auto simp: port_waiting_def port_view_def count_if_def filter_empty_conv)
  moreover have "count_if running_pcon (pconsumers ?p) = 0"
    using D(7) no by (auto simp: count_if_def filter_empty_conv in_set_conv_nth)
  ultimately have "0 < ownerTokens ?p"
    using handshake_no_lost_work [OF port_reachable_handshake [OF D(3)]] by (simp add: port_view_def)
  then have "callBackQueue ?a \<noteq> []" using D(6) no by blast
  then have "scheduled_flag ?a"
    using aq_reachable_handshake [OF D(1)] by (simp add: handshake_ok_def aq_view_def)
  then show ?case using Nil(3) by (simp add: t waitForReadyToDtor_def)
next
  case (Cons x xs)
  then obtain u where u: "runtime_exec h E x s = Some (Inr u)" "runtime_run h E xs u = Some (Inr t)"
    by (auto split: option.splits sum.splits)
  have "x \<notin> {PriorityAction CallStart, PriorityAction CallDestructor}" using Cons.prems(8) by auto
  from unstarted_step [OF Cons.prems(1-6) u(1) this] Cons.IH [OF runtime_reachable.step [OF Cons.prems(1) u(1)]]
    u(2) Cons.prems(2,4,8) show ?case by simp
qed

lemma destructor_hangs_without_run_witness:
  "\<exists>t. runtime_run onErrorFunc {START} [CallPort External 0 (Listen 5 1 (70::nat)), FinishCtor External 0]
      (runtime_init 1 1 :: (nat, nat, nat) runtime) = Some (Inr t) \<and>
     phase_of (waitForReadyToDtor (rt_actors t ! 0)) = DtorWaiting False"
proof -
  obtain t :: "(nat, nat, nat) runtime" where t: "runtime_run onErrorFunc {START}
      [CallPort External 0 (Listen 5 1 70), FinishCtor External 0] (runtime_init 1 1) = Some (Inr t)"
    "pstate (rt_priority t) = START" "phase_of (rt_actors t ! 0) = Live" "port_waiting (rt_ports t ! 0)"
    by (simp add: runtime_init_def priority_init_def actor_init_def port_init_def runtime_defs port_waiting_def)
  have "runtime_run onErrorFunc {START} [] t = Some (Inr t)" by simp
  from destructor_hangs_without_run [OF runtime_run_reachable [OF t(1) runtime_reachable.init] _ t(2) _ t(3,4) this] t(1)
  show ?thesis by simp
qed

end
