(* ===== verification/Runtime_Progress.thy ===== *)
theory Runtime_Progress
  imports Runtime_Properties
begin

text \<open>
  The runtime comes to rest: when nobody calls into it any more, its dispatchers finish everything that is
  queued in a bounded number of steps, in every order. The measure counts for every message, command, token,
  callback, job and place of a thread the steps that it can still cause; a token of a port pays for the
  callback and the job it becomes and for the dispatchers that are woken up for it.
\<close>

section \<open>The measure\<close>

fun dispatcher_weight :: "'job dpc \<Rightarrow> nat" where
  "dispatcher_weight AtStart = 3"
| "dispatcher_weight (StartBlocked b) = (if b then 3 else 0)"
| "dispatcher_weight BeforeCount = 2"
| "dispatcher_weight LoopEntry = 1"
| "dispatcher_weight (Sleeping b) = (if b then 1 else 0)"
| "dispatcher_weight (Running j) = 2"
| "dispatcher_weight Exited = 0"

definition priority_weight :: "'job prio \<Rightarrow> nat" where
  "priority_weight p = sum_list (map dispatcher_weight (dispatchers p)) + 2 * length (actorQueue p)"

fun consumer_weight :: "'cb consumer \<Rightarrow> nat" where
  "consumer_weight AtLock = 1"
| "consumer_weight (CallingBack cb) = 2"
| "consumer_weight Returned = 0"

definition actor_weight :: "'cb actor_q \<Rightarrow> nat" where
  "actor_weight a = 2 * consumeJobs a + 2 * length (callBackQueue a) + sum_list (map consumer_weight (consumers a))"

text \<open>\<open>d\<close> is what a new token costs, \<open>b\<close> says whether both queues of the port are empty.\<close>

fun pcon_weight :: "nat \<Rightarrow> bool \<Rightarrow> ('m, 'e, 'cb) pconsumer \<Rightarrow> nat" where
  "pcon_weight d b (PTest k) = (if k = 0 then 2 else d + 1)"
| "pcon_weight d b (PCommand c k) = (if k = 0 then 3 else d + 2)"
| "pcon_weight d b (PPop k) = 1"
| "pcon_weight d b (PEvent e k) = d + 2"
| "pcon_weight d b (PFinish k) = (if b then 1 else d)"
| "pcon_weight d b (PDone k) = 0"
| "pcon_weight d b PUndefined = 0"

definition port_empty :: "('m, 'e, 'cb) port \<Rightarrow> bool" where
  "port_empty q \<longleftrightarrow> pt_eventQueue q = [] \<and> pt_commandsQueue q = []"

definition port_weight :: "nat \<Rightarrow> ('m, 'e, 'cb) port \<Rightarrow> nat" where
  "port_weight d q = (d + 3) * length (pt_eventQueue q) + 3 * length (pt_commandsQueue q) + 3 * ownerTokens q +
     sum_list (map (pcon_weight d (port_empty q)) (pconsumers q))"

definition token_cost :: "('m, 'e, 'cb) runtime \<Rightarrow> nat" where
  "token_cost s = length (dispatchers (rt_priority s)) + 10"

definition runtime_work :: "('m, 'e, 'cb) runtime \<Rightarrow> nat" where
  "runtime_work s = priority_weight (rt_priority s) + sum_list (map actor_weight (rt_actors s)) +
     sum_list (map (port_weight (token_cost s)) (rt_ports s))"

section \<open>The steps of the layers\<close>

lemma sum_list_map_update:
  "i < length xs \<Longrightarrow> sum_list (map f (xs[i := y])) + f (xs ! i) = sum_list (map f xs) + (f y :: nat)"
proof (induction xs arbitrary: i)
  case (Cons x xs)
  then show ?case by (cases i) auto
qed simp

lemma pcon_weight_mono: "0 < d \<Longrightarrow> (b \<Longrightarrow> c) \<Longrightarrow> pcon_weight d c x \<le> pcon_weight d b x"
  by (cases x) auto

lemma sum_pcon_mono:
  "0 < d \<Longrightarrow> (b \<Longrightarrow> c) \<Longrightarrow> sum_list (map (pcon_weight d c) xs) \<le> sum_list (map (pcon_weight d b) xs)"
  by (rule sum_list_mono) (rule pcon_weight_mono)

text \<open>A consumer of a port moves from one place to another while the queues only lose elements.\<close>

lemma port_move:
  assumes "0 < d" and p: "p < length (pconsumers q)" and "port_empty q \<Longrightarrow> port_empty r"
    and "pconsumers r = (pconsumers q)[p := c]"
  shows "sum_list (map (pcon_weight d (port_empty r)) (pconsumers r)) + pcon_weight d (port_empty q) (pconsumers q ! p)
    \<le> sum_list (map (pcon_weight d (port_empty q)) (pconsumers q)) + pcon_weight d (port_empty q) c"
proof -
  have "sum_list (map (pcon_weight d (port_empty r)) (pconsumers r))
      \<le> sum_list (map (pcon_weight d (port_empty q)) (pconsumers r))"
    by (rule sum_pcon_mono) (use assms in auto)
  then show ?thesis
    using sum_list_map_update [OF p, of "pcon_weight d (port_empty q)" c] unfolding assms(4) by simp
qed

lemma port_step_weight:
  assumes d: "4 \<le> d" and p: "p < length (pconsumers q)" and e: "consume_step int_max p q = Some r"
  shows "if ownerTokens q < ownerTokens r then port_weight d r + (d - 3) \<le> port_weight d q
    else port_weight d r + 1 \<le> port_weight d q"
proof -
  have mx: "0 < int_max" by (simp add: int_max_def)
  have d0: "0 < d" using d by simp
  note move = port_move [OF d0 p]
  show ?thesis
  proof (cases "pconsumers q ! p")
    case (PTest k)
    show ?thesis
    proof (cases "pt_commandsQueue q")
      case Nil
      then have "r = set_pcon p (if pt_eventQueue q \<noteq> [] \<and> k < int_max then PPop k else PFinish k) q"
        using e PTest by (simp add: consume_step_def processCommands_def)
      then show ?thesis
        using move [of r "if pt_eventQueue q \<noteq> [] \<and> k < int_max then PPop k else PFinish k"] PTest Nil d mx
        by (auto simp: port_weight_def port_empty_def set_pcon_def split: if_splits)
    next
      case (Cons c cs)
      then have "r = set_pcon p (PCommand c k) (q\<lparr>pt_commandsQueue := cs\<rparr>)"
        using e PTest by (simp add: consume_step_def processCommands_def)
      then show ?thesis
        using move [of r "PCommand c k"] PTest Cons d by (auto simp: port_weight_def port_empty_def set_pcon_def split: if_splits)
    qed
  next
    case (PCommand c k)
    then have "r = set_pcon p (PTest k) ((exec_command c q)\<lparr>executedLog := executedLog q @ [c]\<rparr>)"
      using e by (simp add: consume_step_def)
    then show ?thesis
      using move [of r "PTest k"] PCommand d by (auto simp: port_weight_def port_empty_def set_pcon_def split: if_splits)
  next
    case (PPop k)
    show ?thesis
    proof (cases "pt_eventQueue q")
      case Nil
      then have "r = set_pcon p PUndefined q" using e PPop by (simp add: consume_step_def take_event_def)
      then show ?thesis
        using move [of r PUndefined] PPop by (auto simp: port_weight_def port_empty_def set_pcon_def)
    next
      case (Cons x xs)
      then have "r = set_pcon p (PEvent x k) (q\<lparr>pt_eventQueue := xs, poppedEvents := poppedEvents q @ [snd x]\<rparr>)"
        using e PPop by (simp add: consume_step_def take_event_def)
      then show ?thesis
        using move [of r "PEvent x k"] PPop Cons by (auto simp: port_weight_def port_empty_def set_pcon_def)
    qed
  next
    case (PEvent x k)
    then have "r = set_pcon p (PTest (k + 1)) (dispatch_event (snd x) q)" using e by (simp add: consume_step_def)
    then show ?thesis
      using move [of r "PTest (k + 1)"] PEvent
      by (auto simp: port_weight_def port_empty_def set_pcon_def dispatch_event_def split: option.splits)
  next
    case (PFinish k)
    then have r: "r = finish_consume p k q" using e by (simp add: consume_step_def)
    have f: "pconsumers r = (pconsumers q)[p := PDone k]" "pt_eventQueue r = pt_eventQueue q"
      "pt_commandsQueue r = pt_commandsQueue q" "ownerTokens r = ownerTokens q + (if port_empty q then 0 else 1)"
      by (auto simp: r finish_consume_def scheduleOnOwner_def set_pcon_def port_empty_def Let_def)
    then have "port_empty r = port_empty q" by (simp add: port_empty_def)
    then show ?thesis
      using move [of r "PDone k"] PFinish d f by (auto simp: port_weight_def split: if_splits)
  qed (use e in \<open>simp_all add: consume_step_def\<close>)
qed

lemma port_begin_weight:
  assumes "port_exec int_max OwnerBegins q = Some r"
  shows "port_weight d r + 1 \<le> port_weight d q"
  using assms by (auto simp: port_exec_def port_weight_def port_empty_def split: if_splits)

lemma actor_begin_weight:
  assumes "aq_exec False BeginConsume a = Some b"
  shows "actor_weight b + 1 \<le> actor_weight a"
  using assms by (auto simp: aq_exec_def actor_weight_def split: if_splits)

lemma actor_step_weight:
  assumes "aq_exec False (ConsumerStep c) a = Some b"
  shows "actor_weight b + 1 \<le> actor_weight a"
proof -
  have c: "c < length (consumers a)" and e: "consumer_step c a = Some b"
    using assms by (simp_all add: aq_exec_def split: if_splits)
  note move = sum_list_map_update [OF c, of consumer_weight]
  show ?thesis
  proof (cases "consumers a ! c")
    case AtLock
    then have b: "b = actor_consume c a" using e by (simp add: consumer_step_def split: if_splits)
    show ?thesis
    proof (cases "callBackQueue a")
      case Nil
      then show ?thesis using move [of Returned] AtLock by (simp add: b actor_consume_def actor_weight_def)
    next
      case (Cons cb cbs)
      then show ?thesis using move [of "CallingBack cb"] AtLock by (simp add: b actor_consume_def actor_weight_def)
    qed
  next
    case (CallingBack cb)
    then show ?thesis using move [of AtLock] e by (auto simp: consumer_step_def actor_weight_def)
  qed (use e in \<open>simp add: consumer_step_def\<close>)
qed

lemma wake_weight: "dispatcher_weight (wake_sleeping c) \<le> dispatcher_weight c + 1"
  by (cases c) auto

lemma sum_wake_weight:
  "sum_list (map (dispatcher_weight \<circ> wake_sleeping) cs) \<le> sum_list (map dispatcher_weight cs) + length cs"
proof (induction cs)
  case (Cons c cs)
  then show ?case using wake_weight [of c] by simp
qed simp

lemma schedule_weight:
  assumes "schedule h i p = Inr r"
  shows "priority_weight r \<le> priority_weight p + length (dispatchers p) + 2 \<and> length (dispatchers r) = length (dispatchers p)"
  using assms sum_wake_weight [of "dispatchers p"]
  by (auto simp: schedule_def notify_all_schedule_def priority_weight_def Let_def split: if_splits)

lemma dispatch_weight:
  assumes k: "k < length (dispatchers p)" and e: "dispatcherLoop k p = Some r"
  shows "priority_weight r + 1 \<le> priority_weight p \<and> length (dispatchers r) = length (dispatchers p)"
proof -
  note move = sum_list_map_update [OF k, of dispatcher_weight]
  have take: "priority_weight (take_job k j js u) + 1 \<le> priority_weight p"
    if "actorQueue p = j # js" "dispatchers u = dispatchers p" "dispatcher_weight (dispatchers p ! k) = 1" for j js u
    using move [of "Running j"] that by (simp add: take_job_def set_pc_def priority_weight_def)
  have quit: "priority_weight u + 1 \<le> priority_weight p"
    if "dispatchers u = (dispatchers p)[k := c]" "actorQueue u = actorQueue p"
      "dispatcher_weight c < dispatcher_weight (dispatchers p ! k)" for u c
    using move [of c] that by (simp add: priority_weight_def)
  have head: "priority_weight (loop_head k u) + 1 \<le> priority_weight p \<and> length (dispatchers (loop_head k u)) = length (dispatchers p)"
    if u: "actorQueue u = actorQueue p" "dispatchers u = dispatchers p" "dispatcher_weight (dispatchers p ! k) = 1" for u
  proof (cases "actorQueue p")
    case (Cons j js)
    then show ?thesis using take [OF Cons u(2,3)] u by (simp add: loop_head_def take_job_def set_pc_def)
  next
    case Nil
    have "dispatchers (go_to_sleep k u) = (dispatchers p)[k := Sleeping False]" "actorQueue (go_to_sleep k u) = []"
      "dispatchers (leave_loop k u) = (dispatchers p)[k := Exited]" "actorQueue (leave_loop k u) = []"
      using Nil u by (simp_all add: go_to_sleep_def leave_loop_def set_pc_def Let_def)
    then show ?thesis
      using quit [of "go_to_sleep k u" "Sleeping False"] quit [of "leave_loop k u" Exited] u Nil
      by (simp add: loop_head_def)
  qed
  show ?thesis
  proof (cases "dispatchers p ! k")
    case LoopEntry
    then show ?thesis using head [of p] e by (auto simp: dispatcherLoop_def)
  next
    case (Sleeping b)
    then have b: b and r: "r = after_wait k p" using e by (auto simp: dispatcherLoop_def split: if_splits)
    have w: "dispatcher_weight (dispatchers p ! k) = 1" using Sleeping b by simp
    let ?u = "p\<lparr>sleepingCount := sleepingCount p - 1\<rparr>"
    show ?thesis
    proof (cases "actorQueue p")
      case (Cons j js)
      then show ?thesis using take [OF Cons _ w, of ?u] by (simp add: r after_wait_def take_job_def set_pc_def)
    next
      case Nil
      then show ?thesis
        using head [of ?u] quit [of "set_pc k (Sleeping False) p" "Sleeping False"] w by (simp add: r after_wait_def set_pc_def)
    qed
  next
    case Exited
    then show ?thesis using e by (simp add: dispatcherLoop_def)
  next
    case AtStart
    then have "r = start_wait k p" using e by (simp add: dispatcherLoop_def)
    then show ?thesis
      using quit [of r "if pstate p = RUNNING then BeforeCount else StartBlocked False"] AtStart
      by (simp add: start_wait_def set_pc_def)
  next
    case (StartBlocked b)
    then have b "r = start_wait k p" using e by (auto simp: dispatcherLoop_def split: if_splits)
    then show ?thesis
      using quit [of r "if pstate p = RUNNING then BeforeCount else StartBlocked False"] StartBlocked
      by (simp add: start_wait_def set_pc_def)
  next
    case BeforeCount
    then show ?thesis using quit [of r LoopEntry] e by (auto simp: dispatcherLoop_def count_started_def set_pc_def)
  next
    case (Running j)
    then show ?thesis using quit [of r LoopEntry] e by (auto simp: dispatcherLoop_def set_pc_def)
  qed
qed

section \<open>The steps of the runtime\<close>

text \<open>The steps that a dispatcher takes on its own: no call from a callback or from outside.\<close>

definition dispatcher_step :: "('m, 'e, 'cb) runtime_action \<Rightarrow> bool" where
  "dispatcher_step x \<longleftrightarrow> (case x of
      Work k \<Rightarrow> True
    | PriorityAction a \<Rightarrow> (case a of Dispatch k \<Rightarrow> True | _ \<Rightarrow> False)
    | _ \<Rightarrow> False)"

lemma set_actor_weight:
  assumes "set_actor h i (actor_schedule () (rt_actors s ! i)) s = Inr t" and i: "i < length (rt_actors s)"
  shows "priority_weight (rt_priority t) + sum_list (map actor_weight (rt_actors t))
      \<le> priority_weight (rt_priority s) + sum_list (map actor_weight (rt_actors s)) + token_cost s - 4 \<and>
    rt_ports t = rt_ports s \<and> token_cost t = token_cost s"
proof -
  let ?a = "actor_schedule () (rt_actors s ! i)"
  have a: "actor_weight ?a + (if scheduled_flag (rt_actors s ! i) then 2 else 0) = actor_weight (rt_actors s ! i) + 4"
    by (simp add: actor_weight_def)
  have m: "sum_list (map actor_weight ((rt_actors s)[i := ?a])) + actor_weight (rt_actors s ! i) =
      sum_list (map actor_weight (rt_actors s)) + actor_weight ?a"
    by (rule sum_list_map_update [OF i])
  show ?thesis
  proof (cases "scheduled_flag (rt_actors s ! i)")
    case True
    then have "t = s\<lparr>rt_actors := (rt_actors s)[i := ?a]\<rparr>" using assms(1) by (simp add: set_actor_def Let_def)
    then show ?thesis using a m True by (simp add: token_cost_def)
  next
    case False
    then obtain p where p: "schedule h i (rt_priority s) = Inr p"
      and t: "t = s\<lparr>rt_actors := (rt_actors s)[i := ?a], rt_priority := p\<rparr>"
      using assms(1) by (auto simp: set_actor_def map_sum_Inr Let_def)
    then show ?thesis using schedule_weight [OF p] a m False by (simp add: token_cost_def)
  qed
qed

lemma set_port_weight:
  assumes t: "set_port h i q s = Inr t" and i: "i < length (rt_actors s)" "i < length (rt_ports s)"
    and w: "if ownerTokens (rt_ports s ! i) < ownerTokens q
      then port_weight (token_cost s) q + (token_cost s - 3) \<le> port_weight (token_cost s) (rt_ports s ! i)
      else port_weight (token_cost s) q + 1 \<le> port_weight (token_cost s) (rt_ports s ! i)"
  shows "runtime_work t + 1 \<le> runtime_work s"
proof -
  let ?d = "token_cost s" and ?s = "s\<lparr>rt_ports := (rt_ports s)[i := q]\<rparr>"
  have d: "10 \<le> ?d" by (simp add: token_cost_def)
  have m: "sum_list (map (port_weight ?d) ((rt_ports s)[i := q])) + port_weight ?d (rt_ports s ! i) =
      sum_list (map (port_weight ?d) (rt_ports s)) + port_weight ?d q"
    by (rule sum_list_map_update [OF i(2)])
  show ?thesis
  proof (cases "ownerTokens (rt_ports s ! i) < ownerTokens q")
    case True
    then have a: "set_actor h i (actor_schedule () (rt_actors ?s ! i)) ?s = Inr t"
      using t by (simp add: set_port_def Let_def)
    have c: "token_cost ?s = ?d" by (simp add: token_cost_def)
    have t: "priority_weight (rt_priority t) + sum_list (map actor_weight (rt_actors t))
        \<le> priority_weight (rt_priority s) + sum_list (map actor_weight (rt_actors s)) + ?d - 4"
      "rt_ports t = (rt_ports s)[i := q]" "token_cost t = ?d"
      using set_actor_weight [OF a] i(1) unfolding c by simp_all
    have "port_weight ?d q + (?d - 3) \<le> port_weight ?d (rt_ports s ! i)" using w True by simp
    then show ?thesis using t(1) m d unfolding runtime_work_def t(2,3) by linarith
  next
    case False
    then have "t = ?s" using t by (simp add: set_port_def Let_def)
    then show ?thesis using m w False by (simp add: runtime_work_def token_cost_def)
  qed
qed

lemma work_step_weight:
  assumes e: "work_step h k i s = Some (Inr t)" and i: "i < length (rt_actors s)" "i < length (rt_ports s)"
  shows "runtime_work t + 1 \<le> runtime_work s"
proof -
  let ?a = "rt_actors s ! i" and ?q = "rt_ports s ! i" and ?d = "token_cost s"
  have actor: "runtime_work (s\<lparr>rt_actors := (rt_actors s)[i := b], rt_frames := fs\<rparr>) + 1 \<le> runtime_work s"
    if "actor_weight b + 1 \<le> actor_weight ?a" for b fs
    using sum_list_map_update [OF i(1), of actor_weight b] that by (simp add: runtime_work_def token_cost_def)
  have port: "runtime_work (s\<lparr>rt_ports := (rt_ports s)[i := r], rt_frames := fs\<rparr>) + 1 \<le> runtime_work s"
    if "port_weight ?d r + 1 \<le> port_weight ?d ?q" for r fs
    using sum_list_map_update [OF i(2), of "port_weight ?d" r] that by (simp add: runtime_work_def token_cost_def)
  show ?thesis
  proof (cases "rt_frames s ! k")
    case FNone
    then obtain b where "aq_exec False BeginConsume ?a = Some b"
      "t = s\<lparr>rt_actors := (rt_actors s)[i := b], rt_frames := (rt_frames s)[k := FActor (length (consumers ?a))]\<rparr>"
      using e by (auto simp: work_step_def Let_def)
    then show ?thesis using actor actor_begin_weight by blast
  next
    case (FActor c)
    show ?thesis
    proof (cases "consumers ?a ! c")
      case AtLock
      then obtain b where "aq_exec False (ConsumerStep c) ?a = Some b"
        "t = s\<lparr>rt_actors := (rt_actors s)[i := b], rt_frames := (rt_frames s)[k := FActor c]\<rparr>"
        using e FActor by (auto simp: work_step_def Let_def)
      then show ?thesis using actor actor_step_weight by blast
    next
      case (CallingBack cb)
      then obtain r fs where "port_exec int_max OwnerBegins ?q = Some r"
        "t = s\<lparr>rt_ports := (rt_ports s)[i := r], rt_frames := fs\<rparr>"
        using e FActor by (auto simp: work_step_def Let_def)
      then show ?thesis using port port_begin_weight by blast
    next
      case Returned
      then show ?thesis using e FActor by (simp add: work_step_def Let_def)
    qed
  next
    case (FPort c p)
    show ?thesis
    proof (cases "\<exists>m. pconsumers ?q ! p = PDone m")
      case True
      then obtain b where "aq_exec False (ConsumerStep c) ?a = Some b"
        "t = s\<lparr>rt_actors := (rt_actors s)[i := b], rt_frames := (rt_frames s)[k := FActor c]\<rparr>"
        using e FPort by (auto simp: work_step_def Let_def)
      then show ?thesis using actor actor_step_weight by blast
    next
      case False
      then have "map_option (\<lambda>r. set_port h i r s) (port_exec int_max (ConsumeStep p) ?q) = Some (Inr t)"
        using e FPort by (simp add: work_step_def Let_def split: pconsumer.splits)
      then obtain r where r: "p < length (pconsumers ?q)" "consume_step int_max p ?q = Some r" "set_port h i r s = Inr t"
        by (auto simp: port_exec_def split: if_splits)
      have "4 \<le> ?d" by (simp add: token_cost_def)
      from port_step_weight [OF this r(1,2)] show ?thesis by (rule set_port_weight [OF r(3) i])
    qed
  qed
qed

lemma dispatcher_step_weight:
  assumes e: "runtime_exec h E x s = Some (Inr t)" and x: "dispatcher_step x"
    and len: "length (rt_ports s) = length (rt_actors s)"
  shows "runtime_work t + 1 \<le> runtime_work s"
proof (cases x)
  case (Work k)
  then obtain i where "work_step h k i s = Some (Inr t)" "i < length (rt_actors s)"
    using e by (auto simp: runtime_exec_def split: if_splits dpc.splits)
  then show ?thesis using work_step_weight len by metis
next
  case (PriorityAction a)
  then obtain k where a: "a = Dispatch k" using x by (auto simp: dispatcher_step_def split: action.splits)
  obtain p where p: "dispatcherLoop k (rt_priority s) = Some p" "k < length (dispatchers (rt_priority s))"
    and t: "t = s\<lparr>rt_priority := p, rt_frames := (rt_frames s)[k := FNone]\<rparr>"
    using e PriorityAction a by (auto simp: runtime_exec_def exec_def map_sum_Inr split: if_splits)
  then show ?thesis using dispatch_weight [OF p(2,1)] by (simp add: runtime_work_def token_cost_def)
qed (use x in \<open>simp_all add: dispatcher_step_def\<close>)

section \<open>At rest\<close>

text \<open>No dispatcher can take a step.\<close>

definition at_rest :: "handler \<Rightarrow> pstate set \<Rightarrow> ('m, 'e, 'cb) runtime \<Rightarrow> bool" where
  "at_rest h E s \<longleftrightarrow> (\<forall>k < length (dispatchers (rt_priority s)).
     runtime_exec h E (Work k) s = None \<and> runtime_exec h E (PriorityAction (Dispatch k)) s = None)"

lemma rest_means_handled:
  assumes reach: "runtime_reachable h n N E s" and oc: "obeys_contract h" and n: "0 < n"
    and run: "pstate (rt_priority s) = RUNNING" "client (rt_priority s) = CIdle"
    and rest: "at_rest h E s" and i: "i < N" "phase_of (rt_actors s ! i) = Live"
  shows "callBackQueue (rt_actors s ! i) = [] \<and> all_handled (rt_ports s ! i)"
proof -
  let ?p = "rt_priority s"
  have inv: "runtime_inv s" "length (rt_actors s) = N" using runtime_reachable_inv [OF reach] by simp_all
  have pr: "reachable h n E ?p" by (rule runtime_reachable_priority [OF reach])
  have ph: "phase_ok ?p" "notified_ok ?p" by (rule reachable_phase [OF pr oc], rule reachable_notified [OF pr])
  have asleep: "dispatchers ?p ! k = Sleeping False" if k: "k < length (dispatchers ?p)" for k
  proof -
    have c: "\<not> uncounted (dispatchers ?p ! k)" "dispatchers ?p ! k \<noteq> Exited"
      using ph(1) run k by (auto simp: phase_ok_def)
    have no: "\<not> is_running (dispatchers ?p ! k)"
    proof
      assume "is_running (dispatchers ?p ! k)"
      then obtain j where "dispatchers ?p ! k = Running j" by (auto simp: is_running_iff)
      from dispatcher_goes_on [OF reach oc k this] rest k show False by (auto simp: at_rest_def)
    qed
    have "runtime_exec h E (PriorityAction (Dispatch k)) s = None" using rest k by (simp add: at_rest_def)
    then have "dispatcherLoop k ?p = None"
      using no k by (auto simp: runtime_exec_def exec_def job_done_def split: if_splits dpc.splits)
    then show ?thesis using c no
      by (cases "dispatchers ?p ! k") (auto simp: dispatcherLoop_def split: if_splits)
  qed
  have "0 < length (dispatchers ?p)" using reachable_nonempty [OF pr n] by simp
  then have "Sleeping False \<in> set (dispatchers ?p)" using asleep nth_mem by metis
  then have q: "actorQueue ?p = []" using ph(2) by (auto simp: notified_ok_def)
  have "\<forall>c \<in> set (dispatchers ?p). \<not> is_running c" using asleep by (auto simp: in_set_conv_nth)
  with quiet_handled [OF inv(1) _ i(2) q] i(1) inv(2) show ?thesis by blast
qed

lemma dispatch_client:
  "dispatcherLoop k p = Some r \<Longrightarrow> client p = CIdle \<Longrightarrow> client r = CIdle"
  "dispatcherLoop k p = Some r \<Longrightarrow> pstate r = pstate p"
  by (auto simp: dispatcherLoop_def start_wait_def count_started_def loop_head_def take_job_def go_to_sleep_def
      leave_loop_def after_wait_def set_pc_def notify_idle_def notify_started_def Let_def
      split: dpc.splits if_splits list.splits cpc.splits)

lemma schedule_client: "schedule h i p = Inr r \<Longrightarrow> client r = client p \<and> pstate r = pstate p"
  by (auto simp: schedule_def notify_all_schedule_def Let_def split: if_splits)

lemma dispatcher_step_client:
  assumes e: "runtime_exec h E x s = Some (Inr t)" and x: "dispatcher_step x"
    and "pstate (rt_priority s) = RUNNING" "client (rt_priority s) = CIdle"
  shows "pstate (rt_priority t) = RUNNING \<and> client (rt_priority t) = CIdle"
proof (cases x)
  case (Work k)
  then obtain i where w: "work_step h k i s = Some (Inr t)"
    using e by (auto simp: runtime_exec_def split: if_splits dpc.splits)
  then have "rt_priority t = rt_priority s \<or> (\<exists>q. set_port h i q s = Inr t)"
    by (auto simp: work_step_def Let_def split: frame.splits consumer.splits pconsumer.splits)
  then show ?thesis using set_port_priority schedule_client assms(3,4) by metis
next
  case (PriorityAction a)
  then obtain k where "a = Dispatch k" using x by (auto simp: dispatcher_step_def split: action.splits)
  then have "dispatcherLoop k (rt_priority s) = Some (rt_priority t)"
    using e PriorityAction by (auto simp: runtime_exec_def exec_def map_sum_Inr split: if_splits)
  then show ?thesis using dispatch_client assms(3,4) by metis
qed (use x in \<open>simp_all add: dispatcher_step_def\<close>)

lemma dispatcher_step_ok:
  assumes reach: "runtime_reachable h n N E s" and oc: "obeys_contract h" and x: "dispatcher_step x"
  shows "runtime_exec h E x s \<noteq> Some (Inl e)"
proof
  assume e: "runtime_exec h E x s = Some (Inl e)"
  show False
  proof (cases x)
    case (Work k)
    then obtain i where k: "k < length (dispatchers (rt_priority s))" "dispatchers (rt_priority s) ! k = Running i"
      and w: "work_step h k i s = Some (Inl e)"
      using e by (auto simp: runtime_exec_def split: if_splits dpc.splits)
    then have "\<exists>q. set_port h i q s = Inl e"
      by (auto simp: work_step_def Let_def split: frame.splits consumer.splits pconsumer.splits)
    moreover have "pstate (rt_priority s) \<noteq> STOPPED"
      using running_not_stopped [OF reach oc, of k] k by (simp add: may_schedule_def)
    ultimately show False using set_port_ok by blast
  next
    case (PriorityAction a)
    then obtain k where "a = Dispatch k" using x by (auto simp: dispatcher_step_def split: action.splits)
    then show False
      using e PriorityAction by (auto simp: runtime_exec_def exec_def split: if_splits)
  qed (use x in \<open>simp_all add: dispatcher_step_def\<close>)
qed

section \<open>The property\<close>

text \<open>
  C11: every message is handled: from every reachable state in which the priority is running, and if nobody,
  callbacks included, calls into the runtime any more, the dispatchers take at most \<open>runtime_work\<close>
  steps, in whatever order; no step fails; and when none can take another step, every constructed actor has
  handled every message and every listen and unlisten.
\<close>

theorem runtime_comes_to_rest:
  assumes "runtime_reachable h n N E s" and "obeys_contract h" and "0 < n"
    and "pstate (rt_priority s) = RUNNING" and "client (rt_priority s) = CIdle"
    and "runtime_run h E xs s = Some r" and "\<forall>x \<in> set xs. dispatcher_step x"
  shows "\<exists>t. r = Inr t \<and> length xs + runtime_work t \<le> runtime_work s \<and>
    (at_rest h E t \<longrightarrow> (\<forall>i < N. phase_of (rt_actors t ! i) = Live \<longrightarrow>
       callBackQueue (rt_actors t ! i) = [] \<and> all_handled (rt_ports t ! i)))"
  using assms
proof (induction xs arbitrary: s)
  case Nil
  then show ?case using rest_means_handled [OF Nil(1-5)] by auto
next
  case (Cons x xs)
  have x: "dispatcher_step x" using Cons.prems(7) by simp
  have "runtime_exec h E x s \<noteq> None" "\<forall>e. runtime_exec h E x s \<noteq> Some (Inl e)"
    using Cons.prems(6) dispatcher_step_ok [OF Cons.prems(1,2) x] by (auto split: option.splits)
  then obtain u where u: "runtime_exec h E x s = Some (Inr u)" by (metis not_None_eq old.sum.exhaust)
  have len: "length (rt_ports s) = length (rt_actors s)"
    using runtime_reachable_inv [OF Cons.prems(1)] by (simp add: runtime_inv_def)
  have "runtime_run h E xs u = Some r" using Cons.prems(6) u by simp
  from Cons.IH [OF runtime_reachable.step [OF Cons.prems(1) u] Cons.prems(2,3) _ _ this]
    dispatcher_step_client [OF u x Cons.prems(4,5)] dispatcher_step_weight [OF u x len] Cons.prems(7)
  show ?case by fastforce
qed

lemma runtime_comes_to_rest_witness:
  "\<exists>s t. runtime_run onErrorFunc UNIV [PriorityAction Client, CallPort External 0 (Schedule (5, 30)),
       PriorityAction (Dispatch 0), Work 0] demo_runtime_idle = Some (Inr s) \<and>
     runtime_run onErrorFunc UNIV [Work 0, Work 0, Work 0, Work 0, Work 0, Work 0, Work 0, Work 0, Work 0,
       PriorityAction (Dispatch 0), PriorityAction (Dispatch 0)] s = Some (Inr t) \<and>
     11 + runtime_work t \<le> runtime_work s \<and> callLog (rt_ports t ! 0) = [((5, 30), [70])]"
proof -
  obtain s where s: "runtime_run onErrorFunc UNIV [PriorityAction Client, CallPort External 0 (Schedule (5, 30)),
       PriorityAction (Dispatch 0), Work 0] demo_runtime_idle = Some (Inr s)"
    "pstate (rt_priority s) = RUNNING" "client (rt_priority s) = CIdle"
    and t: "\<exists>t. runtime_run onErrorFunc UNIV [Work 0, Work 0, Work 0, Work 0, Work 0, Work 0, Work 0, Work 0, Work 0,
       PriorityAction (Dispatch 0), PriorityAction (Dispatch 0)] s = Some (Inr t) \<and>
       callLog (rt_ports t ! 0) = [((5, 30), [70])]"
    by (simp add: runtime_defs demo_runtime_idle_def int_max_def vector_calls_def)
  have "runtime_reachable onErrorFunc 1 1 UNIV s"
    by (rule runtime_run_reachable [OF s(1) demo_runtime_idle_reach]) simp
  from runtime_comes_to_rest [OF this _ _ s(2,3)] s(1) t show ?thesis
    by (fastforce simp: dispatcher_step_def)
qed

end
