(* ===== verification/Port_Notify.thy ===== *)
theory Port_Notify
  imports Port_Properties
begin

text \<open>
  The rest of \<^verbatim>\<open>rapi_core/include/core/port.hpp\<close>, most of which nothing in the repository uses:
  \<^verbatim>\<open>notify\<close>, which posts an event and then consumes at most one event in the calling
  thread, \<^verbatim>\<open>getQueueEventCount\<close>, and the destructor; and \<^verbatim>\<open>listen\<close> without a handle. With \<^verbatim>\<open>notify\<close>
  a port has consumers that its owner does not know of, each with a bound of its own.
\<close>

definition getQueueEventCount :: "('m, 'e, 'cb) port \<Rightarrow> nat" where
  "getQueueEventCount s = length (pt_eventQueue s)"

text \<open>The destructor clears the table; what the port has registered at the network stays there.\<close>

definition port_destroy :: "('m, 'e, 'cb) port \<Rightarrow> ('m, 'e, 'cb) port" where
  "port_destroy s = s\<lparr>pt_callbacks := Map.empty\<rparr>"

text \<open>\<^verbatim>\<open>listen\<close> without a handle draws a new one: two sections, between which others may come.\<close>

definition port_listen_fresh ::
  "'m \<Rightarrow> 'cb \<Rightarrow> ('m, 'e, 'cb) port \<Rightarrow> (handle \<times> ('m, 'e, 'cb) port) option" where
  "port_listen_fresh m cb s =
     (case port_newHandle s of
        None \<Rightarrow> None
      | Some (h, s1) \<Rightarrow> Some (h, port_listen m h cb s1))"

lemma port_listen_fresh_run:
  "port_listen_fresh m cb s = Some (h, t) \<Longrightarrow> port_run mx [NewHandle, Listen m h cb] s = Some t"
  by (auto simp: port_exec_def port_listen_fresh_def split: option.splits)

lemma port_listen_fresh_new: "port_listen_fresh m cb s = Some (h, t) \<Longrightarrow> pt_handleCounter s < h"
  by (auto simp: port_listen_fresh_def port_newHandle_def next_handle_def split: option.splits if_splits)

section \<open>Ports with notify\<close>

text \<open>\<open>bounds_of\<close> holds for every consumer of the port the argument \<open>max\<close> of its call.\<close>

record ('m, 'e, 'cb) notify_port =
  base_port :: "('m, 'e, 'cb) port"
  bounds_of :: "nat list"

definition notify_init :: "('m, 'e, 'cb) notify_port" where
  "notify_init = \<lparr>base_port = port_init, bounds_of = []\<rparr>"

definition begin_consume :: "nat \<Rightarrow> ('m, 'e, 'cb) port \<Rightarrow> ('m, 'e, 'cb) notify_port \<Rightarrow> ('m, 'e, 'cb) notify_port" where
  "begin_consume mx q s =
     s\<lparr>base_port := q\<lparr>pconsumers := pconsumers q @ [PTest 0]\<rparr>, bounds_of := bounds_of s @ [mx]\<rparr>"

definition port_notify :: "'m \<times> 'e \<Rightarrow> ('m, 'e, 'cb) notify_port \<Rightarrow> ('m, 'e, 'cb) notify_port" where
  "port_notify ev s = begin_consume 1 (port_schedule ev (base_port s)) s"

datatype ('m, 'e, 'cb) notify_action =
    Notify "'m \<times> 'e"
  | Plain "('m, 'e, 'cb) port_action"

definition notify_exec ::
  "('m, 'e, 'cb) notify_action \<Rightarrow> ('m, 'e, 'cb) notify_port \<Rightarrow> ('m, 'e, 'cb) notify_port option" where
  "notify_exec x s = (case x of
      Notify ev \<Rightarrow> Some (port_notify ev s)
    | Plain a \<Rightarrow> (let q = base_port s in case a of
          OwnerBegins \<Rightarrow>
            if 0 < ownerTokens q
            then Some (begin_consume int_max (q\<lparr>ownerTokens := ownerTokens q - 1\<rparr>) s) else None
        | ConsumeStep i \<Rightarrow> map_option (\<lambda>r. s\<lparr>base_port := r\<rparr>) (port_exec (bounds_of s ! i) a q)
        | _ \<Rightarrow> map_option (\<lambda>r. s\<lparr>base_port := r\<rparr>) (port_exec int_max a q)))"

fun notify_run ::
  "('m, 'e, 'cb) notify_action list \<Rightarrow> ('m, 'e, 'cb) notify_port \<Rightarrow> ('m, 'e, 'cb) notify_port option" where
  "notify_run [] s = Some s"
| "notify_run (x # xs) s = (case notify_exec x s of None \<Rightarrow> None | Some t \<Rightarrow> notify_run xs t)"

lemma notify_run_consumer:
  assumes "port_run (bounds_of s ! i) (replicate n (ConsumeStep i)) (base_port s) = Some q"
  shows "notify_run (replicate n (Plain (ConsumeStep i))) s = Some (s\<lparr>base_port := q\<rparr>)"
  using assms
proof (induction n arbitrary: s)
  case (Suc n)
  then obtain r where r: "port_exec (bounds_of s ! i) (ConsumeStep i) (base_port s) = Some r"
    "port_run (bounds_of s ! i) (replicate n (ConsumeStep i)) r = Some q"
    by (auto split: option.splits)
  then show ?case using Suc.IH [of "s\<lparr>base_port := r\<rparr>"] by (simp add: notify_exec_def)
qed simp

text \<open>Without \<open>notify\<close> nothing changes.\<close>

lemma notify_exec_plain:
  assumes "notify_exec (Plain a) s = Some t" and "\<forall>b \<in> set (bounds_of s). b = int_max"
    and "length (bounds_of s) = length (pconsumers (base_port s))"
  shows "port_exec int_max a (base_port s) = Some (base_port t)"
  using assms by (cases a) (auto simp: notify_exec_def port_exec_def begin_consume_def all_set_conv_all_nth Let_def
      split: if_splits)

lemma port_schedule_frame [simp]:
  "pconsumers (port_schedule ev s) = pconsumers s" "callLog (port_schedule ev s) = callLog s"
  "pt_commandsQueue (port_schedule ev s) = pt_commandsQueue s"
  "pt_eventQueue (port_schedule ev s) = pt_eventQueue s @ [(length (issuedLog s), ev)]"
  by (simp_all add: port_schedule_def scheduleOnOwner_def)

section \<open>Properties\<close>

text \<open>
  Lemma: a \<^verbatim>\<open>notify\<close> that nobody interferes with executes all queued commands and handles
  exactly one event, the oldest one: that is its own only if no other event waits, and otherwise its own
  event stays queued.
\<close>

theorem notify_handles_oldest:
  assumes "length (bounds_of s) = length (pconsumers (base_port s))"
    and "t = port_notify ev s" and "i = length (bounds_of s)"
  shows "\<exists>n q. notify_run (replicate n (Plain (ConsumeStep i))) t = Some (t\<lparr>base_port := q\<rparr>) \<and>
    pconsumers q ! i = PDone 1 \<and> pt_commandsQueue q = [] \<and>
    map snd (pt_eventQueue q) = tl (map snd (pt_eventQueue (base_port s)) @ [ev]) \<and>
    map fst (callLog q) = map fst (callLog (base_port s)) @ [hd (map snd (pt_eventQueue (base_port s)) @ [ev])]"
proof -
  let ?b = "base_port t"
  have b: "bounds_of t ! i = 1" "i < length (pconsumers ?b)" "pconsumers ?b ! i = PTest 0"
    "pt_eventQueue ?b = pt_eventQueue (base_port s) @ [(length (issuedLog (base_port s)), ev)]"
    "callLog ?b = callLog (base_port s)"
    using assms by (simp_all add: port_notify_def begin_consume_def nth_append)
  obtain n q where run: "port_run 1 (replicate n (ConsumeStep i)) ?b = Some q"
    and q: "pconsumers q ! i = PDone (min 1 (length (pt_eventQueue ?b)))" "pt_eventQueue q = drop 1 (pt_eventQueue ?b)"
      "pt_commandsQueue q = []" "map fst (callLog q) = map fst (callLog ?b) @ map snd (take 1 (pt_eventQueue ?b))"
    using consume_alone [OF b(2,3), of 1] by auto
  have "notify_run (replicate n (Plain (ConsumeStep i))) t = Some (t\<lparr>base_port := q\<rparr>)"
    using run by (intro notify_run_consumer) (simp only: b(1))
  then show ?thesis
    using q unfolding b(4,5)
    by (intro exI [of _ n] exI [of _ q]) (cases "pt_eventQueue (base_port s)"; simp)
qed

lemma notify_handles_oldest_witness:
  "\<exists>s n q. notify_run [Plain (Schedule (3, 8)), Notify (4, 9)] (notify_init :: (nat, nat, nat) notify_port) = Some s \<and>
     notify_run (replicate n (Plain (ConsumeStep 0))) s = Some (s\<lparr>base_port := q\<rparr>) \<and>
     pconsumers q ! 0 = PDone 1 \<and> map snd (pt_eventQueue q) = [(4, 9)] \<and> map fst (callLog q) = [(3, 8)]"
proof -
  obtain r :: "(nat, nat, nat) notify_port" where r: "notify_run [Plain (Schedule (3, 8))] notify_init = Some r"
    "length (bounds_of r) = length (pconsumers (base_port r))" "bounds_of r = []" "callLog (base_port r) = []"
    "map snd (pt_eventQueue (base_port r)) = [(3, 8)]"
    by (simp add: notify_exec_def notify_init_def port_init_def port_exec_def port_ops Let_def)
  then have "notify_run [Plain (Schedule (3, 8)), Notify (4, 9)] notify_init = Some (port_notify (4, 9) r)"
    by (auto simp: notify_exec_def split: option.splits)
  then show ?thesis
    using notify_handles_oldest [OF r(2) refl refl, of "(4, 9)"] r(3-5) by fastforce
qed

text \<open>
  Lemma: \<^verbatim>\<open>notify\<close> breaks the exclusion of the consumers: it may run beside the
  \<^verbatim>\<open>consume\<close> that it has scheduled itself on the owner, and then both see the one event
  and the slower takes the front of an empty queue.
\<close>

theorem notify_races_with_owner:
  "\<exists>s. notify_run [Notify ev, Plain OwnerBegins, Plain (ConsumeStep 0), Plain (ConsumeStep 1),
      Plain (ConsumeStep 0), Plain (ConsumeStep 1)] notify_init = Some s \<and> PUndefined \<in> set (pconsumers (base_port s))"
  by (simp add: notify_exec_def notify_init_def port_notify_def begin_consume_def port_init_def port_exec_def port_ops
      int_max_def Let_def)

end
