(* ===== verification/Runtime_Destruction.thy ===== *)
theory Runtime_Destruction
  imports Runtime_Progress Port_Notify
begin

text \<open>
  The destructor of the core, run against the runtime: \<^verbatim>\<open>root_\<close> and with it the tree of
  actors, then the environment: the network, and then the priority. \<^verbatim>\<open>~ActorLifeCycle\<close> calls
  \<^verbatim>\<open>waitForReadyToDtor\<close>, which returns with \<^verbatim>\<open>callBackMutex_\<close> locked;
  then the members of the actor go in the reverse order of their declaration, \<^verbatim>\<open>children_\<close>
  before \<^verbatim>\<open>ports_\<close>. In which order the map destroys the children of an actor is not fixed,
  so a tree has them in any order. Members of the classes of the application are left out.

  Meanwhile the dispatchers go on. A step of theirs that would change an actor whose destructor holds the mutex
  is blocked.
\<close>

section \<open>The destructors\<close>

datatype actor_tree = ActorTree nat "actor_tree list"

fun tree_actors :: "actor_tree \<Rightarrow> nat list" where
  "tree_actors (ActorTree i cs) = i # concat (map tree_actors cs)"

datatype destroy_section = WaitReady nat | ClearPort nat | ClearNetwork

fun actor_dtor :: "actor_tree \<Rightarrow> destroy_section list" where
  "actor_dtor (ActorTree i cs) = WaitReady i # concat (map actor_dtor cs) @ [ClearPort i]"

definition core_sections :: "actor_tree \<Rightarrow> destroy_section list" where
  "core_sections T = actor_dtor T @ [ClearNetwork]"

text \<open>
  The state: the runtime, and what is left of the destruction before the priority. The table of the network is
  kept in parts, with every port what it has registered.
\<close>

type_synonym ('m, 'e, 'cb) teardown = "('m, 'e, 'cb) runtime \<times> destroy_section list"

definition wait_ready :: "unit actor_q \<Rightarrow> unit actor_q option" where
  "wait_ready a = aq_exec False (if phase_of a = Live then WaitForDtor else DtorTest) a"

definition network_destroy :: "('m, 'e, 'cb) runtime \<Rightarrow> ('m, 'e, 'cb) runtime" where
  "network_destroy s = s\<lparr>rt_ports := map (\<lambda>q. q\<lparr>netListens := []\<rparr>) (rt_ports s)\<rparr>"

definition core_dtor ::
  "handler \<Rightarrow> ('m, 'e, 'cb) teardown \<Rightarrow> (error + ('m, 'e, 'cb) teardown) option" where
  "core_dtor h d = (let s = fst d in case snd d of
       WaitReady i # ds \<Rightarrow>
         if i < length (rt_actors s)
         then map_option (\<lambda>a. Inr (s\<lparr>rt_actors := (rt_actors s)[i := a]\<rparr>,
                if phase_of a = DtorLocked then ds else WaitReady i # ds)) (wait_ready (rt_actors s ! i))
         else None
     | ClearPort i # ds \<Rightarrow>
         if i < length (rt_ports s)
         then Some (Inr (s\<lparr>rt_ports := (rt_ports s)[i := port_destroy (rt_ports s ! i)]\<rparr>, ds)) else None
     | ClearNetwork # ds \<Rightarrow> Some (Inr (network_destroy s, ds))
     | [] \<Rightarrow> map_option (map_sum id (\<lambda>p. (s\<lparr>rt_priority := p\<rparr>, [])))
         (exec h (if client (rt_priority s) = CIdle then CallDestructor else Client) (rt_priority s)))"

section \<open>Steps\<close>

text \<open>Everything but the thread that destroys the core, which is the one that has called the priority.\<close>

definition background :: "('m, 'e, 'cb) runtime_action \<Rightarrow> bool" where
  "background x \<longleftrightarrow> (case x of
      PriorityAction a \<Rightarrow> (case a of Dispatch k \<Rightarrow> True | SpuriousDispatcher k \<Rightarrow> True | SpuriousClient \<Rightarrow> True | _ \<Rightarrow> False)
    | _ \<Rightarrow> True)"

definition locked_untouched :: "('m, 'e, 'cb) runtime \<Rightarrow> ('m, 'e, 'cb) runtime \<Rightarrow> bool" where
  "locked_untouched s t \<longleftrightarrow>
     (\<forall>i < length (rt_actors s). phase_of (rt_actors s ! i) = DtorLocked \<longrightarrow> rt_actors t ! i = rt_actors s ! i)"

datatype ('m, 'e, 'cb) teardown_action =
    Destroy
  | DestroySpurious     \<comment> \<open>of the wait in \<open>waitForReadyToDtor\<close>\<close>
  | Background "('m, 'e, 'cb) runtime_action"

definition teardown_exec ::
  "handler \<Rightarrow> ('m, 'e, 'cb) teardown_action \<Rightarrow> ('m, 'e, 'cb) teardown \<Rightarrow>
     (error + ('m, 'e, 'cb) teardown) option" where
  "teardown_exec h x d = (case x of
       Destroy \<Rightarrow> core_dtor h d
     | DestroySpurious \<Rightarrow> (case snd d of
           WaitReady i # ds \<Rightarrow>
             if i < length (rt_actors (fst d))
             then map_option (\<lambda>a. Inr ((fst d)\<lparr>rt_actors := (rt_actors (fst d))[i := a]\<rparr>, snd d))
                    (aq_exec False DtorSpurious (rt_actors (fst d) ! i))
             else None
         | _ \<Rightarrow> None)
     | Background y \<Rightarrow>
         if background y
         then (case runtime_exec h {} y (fst d) of
             Some (Inr t) \<Rightarrow> if locked_untouched (fst d) t then Some (Inr (t, snd d)) else None
           | Some (Inl e) \<Rightarrow> Some (Inl e)
           | None \<Rightarrow> None)
         else None)"

fun teardown_run ::
  "handler \<Rightarrow> ('m, 'e, 'cb) teardown_action list \<Rightarrow> ('m, 'e, 'cb) teardown \<Rightarrow>
     (error + ('m, 'e, 'cb) teardown) option" where
  "teardown_run h [] d = Some (Inr d)"
| "teardown_run h (x # xs) d = (case teardown_exec h x d of
     None \<Rightarrow> None | Some (Inl e) \<Rightarrow> Some (Inl e) | Some (Inr d') \<Rightarrow> teardown_run h xs d')"

definition spurious :: "('m, 'e, 'cb) teardown_action \<Rightarrow> bool" where
  "spurious x \<longleftrightarrow> (case x of
      Destroy \<Rightarrow> False
    | DestroySpurious \<Rightarrow> True
    | Background y \<Rightarrow> (case y of
          PriorityAction a \<Rightarrow> (case a of SpuriousDispatcher k \<Rightarrow> True | SpuriousClient \<Rightarrow> True | _ \<Rightarrow> False)
        | _ \<Rightarrow> False))"

section \<open>The tree\<close>

lemma mset_actor_dtor:
  "mset (actor_dtor T) = image_mset WaitReady (mset (tree_actors T)) + image_mset ClearPort (mset (tree_actors T))"
proof (induction T rule: actor_dtor.induct)
  case (1 i cs)
  have "mset (concat (map actor_dtor cs)) = image_mset WaitReady (mset (concat (map tree_actors cs))) +
      image_mset ClearPort (mset (concat (map tree_actors cs)))"
    using 1 by (induction cs) auto
  then show ?case by simp
qed

lemma set_actor_dtor: "set (actor_dtor T) = WaitReady ` set (tree_actors T) \<union> ClearPort ` set (tree_actors T)"
  using arg_cong [OF mset_actor_dtor, of set_mset T] by simp

lemma set_core_sections:
  "set (core_sections T) = WaitReady ` set (tree_actors T) \<union> ClearPort ` set (tree_actors T) \<union> {ClearNetwork}"
  by (simp add: core_sections_def set_actor_dtor)

lemma distinct_core_sections:
  assumes "distinct (tree_actors T)"
  shows "distinct (core_sections T)"
proof -
  let ?xs = "map WaitReady (tree_actors T) @ map ClearPort (tree_actors T)"
  have "mset (actor_dtor T) = mset ?xs" by (simp add: mset_actor_dtor)
  moreover have "distinct ?xs" using assms by (auto simp: distinct_map inj_on_def)
  ultimately have "distinct (actor_dtor T)" by (metis mset_eq_imp_distinct_iff)
  then show ?thesis by (auto simp: core_sections_def set_actor_dtor)
qed

section \<open>After the stop\<close>

definition stopped_runtime :: "('m, 'e, 'cb) runtime \<Rightarrow> bool" where
  "stopped_runtime s \<longleftrightarrow> phase_ok (rt_priority s) \<and> pstate (rt_priority s) = STOPPED \<and>
     client (rt_priority s) \<in> {CIdle, CJoin, CDestroyed}"

lemma stopped_dispatcher:
  assumes "stopped_runtime s" and "k < length (dispatchers (rt_priority s))"
  shows "dispatchers (rt_priority s) ! k = Sleeping True \<or> dispatchers (rt_priority s) ! k = Exited"
proof -
  have "out_of_work (dispatchers (rt_priority s) ! k) \<and> dispatchers (rt_priority s) ! k \<noteq> Sleeping False"
    using assms nth_mem [OF assms(2)]
    by (cases "client (rt_priority s)") (fastforce simp: stopped_runtime_def phase_ok_def)+
  then show ?thesis by (cases "dispatchers (rt_priority s) ! k") simp_all
qed

lemma stopped_not_running:
  "stopped_runtime s \<Longrightarrow> \<not> in_event k s"
  "stopped_runtime s \<Longrightarrow> k < length (dispatchers (rt_priority s)) \<Longrightarrow> dispatchers (rt_priority s) ! k \<noteq> Running i"
  using stopped_dispatcher [of s k] by (auto simp: in_event_def)

text \<open>A dispatcher can only leave its loop; the layers above the priority do not change.\<close>

lemma stopped_background:
  assumes st: "stopped_runtime s" and b: "background y" and e: "runtime_exec h {} y s = Some r"
  shows "\<exists>p fs. r = Inr (s\<lparr>rt_priority := p, rt_frames := fs\<rparr>) \<and> phase_ok p \<and> pstate p = STOPPED \<and>
    client p = client (rt_priority s) \<and>
    (if spurious (Background y) then p = rt_priority s else stop_measure p < stop_measure (rt_priority s))"
proof (cases y)
  case (CallPort c i a)
  then show ?thesis
    using e stopped_not_running(1) [OF st] by (cases c) (auto simp: runtime_exec_def may_call_def split: if_splits)
next
  case (FinishCtor c i)
  then show ?thesis
    using e stopped_not_running(1) [OF st] by (cases c) (auto simp: runtime_exec_def may_call_def split: if_splits)
next
  case (Work k)
  then show ?thesis
    using e stopped_not_running(2) [OF st] by (auto simp: runtime_exec_def split: if_splits dpc.splits)
next
  case (PriorityAction a)
  let ?p = "rt_priority s"
  have ph: "phase_ok ?p" "pstate ?p = STOPPED" using st by (simp_all add: stopped_runtime_def)
  consider (d) k where "a = Dispatch k" | (s) k where "a = SpuriousDispatcher k" | (c) "a = SpuriousClient"
    using b PriorityAction by (auto simp: background_def split: action.splits)
  then show ?thesis
  proof cases
    case d
    then obtain p where k: "k < length (dispatchers ?p)" and p: "dispatcherLoop k ?p = Some p"
      and r: "r = Inr (s\<lparr>rt_priority := p, rt_frames := (rt_frames s)[k := FNone]\<rparr>)"
      using e PriorityAction by (auto simp: runtime_exec_def exec_def split: if_splits)
    have sl: "dispatchers ?p ! k = Sleeping True" using stopped_dispatcher [OF st k] p by (auto simp: dispatcherLoop_def)
    then have l: "p = leave_loop k (?p\<lparr>sleepingCount := sleepingCount ?p - 1\<rparr>)" and u: "\<not> uncounted (dispatchers ?p ! k)"
      using p ph by (auto simp: dispatcherLoop_def after_wait_stopping loop_head_def phase_ok_def)
    have "phase_ok p" unfolding l
      by (rule phase_leave_loop [OF ph(1) k _ u]) (use ph sl in \<open>simp_all add: phase_ok_def\<close>)
    moreover have "client p = client ?p"
      using st by (auto simp: l leave_loop_def notify_started_def set_pc_def stopped_runtime_def)
    moreover have "stop_measure p < stop_measure ?p" using dispatch_stopping_decreases [OF p k _ u] ph(2) by simp
    ultimately show ?thesis
      using r dispatch_keeps_stopping(1) [OF p] ph(2) d PriorityAction
      by (intro exI [of _ p] exI [of _ "(rt_frames s)[k := FNone]"]) (simp add: spurious_def)
  next
    case s
    then have k: "k < length (dispatchers ?p)" using e PriorityAction by (auto simp: runtime_exec_def exec_def split: if_splits)
    then have "set_pc k (wake_sleeping (wake_start_blocked (dispatchers ?p ! k))) ?p = ?p"
      using stopped_dispatcher [OF st k] by (auto simp: set_pc_def list_update_same_conv)
    then have "r = Inr s" using e s k PriorityAction by (auto simp: runtime_exec_def exec_def)
    then show ?thesis
      using ph s PriorityAction by (intro exI [of _ ?p] exI [of _ "rt_frames s"]) (simp add: spurious_def)
  next
    case c
    then have "r = Inr s"
      using e PriorityAction st by (auto simp: runtime_exec_def exec_def spurious_client_def stopped_runtime_def)
    then show ?thesis
      using ph c PriorityAction by (intro exI [of _ ?p] exI [of _ "rt_frames s"]) (simp add: spurious_def)
  qed
qed

section \<open>The invariant of the destruction\<close>

definition actor_gone :: "('m, 'e, 'cb) runtime \<Rightarrow> nat \<Rightarrow> bool" where
  "actor_gone s i \<longleftrightarrow> i < length (rt_actors s) \<and> phase_of (rt_actors s ! i) = DtorLocked"

definition port_cleared :: "('m, 'e, 'cb) runtime \<Rightarrow> nat \<Rightarrow> bool" where
  "port_cleared s i \<longleftrightarrow> i < length (rt_ports s) \<and> pt_callbacks (rt_ports s ! i) = Map.empty"

definition network_cleared :: "('m, 'e, 'cb) runtime \<Rightarrow> bool" where
  "network_cleared s \<longleftrightarrow> (\<forall>i < length (rt_ports s). netListens (rt_ports s ! i) = [])"

definition ready_to_go :: "('m, 'e, 'cb) runtime \<Rightarrow> nat \<Rightarrow> bool" where
  "ready_to_go s i \<longleftrightarrow> i < length (rt_actors s) \<and> phase_of (rt_actors s ! i) = Live \<and> \<not> scheduled_flag (rt_actors s ! i)"

definition teardown_inv :: "destroy_section list \<Rightarrow> ('m, 'e, 'cb) teardown \<Rightarrow> bool" where
  "teardown_inv all d \<longleftrightarrow> stopped_runtime (fst d) \<and>
     (client (rt_priority (fst d)) = CIdle \<or> snd d = []) \<and>
     (\<exists>ds. all = ds @ snd d \<and>
       (\<forall>i. WaitReady i \<in> set ds \<longrightarrow> actor_gone (fst d) i) \<and> (\<forall>i. ClearPort i \<in> set ds \<longrightarrow> port_cleared (fst d) i) \<and>
       (ClearNetwork \<in> set ds \<longrightarrow> network_cleared (fst d)) \<and>
       (\<forall>i. WaitReady i \<in> set (snd d) \<longrightarrow> ready_to_go (fst d) i) \<and>
       (\<forall>i. ClearPort i \<in> set (snd d) \<longrightarrow> i < length (rt_ports (fst d))))"

definition teardown_weight :: "('m, 'e, 'cb) teardown \<Rightarrow> nat" where
  "teardown_weight d = length (snd d) + stop_measure (rt_priority (fst d)) +
     (case client (rt_priority (fst d)) of CIdle \<Rightarrow> 2 | CJoin \<Rightarrow> 1 | _ \<Rightarrow> 0)"

text \<open>A section of the destructor is never blocked on an actor, and every step keeps the invariant.\<close>

lemma destroy_actor_section:
  assumes inv: "teardown_inv all (s, x # ds)" and dist: "distinct all"
  shows "\<exists>t. core_dtor h (s, x # ds) = Some (Inr (t, ds)) \<and> teardown_inv all (t, ds) \<and> rt_priority t = rt_priority s"
proof -
  obtain gone where all: "all = gone @ x # ds"
    and g: "\<forall>i. WaitReady i \<in> set gone \<longrightarrow> actor_gone s i" "\<forall>i. ClearPort i \<in> set gone \<longrightarrow> port_cleared s i"
      "ClearNetwork \<in> set gone \<longrightarrow> network_cleared s"
    and r: "\<forall>i. WaitReady i \<in> set (x # ds) \<longrightarrow> ready_to_go s i"
      "\<forall>i. ClearPort i \<in> set (x # ds) \<longrightarrow> i < length (rt_ports s)"
    using inv unfolding teardown_inv_def fst_conv snd_conv by blast
  have st: "stopped_runtime s" "client (rt_priority s) = CIdle" using inv by (auto simp: teardown_inv_def)
  have new: "x \<notin> set gone" "x \<notin> set ds" using dist all by auto
  show ?thesis
  proof (cases x)
    case (WaitReady i)
    let ?a = "waitForReadyToDtor (rt_actors s ! i)" and ?t = "s\<lparr>rt_actors := (rt_actors s)[i := waitForReadyToDtor (rt_actors s ! i)]\<rparr>"
    have i: "ready_to_go s i" using r(1) WaitReady by simp
    then have "core_dtor h (s, x # ds) = Some (Inr (?t, ds))"
      by (simp add: WaitReady core_dtor_def wait_ready_def aq_exec_def ready_to_go_def waitForReadyToDtor_def)
    moreover have "phase_of ?a = DtorLocked" using i by (simp add: ready_to_go_def waitForReadyToDtor_def)
    then have "teardown_inv all (?t, ds)"
      unfolding teardown_inv_def using all g r st i new WaitReady
      by (auto simp: stopped_runtime_def actor_gone_def port_cleared_def network_cleared_def ready_to_go_def nth_list_update intro!: exI [of _ "gone @ [x]"])
    ultimately show ?thesis by auto
  next
    case (ClearPort i)
    let ?t = "s\<lparr>rt_ports := (rt_ports s)[i := port_destroy (rt_ports s ! i)]\<rparr>"
    have i: "i < length (rt_ports s)" using r(2) ClearPort by simp
    then have "core_dtor h (s, x # ds) = Some (Inr (?t, ds))" by (simp add: ClearPort core_dtor_def)
    moreover have "teardown_inv all (?t, ds)"
      unfolding teardown_inv_def using all g r st i ClearPort
      by (auto simp: stopped_runtime_def actor_gone_def port_cleared_def network_cleared_def ready_to_go_def nth_list_update port_destroy_def
          intro!: exI [of _ "gone @ [x]"])
    ultimately show ?thesis by auto
  next
    case ClearNetwork
    have "core_dtor h (s, x # ds) = Some (Inr (network_destroy s, ds))" by (simp add: ClearNetwork core_dtor_def)
    moreover have "teardown_inv all (network_destroy s, ds)"
      unfolding teardown_inv_def using all g r st ClearNetwork
      by (auto simp: stopped_runtime_def actor_gone_def port_cleared_def network_cleared_def ready_to_go_def network_destroy_def
          intro!: exI [of _ "gone @ [x]"])
    ultimately show ?thesis by (auto simp: network_destroy_def)
  qed
qed

lemma destroy_priority:
  assumes inv: "teardown_inv all (s, [])"
  shows "core_dtor h (s, []) = None \<or>
    (\<exists>t. core_dtor h (s, []) = Some (Inr (t, [])) \<and> teardown_inv all (t, []) \<and>
      teardown_weight (t, []) < teardown_weight (s, []) \<and> rt_actors t = rt_actors s \<and> rt_ports t = rt_ports s)"
    "client (rt_priority s) = CIdle \<or> client (rt_priority s) = CJoin \<and> all_exited (rt_priority s) \<Longrightarrow>
      core_dtor h (s, []) \<noteq> None"
proof -
  let ?p = "rt_priority s"
  have st: "stopped_runtime s" using inv by (simp add: teardown_inv_def)
  have keep: "teardown_inv all (s\<lparr>rt_priority := p\<rparr>, [])"
    if "phase_ok p" "pstate p = STOPPED" "client p \<in> {CIdle, CJoin, CDestroyed}" for p
    using inv that by (auto simp: teardown_inv_def stopped_runtime_def actor_gone_def port_cleared_def network_cleared_def)
  consider "client ?p = CIdle" | "client ?p = CJoin" | "client ?p = CDestroyed" using st by (auto simp: stopped_runtime_def)
  then show "core_dtor h (s, []) = None \<or>
    (\<exists>t. core_dtor h (s, []) = Some (Inr (t, [])) \<and> teardown_inv all (t, []) \<and>
      teardown_weight (t, []) < teardown_weight (s, []) \<and> rt_actors t = rt_actors s \<and> rt_ports t = rt_ports s)"
  proof cases
    case 1
    let ?q = "?p\<lparr>inDtor := True, client := CJoin\<rparr>"
    have "phase_ok ?q" using st 1 by (auto simp: stopped_runtime_def phase_ok_def)
    then have "teardown_inv all (s\<lparr>rt_priority := ?q\<rparr>, [])" using keep st by (simp add: stopped_runtime_def)
    moreover have "core_dtor h (s, []) = Some (Inr (s\<lparr>rt_priority := ?q\<rparr>, []))"
      using st 1 by (simp add: core_dtor_def exec_def destructor_def stopped_runtime_def)
    ultimately show ?thesis using 1 by (simp add: teardown_weight_def stop_measure_def)
  next
    case 2
    let ?q = "?p\<lparr>client := CDestroyed\<rparr>"
    show ?thesis
    proof (cases "list_all (\<lambda>c. c = Exited) (dispatchers ?p)")
      case True
      then have "phase_ok ?q" using st 2 by (auto simp: stopped_runtime_def phase_ok_def list_all_iff)
      then have "teardown_inv all (s\<lparr>rt_priority := ?q\<rparr>, [])" using keep st by (simp add: stopped_runtime_def)
      moreover have "core_dtor h (s, []) = Some (Inr (s\<lparr>rt_priority := ?q\<rparr>, []))"
        using True 2 by (simp add: core_dtor_def exec_def client_section_def)
      ultimately show ?thesis using 2 by (simp add: teardown_weight_def stop_measure_def)
    qed (use 2 in \<open>simp add: core_dtor_def exec_def client_section_def\<close>)
  qed (simp add: core_dtor_def exec_def client_section_def)
  show "client ?p = CIdle \<or> client ?p = CJoin \<and> all_exited ?p \<Longrightarrow> core_dtor h (s, []) \<noteq> None"
    by (auto simp: core_dtor_def exec_def client_section_def all_exited_def list_all_iff)
qed

lemma teardown_background:
  assumes inv: "teardown_inv all (s, ds)" and e: "teardown_exec h (Background y) (s, ds) = Some r"
  shows "\<exists>t. r = Inr (t, ds) \<and> teardown_inv all (t, ds) \<and> rt_actors t = rt_actors s \<and> rt_ports t = rt_ports s \<and>
    (if spurious (Background y) then teardown_weight (t, ds) = teardown_weight (s, ds)
     else teardown_weight (t, ds) < teardown_weight (s, ds))"
proof -
  have st: "stopped_runtime s" using inv by (simp add: teardown_inv_def)
  obtain q where b: "background y" and q: "runtime_exec h {} y s = Some q"
    using e by (auto simp: teardown_exec_def split: if_splits option.splits)
  from stopped_background [OF st b q] obtain p fs where t: "q = Inr (s\<lparr>rt_priority := p, rt_frames := fs\<rparr>)"
    and p: "phase_ok p" "pstate p = STOPPED" "client p = client (rt_priority s)"
    and w: "if spurious (Background y) then p = rt_priority s else stop_measure p < stop_measure (rt_priority s)"
    by blast
  let ?t = "s\<lparr>rt_priority := p, rt_frames := fs\<rparr>"
  have "r = Inr (?t, ds)" using e q b t by (simp add: teardown_exec_def split: if_splits)
  moreover have "teardown_inv all (?t, ds)"
    using inv p by (simp add: teardown_inv_def stopped_runtime_def actor_gone_def port_cleared_def network_cleared_def ready_to_go_def)
  ultimately show ?thesis using w p(3) by (auto simp: teardown_weight_def)
qed

lemma teardown_step:
  assumes inv: "teardown_inv all d" and dist: "distinct all" and e: "teardown_exec h x d = Some r"
  shows "\<exists>d'. r = Inr d' \<and> teardown_inv all d' \<and>
    (if spurious x then teardown_weight d' = teardown_weight d else teardown_weight d' < teardown_weight d)"
proof -
  obtain s ds where d: "d = (s, ds)" by (cases d)
  show ?thesis
  proof (cases x)
    case Destroy
    then have e: "core_dtor h d = Some r" using e by (simp add: teardown_exec_def)
    show ?thesis
    proof (cases ds)
      case Nil
      then show ?thesis using destroy_priority(1) [of all s h] inv e Destroy d by (auto simp: spurious_def)
    next
      case (Cons x ds')
      obtain t where "core_dtor h (s, x # ds') = Some (Inr (t, ds'))" "teardown_inv all (t, ds')" "rt_priority t = rt_priority s"
        using destroy_actor_section [of all s x ds'] inv dist d Cons by blast
      then show ?thesis using e d Cons Destroy by (auto simp: spurious_def teardown_weight_def)
    qed
  next
    case DestroySpurious
    then obtain i ds' where i: "ds = WaitReady i # ds'" "aq_exec False DtorSpurious (rt_actors s ! i) \<noteq> None"
      using e d by (auto simp: teardown_exec_def split: list.splits destroy_section.splits if_splits)
    then have "ready_to_go s i" using inv d by (auto simp: teardown_inv_def)
    then show ?thesis using i(2) by (simp add: aq_exec_def ready_to_go_def)
  next
    case (Background y)
    then obtain t where "r = Inr (t, ds)" "teardown_inv all (t, ds)" "if spurious x
        then teardown_weight (t, ds) = teardown_weight (s, ds) else teardown_weight (t, ds) < teardown_weight (s, ds)"
      using teardown_background [of all s ds h y r] inv e d by blast
    then show ?thesis using d by (intro exI [of _ "(t, ds)"]) simp
  qed
qed

lemma teardown_steps:
  assumes "teardown_inv all d" and "distinct all" and "teardown_run h xs d = Some r"
  shows "\<exists>d'. r = Inr d' \<and> teardown_inv all d' \<and>
    length (filter (\<lambda>x. \<not> spurious x) xs) + teardown_weight d' \<le> teardown_weight d"
  using assms
proof (induction xs arbitrary: d)
  case (Cons x xs)
  then obtain q where q: "teardown_exec h x d = Some q" by (auto split: option.splits)
  from teardown_step [OF Cons.prems(1,2) q] obtain d' where d': "q = Inr d'" "teardown_inv all d'"
    "if spurious x then teardown_weight d' = teardown_weight d else teardown_weight d' < teardown_weight d" by blast
  then have "teardown_run h xs d' = Some r" using Cons.prems(3) q by simp
  from Cons.IH [OF d'(2) Cons.prems(2) this] d'(3) show ?case by (fastforce split: if_splits)
qed auto

text \<open>As long as the core is not destroyed, somebody can go on.\<close>

lemma teardown_goes_on:
  assumes inv: "teardown_inv all (s, ds)" and dist: "distinct all"
    and nd: "\<not> (ds = [] \<and> client (rt_priority s) = CDestroyed)"
  shows "\<exists>x. \<not> spurious x \<and> teardown_exec h x (s, ds) \<noteq> None"
proof (cases ds)
  case (Cons x ds')
  then have "core_dtor h (s, ds) \<noteq> None" using destroy_actor_section [of all s x ds' h] inv dist by fastforce
  then show ?thesis by (intro exI [of _ Destroy]) (simp add: teardown_exec_def spurious_def)
next
  case Nil
  have st: "stopped_runtime s" using inv by (simp add: teardown_inv_def)
  show ?thesis
  proof (cases "client (rt_priority s) = CIdle \<or> all_exited (rt_priority s)")
    case True
    then have "core_dtor h (s, ds) \<noteq> None"
      using destroy_priority(2) [of all s h] inv Nil nd st by (auto simp: stopped_runtime_def)
    then show ?thesis by (intro exI [of _ Destroy]) (simp add: teardown_exec_def spurious_def)
  next
    case False
    then obtain k where k: "k < length (dispatchers (rt_priority s))" "dispatchers (rt_priority s) ! k \<noteq> Exited"
      by (auto simp: all_exited_def in_set_conv_nth)
    then have "dispatchers (rt_priority s) ! k = Sleeping True" using stopped_dispatcher [OF st] by blast
    then show ?thesis using k(1)
      by (intro exI [of _ "Background (PriorityAction (Dispatch k))"])
        (simp add: teardown_exec_def background_def spurious_def runtime_exec_def exec_def job_done_def dispatcherLoop_def
          locked_untouched_def)
  qed
qed

lemma teardown_begin:
  assumes reach: "runtime_reachable h n N E s" and oc: "obeys_contract h"
    and st: "pstate (rt_priority s) = STOPPED" "client (rt_priority s) = CIdle"
    and live: "\<forall>i \<in> set (tree_actors T). i < N \<and> phase_of (rt_actors s ! i) = Live"
  shows "teardown_inv (core_sections T) (s, core_sections T)"
proof -
  have inv: "runtime_inv s" and len: "length (rt_actors s) = N" "length (rt_ports s) = N"
    using runtime_reachable_inv [OF reach] by (simp_all add: runtime_inv_def)
  have ph: "phase_ok (rt_priority s)" by (rule reachable_phase [OF runtime_reachable_priority [OF reach] oc])
  then have "actorQueue (rt_priority s) = []" using st by (simp add: phase_ok_def)
  then have "phase_of (waitForReadyToDtor (rt_actors s ! i)) = DtorLocked" if "i \<in> set (tree_actors T)" for i
    using quiet_handled [OF inv _ _ _ stopped_quiet [OF ph st(1)]] live len that by simp
  then have "ready_to_go s i" if "i \<in> set (tree_actors T)" for i
    using live len that by (fastforce simp: ready_to_go_def waitForReadyToDtor_def split: if_splits)
  then show ?thesis
    using ph st live len by (auto simp: teardown_inv_def stopped_runtime_def set_core_sections)
qed

lemma teardown_completes:
  assumes "runtime_reachable h n N E s" and "obeys_contract h"
    and "pstate (rt_priority s) = STOPPED" and "client (rt_priority s) = CIdle"
    and "distinct (tree_actors T)" and "\<forall>i \<in> set (tree_actors T). i < N \<and> phase_of (rt_actors s ! i) = Live"
    and "teardown_run h xs (s, core_sections T) = Some r"
  shows "length (filter (\<lambda>x. \<not> spurious x) xs) \<le> teardown_weight (s, core_sections T) \<and>
    (\<exists>t ds. r = Inr (t, ds) \<and>
      (\<forall>i \<in> set (tree_actors T). phase_of (rt_actors t ! i) \<in> {Live, DtorLocked}) \<and>
      ((\<exists>x. \<not> spurious x \<and> teardown_exec h x (t, ds) \<noteq> None) \<or>
       client (rt_priority t) = CDestroyed \<and> (\<forall>c \<in> set (dispatchers (rt_priority t)). c = Exited) \<and>
       (\<forall>i \<in> set (tree_actors T). phase_of (rt_actors t ! i) = DtorLocked \<and> pt_callbacks (rt_ports t ! i) = Map.empty) \<and>
       (\<forall>i < length (rt_ports t). netListens (rt_ports t ! i) = [])))"
proof -
  note dist = distinct_core_sections [OF assms(5)]
  from teardown_steps [OF teardown_begin [OF assms(1-4,6)] dist assms(7)]
  obtain t ds where r: "r = Inr (t, ds)" and inv: "teardown_inv (core_sections T) (t, ds)"
    and w: "length (filter (\<lambda>x. \<not> spurious x) xs) + teardown_weight (t, ds) \<le> teardown_weight (s, core_sections T)"
    by auto
  obtain gone where all: "core_sections T = gone @ ds"
    and g: "\<forall>i. WaitReady i \<in> set gone \<longrightarrow> actor_gone t i" "\<forall>i. ClearPort i \<in> set gone \<longrightarrow> port_cleared t i"
      "ClearNetwork \<in> set gone \<longrightarrow> network_cleared t"
    and l: "\<forall>i. WaitReady i \<in> set ds \<longrightarrow> ready_to_go t i" and st: "stopped_runtime t"
    using inv by (auto simp: teardown_inv_def)
  have mem: "WaitReady i \<in> set gone \<union> set ds" "ClearPort i \<in> set gone \<union> set ds" if "i \<in> set (tree_actors T)" for i
    using that set_core_sections [of T] all by auto
  have p: "\<forall>i \<in> set (tree_actors T). phase_of (rt_actors t ! i) \<in> {Live, DtorLocked}"
    using mem(1) g(1) l by (fastforce simp: actor_gone_def ready_to_go_def)
  have e: "(\<forall>c \<in> set (dispatchers (rt_priority t)). c = Exited) \<and> (\<forall>i \<in> set (tree_actors T).
      phase_of (rt_actors t ! i) = DtorLocked \<and> pt_callbacks (rt_ports t ! i) = Map.empty) \<and>
      (\<forall>i < length (rt_ports t). netListens (rt_ports t ! i) = [])"
    if "ds = []" "client (rt_priority t) = CDestroyed"
    using that mem g st set_core_sections [of T] all
    by (auto simp: actor_gone_def port_cleared_def network_cleared_def stopped_runtime_def phase_ok_def)
  have "(\<exists>x. \<not> spurious x \<and> teardown_exec h x (t, ds) \<noteq> None) \<or> ds = [] \<and> client (rt_priority t) = CDestroyed"
    using teardown_goes_on [OF inv dist, of h] by blast
  then show ?thesis using w r p e by (intro conjI exI [of _ t] exI [of _ ds]) (simp, blast+)
qed

section \<open>Properties\<close>

text \<open>
  C15: the core is destroyed after a stop. From every state in which the priority has been stopped, however the
  dispatchers go on meanwhile: nothing ends in an error, no destructor waits for its actor, apart from spurious
  wake-ups a bounded number of steps is taken, and as long as not every actor is destroyed, every port and the
  network cleared and every dispatcher joined, somebody can go on.
\<close>

theorem core_destructor_completes:
  assumes "runtime_reachable h n N E s" and "obeys_contract h"
    and "pstate (rt_priority s) = STOPPED" and "client (rt_priority s) = CIdle"
    and "distinct (tree_actors T)" and "\<forall>i \<in> set (tree_actors T). i < N \<and> phase_of (rt_actors s ! i) = Live"
    and "teardown_run h xs (s, core_sections T) = Some r"
  shows "length (filter (\<lambda>x. \<not> spurious x) xs) \<le> teardown_weight (s, core_sections T) \<and>
    (\<exists>t ds. r = Inr (t, ds) \<and>
      (\<forall>i \<in> set (tree_actors T). phase_of (rt_actors t ! i) \<in> {Live, DtorLocked}) \<and>
      ((\<exists>x. \<not> spurious x \<and> teardown_exec h x (t, ds) \<noteq> None) \<or>
       client (rt_priority t) = CDestroyed \<and> (\<forall>c \<in> set (dispatchers (rt_priority t)). c = Exited) \<and>
       (\<forall>i \<in> set (tree_actors T). phase_of (rt_actors t ! i) = DtorLocked \<and> pt_callbacks (rt_ports t ! i) = Map.empty) \<and>
       (\<forall>i < length (rt_ports t). netListens (rt_ports t ! i) = [])))"
  by (rule teardown_completes [OF assms])

definition demo_stop_actions :: "(nat, nat, nat) runtime_action list" where
  "demo_stop_actions = [PriorityAction Client, PriorityAction CallStop, PriorityAction SpuriousClient, PriorityAction Client]"

definition demo_teardown :: "(nat, nat, nat) teardown_action list" where
  "demo_teardown = [Destroy, Background (PriorityAction (Dispatch 0)), Destroy, Destroy, Destroy, Destroy]"

definition demo_stopped_runtime :: "(nat, nat, nat) runtime" where
  "demo_stopped_runtime = demo_runtime_idle\<lparr>rt_priority := (rt_priority demo_runtime_idle)\<lparr>pstate := STOPPED,
     dispatchers := [Sleeping True], client := CIdle\<rparr>\<rparr>"

lemma demo_stopped_runtime_reach: "START \<in> E \<Longrightarrow> runtime_reachable onErrorFunc 1 1 E demo_stopped_runtime"
proof (rule runtime_run_reachable [OF _ demo_runtime_idle_reach])
  show "runtime_run onErrorFunc E demo_stop_actions demo_runtime_idle = Some (Inr demo_stopped_runtime)"
    by (simp add: demo_stop_actions_def demo_stopped_runtime_def runtime_exec_def exec_def core_defs all_done_def
        demo_runtime_idle_def Let_def)
qed

lemma demo_teardown_run:
  "\<exists>t. teardown_run onErrorFunc demo_teardown (demo_stopped_runtime, core_sections (ActorTree 0 [])) = Some (Inr (t, [])) \<and>
     client (rt_priority t) = CDestroyed"
  by (simp add: demo_teardown_def demo_stopped_runtime_def demo_runtime_idle_def teardown_exec_def core_dtor_def wait_ready_def
      aq_exec_def waitForReadyToDtor_def background_def locked_untouched_def runtime_exec_def exec_def job_done_def
      core_defs port_destroy_def network_destroy_def core_sections_def Let_def)

lemma core_destructor_completes_witness:
  "\<exists>t. teardown_run onErrorFunc demo_teardown (demo_stopped_runtime, core_sections (ActorTree 0 [])) = Some (Inr (t, [])) \<and>
     client (rt_priority t) = CDestroyed \<and> phase_of (rt_actors t ! 0) \<in> {Live, DtorLocked}"
proof -
  obtain t where t: "teardown_run onErrorFunc demo_teardown (demo_stopped_runtime, core_sections (ActorTree 0 [])) =
      Some (Inr (t, []))" "client (rt_priority t) = CDestroyed"
    using demo_teardown_run by blast
  from core_destructor_completes [OF demo_stopped_runtime_reach [of "{START}"] _ _ _ _ _ t(1)] t show ?thesis
    by (simp add: demo_stopped_runtime_def demo_runtime_idle_def)
qed

text \<open>
  C16: nobody uses what is being destroyed. From a stop on, at every point of the destruction of the core, no
  dispatcher and no other thread than the one that destroys can take a step that changes an actor or a port.
\<close>

theorem destruction_is_undisturbed:
  assumes "runtime_reachable h n N E s" and "obeys_contract h"
    and "pstate (rt_priority s) = STOPPED" and "client (rt_priority s) = CIdle"
    and "distinct (tree_actors T)" and "\<forall>i \<in> set (tree_actors T). i < N \<and> phase_of (rt_actors s ! i) = Live"
    and "teardown_run h xs (s, core_sections T) = Some (Inr (t, ds))"
    and "background y" and "runtime_exec h {} y t = Some r"
  shows "\<exists>u. r = Inr u \<and> rt_actors u = rt_actors t \<and> rt_ports u = rt_ports t"
proof -
  from teardown_steps [OF teardown_begin [OF assms(1-4,6)] distinct_core_sections [OF assms(5)] assms(7)]
  have "stopped_runtime t" by (auto simp: teardown_inv_def)
  from stopped_background [OF this assms(8,9)] show ?thesis by auto
qed

lemma destruction_is_undisturbed_witness:
  "\<exists>t u. teardown_run onErrorFunc [Destroy] (demo_stopped_runtime, core_sections (ActorTree 0 [])) =
       Some (Inr (t, [ClearPort 0, ClearNetwork])) \<and>
     runtime_exec onErrorFunc {} (PriorityAction (Dispatch 0)) t = Some (Inr u) \<and> rt_actors u = rt_actors t"
proof -
  obtain t where t: "teardown_run onErrorFunc [Destroy] (demo_stopped_runtime, core_sections (ActorTree 0 [])) =
      Some (Inr (t, [ClearPort 0, ClearNetwork]))" "runtime_exec onErrorFunc {} (PriorityAction (Dispatch 0)) t \<noteq> None"
    by (simp add: demo_stopped_runtime_def demo_runtime_idle_def teardown_exec_def core_dtor_def wait_ready_def
        aq_exec_def waitForReadyToDtor_def runtime_exec_def exec_def job_done_def core_defs core_sections_def Let_def)
  then obtain r where r: "runtime_exec onErrorFunc {} (PriorityAction (Dispatch 0)) t = Some r" by blast
  have "background (PriorityAction (Dispatch 0) :: (nat, nat, nat) runtime_action)" by (simp add: background_def)
  from destruction_is_undisturbed [OF demo_stopped_runtime_reach [of "{START}"] _ _ _ _ _ t(1) this r] r t(1) show ?thesis
    by (auto simp: demo_stopped_runtime_def demo_runtime_idle_def)
qed

end
