(* ===== verification/Core_Run.thy ===== *)
theory Core_Run
  imports Priority_Properties
begin

text \<open>
  \<^verbatim>\<open>Core::run\<close>, \<^verbatim>\<open>rapi_core/src/core.cpp\<close>, together with the
  callback of the core for the confirmation of the stop (\<^verbatim>\<open>Core::init\<close>,
  \<^verbatim>\<open>core.hpp\<close>): the client thread of the priority of
  \<^verbatim>\<open>Priority_Dispatch\<close> executes \<^verbatim>\<open>run\<close>, and what a dispatcher
  executes may enter that callback, any number of times.

  Sections are atomic as in \<^verbatim>\<open>Priority_Dispatch\<close>. The program counter of
  \<^verbatim>\<open>run\<close> tells whether it holds \<^verbatim>\<open>stopMutex_\<close>: from the end
  of the wait for \<^verbatim>\<open>stopEvent_\<close> to its return, that is also during the whole of
  \<^verbatim>\<open>Priority::stop\<close>. The callback takes the mutex only to write
  \<^verbatim>\<open>running_\<close>.
\<close>

section \<open>State\<close>

datatype run_pc =
    RNotCalled
  | REntered          \<comment> \<open>\<open>running_\<close> is set, before \<open>Priority::start\<close>\<close>
  | RStarting         \<comment> \<open>in \<open>Priority::start\<close>\<close>
  | RIdling           \<comment> \<open>in \<open>Priority::waitForIdle\<close>\<close>
  | RSending          \<comment> \<open>in \<open>sendStartReq_\<close>\<close>
  | RLocking          \<comment> \<open>about to lock \<open>stopMutex_\<close>\<close>
  | RWaiting bool     \<comment> \<open>in \<open>stopEvent_.wait\<close>; \<open>True\<close>: notified\<close>
  | RHolding          \<comment> \<open>the wait is over, \<open>stopMutex_\<close> is held\<close>
  | RStopping         \<comment> \<open>in \<open>Priority::stop\<close>, \<open>stopMutex_\<close> is still held\<close>
  | RReturned

datatype core_pc =
    NotInCore
  | CoreLock          \<comment> \<open>about to lock \<open>stopMutex_\<close>\<close>
  | CoreNotify        \<comment> \<open>mutex released, before \<open>stopEvent_.notify_one\<close>\<close>

text \<open>\<open>confirmations\<close> is a ghost: how often the callback has written \<open>running_\<close>.\<close>

record 'job core =
  prio_of :: "'job prio"
  running_flag :: bool
  run_pc :: run_pc
  callbacks :: "core_pc list"
  confirmations :: nat

definition core_init :: "int \<Rightarrow> 'job core" where
  "core_init n = \<lparr>prio_of = priority_init n, running_flag = False, run_pc = RNotCalled,
     callbacks = replicate (nat n) NotInCore, confirmations = 0\<rparr>"

definition stopMutex_free :: "'job core \<Rightarrow> bool" where
  "stopMutex_free s \<longleftrightarrow> run_pc s \<noteq> RHolding \<and> run_pc s \<noteq> RStopping"

section \<open>The sections of run\<close>

text \<open>A section of a member function of the priority, after which \<open>run\<close> is at \<open>c\<close>.\<close>

definition prio_part :: "handler \<Rightarrow> 'job action \<Rightarrow> run_pc \<Rightarrow> 'job core \<Rightarrow> (error + 'job core) option" where
  "prio_part h a c s = map_option (map_sum id (\<lambda>p. s\<lparr>prio_of := p, run_pc := c\<rparr>)) (exec h a (prio_of s))"

definition wait_stop :: "'job core \<Rightarrow> 'job core" where
  "wait_stop s = s\<lparr>run_pc := (if running_flag s then RWaiting False else RHolding)\<rparr>"

definition run_section :: "handler \<Rightarrow> 'job core \<Rightarrow> (error + 'job core) option" where
  "run_section h s = (let idle = (client (prio_of s) = CIdle) in
     case run_pc s of
       RNotCalled \<Rightarrow> Some (Inr (s\<lparr>running_flag := True, run_pc := REntered\<rparr>))
     | REntered \<Rightarrow> prio_part h CallStart RStarting s
     | RStarting \<Rightarrow> if idle then prio_part h CallWaitForIdle RIdling s else prio_part h Client RStarting s
     | RIdling \<Rightarrow> if idle then Some (Inr (s\<lparr>run_pc := RSending\<rparr>)) else prio_part h Client RIdling s
     | RSending \<Rightarrow> Some (Inr (s\<lparr>run_pc := RLocking\<rparr>))
     | RLocking \<Rightarrow> Some (Inr (wait_stop s))
     | RWaiting b \<Rightarrow> if b then Some (Inr (wait_stop s)) else None
     | RHolding \<Rightarrow> prio_part h CallStop RStopping s
     | RStopping \<Rightarrow> if idle then Some (Inr (s\<lparr>run_pc := RReturned\<rparr>)) else prio_part h Client RStopping s
     | RReturned \<Rightarrow> None)"

section \<open>The callback of the core\<close>

definition core_callback :: "nat \<Rightarrow> 'job core \<Rightarrow> 'job core option" where
  "core_callback i s = (case callbacks s ! i of
       NotInCore \<Rightarrow>
         if is_running (dispatchers (prio_of s) ! i)
         then Some (s\<lparr>callbacks := (callbacks s)[i := CoreLock]\<rparr>) else None
     | CoreLock \<Rightarrow>
         if stopMutex_free s
         then Some (s\<lparr>callbacks := (callbacks s)[i := CoreNotify], running_flag := False,
                     confirmations := confirmations s + 1\<rparr>) else None
     | CoreNotify \<Rightarrow>
         Some (s\<lparr>callbacks := (callbacks s)[i := NotInCore],
                run_pc := (case run_pc s of RWaiting b \<Rightarrow> RWaiting True | c \<Rightarrow> c)\<rparr>))"

section \<open>Steps and runs\<close>

datatype 'job core_action =
    RunSection               \<comment> \<open>\<open>run\<close> executes its next section\<close>
  | RunSchedules 'job        \<comment> \<open>\<open>sendStartReq_\<close> publishes, which schedules an actor\<close>
  | RunSpurious
  | CoreCallback nat         \<comment> \<open>dispatcher \<open>i\<close> executes the next section of the callback\<close>
  | PrioAction "'job action" \<comment> \<open>a dispatcher, or a thread that schedules\<close>

text \<open>The actions of the priority that are not calls of \<open>run\<close>; a dispatcher in the callback is busy.\<close>

definition other_action :: "'job core \<Rightarrow> 'job action \<Rightarrow> bool" where
  "other_action s a = (case a of
       Dispatch i \<Rightarrow> i < length (callbacks s) \<and> callbacks s ! i = NotInCore
     | CallSchedule (Dispatcher i) j \<Rightarrow> i < length (callbacks s) \<and> callbacks s ! i = NotInCore
     | CallSchedule External j \<Rightarrow> True
     | SpuriousDispatcher i \<Rightarrow> True
     | SpuriousClient \<Rightarrow> True
     | _ \<Rightarrow> False)"

definition core_exec ::
  "handler \<Rightarrow> pstate set \<Rightarrow> 'job core_action \<Rightarrow> 'job core \<Rightarrow> (error + 'job core) option" where
  "core_exec h E a s = (case a of
       RunSection \<Rightarrow> run_section h s
     | RunSchedules j \<Rightarrow>
         if run_pc s = RSending then prio_part h (CallSchedule External j) RSending s else None
     | RunSpurious \<Rightarrow>
         Some (Inr (s\<lparr>run_pc := (case run_pc s of RWaiting b \<Rightarrow> RWaiting True | c \<Rightarrow> c)\<rparr>))
     | CoreCallback i \<Rightarrow> if i < length (callbacks s) then map_option Inr (core_callback i s) else None
     | PrioAction a \<Rightarrow>
         if other_action s a \<and> allowed E a (prio_of s) then prio_part h a (run_pc s) s else None)"

fun core_steps ::
  "handler \<Rightarrow> pstate set \<Rightarrow> 'job core_action list \<Rightarrow> 'job core \<Rightarrow> (error + 'job core) option" where
  "core_steps h E [] s = Some (Inr s)"
| "core_steps h E (a # as) s = (case core_exec h E a s of
     None \<Rightarrow> None | Some (Inl e) \<Rightarrow> Some (Inl e) | Some (Inr t) \<Rightarrow> core_steps h E as t)"

inductive core_reachable :: "handler \<Rightarrow> int \<Rightarrow> pstate set \<Rightarrow> 'job core \<Rightarrow> bool"
  for h :: handler and n :: int and E :: "pstate set" where
  init: "core_reachable h n E (core_init n)"
| step: "core_reachable h n E s \<Longrightarrow> core_exec h E a s = Some (Inr t) \<Longrightarrow> core_reachable h n E t"

lemma core_steps_append:
  "core_steps h E (as @ bs) s = (case core_steps h E as s of
     Some (Inr t) \<Rightarrow> core_steps h E bs t | r \<Rightarrow> r)"
  by (induction as arbitrary: s) (auto split: option.splits sum.splits)

lemma core_steps_reachable:
  "core_steps h E as s = Some (Inr t) \<Longrightarrow> core_reachable h n E s \<Longrightarrow> core_reachable h n E t"
proof (induction as arbitrary: s)
  case (Cons a as)
  then obtain u where "core_exec h E a s = Some (Inr u)" "core_steps h E as u = Some (Inr t)"
    by (auto split: option.splits sum.splits)
  then show ?case using Cons core_reachable.step by blast
qed simp

section \<open>The priority of a core is a reachable priority\<close>

lemma prio_part_iff:
  "prio_part h a c s = Some (Inr t) \<longleftrightarrow>
     (\<exists>p. exec h a (prio_of s) = Some (Inr p) \<and> t = s\<lparr>prio_of := p, run_pc := c\<rparr>)"
  by (cases "exec h a (prio_of s)"; cases "the (exec h a (prio_of s))") (auto simp: prio_part_def)

text \<open>A step leaves the priority alone or is one step of it.\<close>

lemma core_exec_priority:
  assumes "core_exec h E a s = Some (Inr t)"
  shows "prio_of t = prio_of s \<or>
    (\<exists>b. exec h b (prio_of s) = Some (Inr (prio_of t)) \<and>
       (allowed E b (prio_of s) \<or> run_pc s = RSending \<and> (\<exists>j. b = CallSchedule External j)))"
proof (cases a)
  case RunSection
  have al: "allowed E Client p" "allowed E CallStart p" "allowed E CallStop p" "allowed E CallWaitForIdle p"
    for p :: "'a prio" by (simp_all add: allowed_def)
  from RunSection assms have "run_section h s = Some (Inr t)" by (simp add: core_exec_def)
  then show ?thesis using al
    by (cases "run_pc s") (auto simp: run_section_def prio_part_iff wait_stop_def Let_def split: if_splits)
next
  case (CoreCallback i)
  with assms show ?thesis
    by (auto simp: core_exec_def core_callback_def split: if_splits core_pc.splits)
qed (use assms in \<open>auto simp: core_exec_def prio_part_iff split: if_splits\<close>)

section \<open>Invariants\<close>

text \<open>Where the client of the priority is, for every place in \<open>run\<close>.\<close>

definition run_ok :: "'job core \<Rightarrow> bool" where
  "run_ok s \<longleftrightarrow> (let c = spurious_client (client (prio_of s)); q = pstate (prio_of s) in
     case run_pc s of
       RNotCalled \<Rightarrow> c = CIdle \<and> q = START
     | REntered \<Rightarrow> c = CIdle \<and> q = START
     | RStarting \<Rightarrow> (c = CIdle \<or> c = CStartNotify \<or> c = CStartWait True) \<and> q = RUNNING
     | RIdling \<Rightarrow> (c = CIdle \<or> c = CIdleWait True) \<and> q = RUNNING
     | RStopping \<Rightarrow> (c = CIdle \<or> c = CStopNotify) \<and> q = STOPPED \<or> c = CStopWait True \<and> q = STOPPING
     | RReturned \<Rightarrow> c = CIdle \<and> q = STOPPED
     | _ \<Rightarrow> c = CIdle \<and> q = RUNNING) \<and> \<not> inDtor (prio_of s)"

definition callbacks_ok :: "'job core \<Rightarrow> bool" where
  "callbacks_ok s \<longleftrightarrow> length (callbacks s) = length (dispatchers (prio_of s)) \<and>
     (\<forall>i < length (callbacks s). callbacks s ! i \<noteq> NotInCore \<longrightarrow> is_running (dispatchers (prio_of s) ! i))"

definition flag_ok :: "'job core \<Rightarrow> bool" where
  "flag_ok s \<longleftrightarrow> (case run_pc s of
       RNotCalled \<Rightarrow> confirmations s = 0
     | REntered \<Rightarrow> running_flag s \<and> confirmations s = 0
     | RHolding \<Rightarrow> \<not> running_flag s
     | RStopping \<Rightarrow> \<not> running_flag s
     | RReturned \<Rightarrow> \<not> running_flag s
     | _ \<Rightarrow> True) \<and>
     (\<not> running_flag s \<and> run_pc s \<noteq> RNotCalled \<longrightarrow> 0 < confirmations s) \<and>
     (run_pc s = RWaiting False \<and> \<not> running_flag s \<longrightarrow> CoreNotify \<in> set (callbacks s))"

text \<open>What the other threads leave alone.\<close>

lemma other_frame:
  assumes "exec h a p = Some (Inr p')"
    and "case a of Dispatch i \<Rightarrow> True | CallSchedule c j \<Rightarrow> True | SpuriousDispatcher i \<Rightarrow> True
      | SpuriousClient \<Rightarrow> True | _ \<Rightarrow> False"
  shows "spurious_client (client p') = spurious_client (client p) \<and> pstate p' = pstate p \<and> inDtor p' = inDtor p"
proof (cases a)
  case (Dispatch i)
  then have d: "dispatcherLoop i p = Some p'" using assms(1) by (auto simp: exec_def split: if_splits)
  then have "spurious_client (client p') = spurious_client (client p)"
    by (cases "client p") (auto simp: dispatcherLoop_def start_wait_def count_started_def loop_head_def after_wait_def
        take_job_def go_to_sleep_def leave_loop_def set_pc_def spurious_client_def Let_def
        split: dpc.splits if_splits list.splits)
  then show ?thesis using dispatch_keeps_stopping(1,3) [OF d] by simp
next
  case (CallSchedule c j)
  then show ?thesis using assms(1)
    by (auto simp: exec_def schedule_def notify_all_schedule_def Let_def split: if_splits)
next
  case SpuriousClient
  then show ?thesis using assms(1)
    by (cases "client p") (auto simp: exec_def spurious_client_def)
qed (use assms in \<open>auto simp: exec_def set_pc_def split: if_splits\<close>)

lemma core_exec_run_ok:
  assumes "core_exec h E a s = Some (Inr t)" and "run_ok s" and "obeys_contract h"
  shows "run_ok t"
proof (cases a)
  case RunSection
  then have r: "run_section h s = Some (Inr t)" using assms(1) by (simp add: core_exec_def)
  show ?thesis
    using r assms(2,3)
    by (cases "run_pc s"; cases "client (prio_of s)")
      (auto simp: run_section_def prio_part_iff exec_def client_section_def run_ok_def spurious_client_def
        start_locked_def start_count_wait_def start_return_def notify_all_start_def waitForIdle_def wait_stop_def
        stop_locked_def Priority_Dispatch.stop_wait_def stop_finish_def stop_notify_def notify_all_schedule_def Let_def
        split: if_splits)
next
  case (RunSchedules j)
  then obtain p where "exec h (CallSchedule External j) (prio_of s) = Some (Inr p)"
    "t = s\<lparr>prio_of := p, run_pc := RSending\<rparr>" "run_pc s = RSending"
    using assms(1) by (auto simp: core_exec_def prio_part_iff split: if_splits)
  with other_frame [of h _ "prio_of s" p] assms(2) show ?thesis by (simp add: run_ok_def)
next
  case (PrioAction b)
  then obtain p where "exec h b (prio_of s) = Some (Inr p)" "t = s\<lparr>prio_of := p\<rparr>" "other_action s b"
    using assms(1) by (auto simp: core_exec_def prio_part_iff split: if_splits)
  with other_frame [of h b "prio_of s" p] assms(2) show ?thesis
    by (simp add: run_ok_def other_action_def split: action.splits)
next
  case (CoreCallback i)
  with assms(1,2) show ?thesis
    by (cases "run_pc s") (auto simp: core_exec_def core_callback_def run_ok_def Let_def split: if_splits core_pc.splits)
next
  case RunSpurious
  with assms(1,2) show ?thesis
    by (cases "run_pc s") (auto simp: core_exec_def run_ok_def Let_def)
qed

lemma is_running_wake [simp]:
  "is_running (wake_sleeping c) = is_running c" "is_running (wake_start_blocked c) = is_running c"
  by (cases c; simp)+

lemma exec_running:
  assumes "exec h a p = Some (Inr p')"
  shows "length (dispatchers p') = length (dispatchers p) \<and>
    (\<forall>i < length (dispatchers p). is_running (dispatchers p ! i) \<and> a \<noteq> Dispatch i \<longrightarrow> is_running (dispatchers p' ! i))"
proof (cases a)
  case (Dispatch k)
  then have d: "dispatcherLoop k p = Some p'" using assms by (auto simp: exec_def split: if_splits)
  then have "\<exists>c. dispatchers p' = (dispatchers p)[k := c]"
    by (auto simp: dispatcherLoop_def start_wait_def count_started_def loop_head_def after_wait_def
        take_job_def go_to_sleep_def leave_loop_def set_pc_def Let_def
        split: dpc.splits if_splits list.splits)
  with Dispatch show ?thesis by auto
next
  case Client
  then have "client_section h p = Some (Inr p')" using assms by (simp add: exec_def)
  from client_frame(6) [OF this] show ?thesis by auto
next
  case (SpuriousDispatcher k)
  then show ?thesis using assms by (auto simp: exec_def set_pc_def nth_list_update split: if_splits)
qed (use assms in \<open>auto simp: exec_def start_locked_def stop_locked_def stop_wait_def stop_finish_def
      waitForIdle_def destructor_def schedule_def notify_all_schedule_def Let_def
      split: if_splits pstate.splits\<close>)

lemma core_exec_callbacks_ok:
  assumes "core_exec h E a s = Some (Inr t)" and ok: "callbacks_ok s"
  shows "callbacks_ok t"
proof (cases "callbacks t = callbacks s \<and> prio_of t = prio_of s")
  case True
  with ok show ?thesis by (simp add: callbacks_ok_def)
next
  case changed: False
  show ?thesis
  proof (cases "\<exists>i. a = CoreCallback i")
    case True
    then show ?thesis using assms
      by (auto simp: core_exec_def core_callback_def callbacks_ok_def nth_list_update split: if_splits core_pc.splits)
  next
    case False
    then have c: "callbacks t = callbacks s" using assms(1)
      by (cases a; cases "run_pc s") (auto simp: core_exec_def run_section_def prio_part_iff wait_stop_def Let_def split: if_splits)
    have "\<exists>b. exec h b (prio_of s) = Some (Inr (prio_of t)) \<and>
        (\<forall>i < length (callbacks s). b = Dispatch i \<longrightarrow> callbacks s ! i = NotInCore)"
      using assms(1) False changed c
      by (cases a; cases "run_pc s")
        (auto simp: core_exec_def run_section_def prio_part_iff wait_stop_def other_action_def Let_def split: if_splits)
    then obtain b where b: "exec h b (prio_of s) = Some (Inr (prio_of t))"
      "\<forall>i < length (callbacks s). b = Dispatch i \<longrightarrow> callbacks s ! i = NotInCore" by blast
    show ?thesis using exec_running [OF b(1)] b(2) ok unfolding callbacks_ok_def c by metis
  qed
qed

lemma set_update_keep: "x \<in> set xs \<Longrightarrow> x \<noteq> xs ! i \<Longrightarrow> x \<in> set (xs[i := y])"
  by (metis in_set_conv_nth length_list_update nth_list_update_neq)

lemma core_exec_flag_ok:
  assumes step: "core_exec h E a s = Some (Inr t)" and flag: "flag_ok s" and cb: "callbacks_ok s"
    and run: "run_ok s" and ph: "phase_ok (prio_of s)"
  shows "flag_ok t"
proof (cases a)
  case (CoreCallback i)
  then have i: "i < length (callbacks s)" and st: "core_callback i s = Some t"
    using step by (auto simp: core_exec_def split: if_splits)
  have late: "run_pc s \<noteq> RNotCalled \<and> run_pc s \<noteq> REntered" if "callbacks s ! i = CoreLock"
  proof -
    have "is_running (dispatchers (prio_of s) ! i)" and "i < length (dispatchers (prio_of s))"
      using cb i that by (auto simp: callbacks_ok_def)
    moreover have "\<not> is_running c" if "fresh c" for c :: "'a dpc" using that by (cases c) simp_all
    ultimately have "pstate (prio_of s) \<noteq> START" using ph nth_mem unfolding phase_ok_def by metis
    then show ?thesis using run by (auto simp: run_ok_def Let_def)
  qed
  show ?thesis using st flag late set_update_memI [OF i] set_update_keep [of CoreNotify "callbacks s" i]
    by (cases "callbacks s ! i"; cases "run_pc s")
      (auto simp: core_callback_def flag_ok_def stopMutex_free_def split: if_splits)
next
  case RunSection
  then show ?thesis using step flag
    by (cases "run_pc s")
      (auto simp: core_exec_def run_section_def prio_part_iff wait_stop_def flag_ok_def Let_def split: if_splits)
next
  case RunSpurious
  then show ?thesis using step flag by (cases "run_pc s") (auto simp: core_exec_def flag_ok_def)
next
  case (RunSchedules j)
  then show ?thesis using step flag by (auto simp: core_exec_def prio_part_iff flag_ok_def split: if_splits)
next
  case (PrioAction b)
  then show ?thesis using step flag
    by (cases "run_pc s") (auto simp: core_exec_def prio_part_iff flag_ok_def split: if_splits)
qed

lemma core_reachable_priority:
  assumes "core_reachable h n E s" and "obeys_contract h"
  shows "reachable h n (insert RUNNING E) (prio_of s) \<and> run_ok s"
  using assms(1)
proof induction
  case init
  have "run_ok (core_init n)" by (simp add: core_init_def run_ok_def priority_init_def spurious_client_def)
  then show ?case by (simp add: core_init_def reachable.init)
next
  case (step s a t)
  then have r: "reachable h n (insert RUNNING E) (prio_of s)" and ok: "run_ok s" by simp_all
  from core_exec_priority [OF step.hyps(2)]
  have "reachable h n (insert RUNNING E) (prio_of t)"
  proof (elim disjE exE conjE)
    fix b assume b: "exec h b (prio_of s) = Some (Inr (prio_of t))" and "allowed E b (prio_of s)"
    then have "allowed (insert RUNNING E) b (prio_of s)" by (auto simp: allowed_def split: action.splits caller.splits)
    with r b show ?thesis by (blast intro: reachable.step prio_step.step)
  next
    fix b j assume b: "exec h b (prio_of s) = Some (Inr (prio_of t))" and "run_pc s = RSending" "b = CallSchedule External j"
    then have "allowed (insert RUNNING E) b (prio_of s)" using ok by (simp add: allowed_def run_ok_def Let_def)
    with r b show ?thesis by (blast intro: reachable.step prio_step.step)
  qed (use r in simp)
  with core_exec_run_ok [OF step.hyps(2) ok assms(2)] show ?case by blast
qed

lemma core_reachable_ok:
  assumes "core_reachable h n E s" and "obeys_contract h"
  shows "callbacks_ok s \<and> flag_ok s"
  using assms(1)
proof induction
  case init
  show ?case by (auto simp: core_init_def callbacks_ok_def flag_ok_def priority_init_def)
next
  case (step s a t)
  have "phase_ok (prio_of s)"
    using core_reachable_priority [OF step.hyps(1) assms(2)] reachable_phase assms(2) by blast
  with step core_reachable_priority [OF step.hyps(1) assms(2)] show ?case
    using core_exec_callbacks_ok core_exec_flag_ok by blast
qed


section \<open>A waiting or blocked core\<close>

lemma callback_runs:
  assumes "callbacks_ok s" and "i < length (callbacks s)" and "callbacks s ! i \<noteq> NotInCore"
  shows "i < length (dispatchers (prio_of s))" "dispatchers (prio_of s) ! i \<in> set (dispatchers (prio_of s))"
    "is_running (dispatchers (prio_of s) ! i)" "\<not> out_of_work (dispatchers (prio_of s) ! i)"
proof -
  show i: "i < length (dispatchers (prio_of s))" and r: "is_running (dispatchers (prio_of s) ! i)"
    using assms by (simp_all add: callbacks_ok_def)
  show "dispatchers (prio_of s) ! i \<in> set (dispatchers (prio_of s))" using i by simp
  show "\<not> out_of_work (dispatchers (prio_of s) ! i)" using r out_of_work_not_running by blast
qed

text \<open>
  \<open>run\<close> holds \<^verbatim>\<open>stopMutex_\<close>, and a dispatcher is about to lock it: neither gets any
  further, since the stop waits for every dispatcher to finish.
\<close>

definition held_up :: "nat \<Rightarrow> 'job core \<Rightarrow> bool" where
  "held_up i s \<longleftrightarrow> i < length (callbacks s) \<and> callbacks s ! i = CoreLock \<and> \<not> stopMutex_free s"

lemma held_up_not_stopped:
  assumes "held_up i s" and "callbacks_ok s" and "phase_ok (prio_of s)"
  shows "pstate (prio_of s) \<noteq> STOPPED"
  using callback_runs(2,4) [of s i] assms by (auto simp: held_up_def phase_ok_def)

lemma held_up_step:
  assumes st: "core_exec h E a s = Some (Inr t)" and up: "held_up i s" and cb: "callbacks_ok s"
    and run: "run_ok s" and ph: "phase_ok (prio_of s)"
  shows "held_up i t"
proof (cases a)
  case (CoreCallback k)
  then show ?thesis using st up
    by (cases "k = i") (auto simp: core_exec_def core_callback_def held_up_def stopMutex_free_def
        split: if_splits core_pc.splits run_pc.splits)
next
  case RunSection
  have "client (prio_of s) \<noteq> CIdle" if "run_pc s = RStopping"
    using held_up_not_stopped [OF up cb ph] run that by (auto simp: run_ok_def spurious_client_def Let_def)
  then show ?thesis using RunSection st up
    by (auto simp: core_exec_def run_section_def prio_part_iff held_up_def stopMutex_free_def Let_def split: if_splits)
next
  case RunSpurious
  then show ?thesis using st up by (auto simp: core_exec_def held_up_def stopMutex_free_def split: run_pc.splits)
qed (use st up in \<open>auto simp: core_exec_def prio_part_iff held_up_def stopMutex_free_def split: if_splits\<close>)

lemma held_up_steps:
  assumes "core_steps h E as s = Some (Inr t)" and "core_reachable h n E s" and "obeys_contract h" and "held_up i s"
  shows "held_up i t"
  using assms(1,2,4)
proof (induction as arbitrary: s)
  case (Cons a as)
  then obtain u where u: "core_exec h E a s = Some (Inr u)" "core_steps h E as u = Some (Inr t)"
    by (auto split: option.splits sum.splits)
  have "held_up i u"
    using held_up_step [OF u(1) Cons.prems(3)] core_reachable_ok [OF Cons.prems(2) assms(3)]
      core_reachable_priority [OF Cons.prems(2) assms(3)] reachable_phase assms(3) by blast
  with Cons.IH [OF u(2) core_reachable.step [OF Cons.prems(2) u(1)]] show ?case by blast
qed simp

section \<open>Every way to the return\<close>

text \<open>
  Once \<open>run\<close> has been notified, the threads may go on in any order, dispatchers may be woken up
  spuriously and callbacks may schedule; only the callback of the core is not entered again. What is left to do
  is measured: a wake-up or a scheduled callback adds to it, everything else takes from it.
\<close>

definition returning_action :: "'job core_action \<Rightarrow> bool" where
  "returning_action a \<longleftrightarrow> (case a of
       RunSection \<Rightarrow> True
     | RunSpurious \<Rightarrow> True
     | PrioAction (CallSchedule External j) \<Rightarrow> False
     | PrioAction b \<Rightarrow> True
     | _ \<Rightarrow> False)"

definition adds_work :: "'job core_action \<Rightarrow> bool" where
  "adds_work a \<longleftrightarrow> (case a of
       RunSpurious \<Rightarrow> True
     | PrioAction (SpuriousDispatcher i) \<Rightarrow> True
     | PrioAction SpuriousClient \<Rightarrow> True
     | PrioAction (CallSchedule c j) \<Rightarrow> True
     | _ \<Rightarrow> False)"

fun return_weight :: "'job dpc \<Rightarrow> nat" where
  "return_weight (Running j) = 3"
| "return_weight LoopEntry = 2"
| "return_weight (Sleeping b) = (if b then 2 else 0)"
| "return_weight c = 0"

definition sections_left :: "'job core \<Rightarrow> nat" where
  "sections_left s = (let n = 2 * length (dispatchers (prio_of s)) in
     case run_pc s of
       RWaiting b \<Rightarrow> n + 6
     | RHolding \<Rightarrow> n + 5
     | RStopping \<Rightarrow> (case client (prio_of s) of
           CStopWait b \<Rightarrow> if b then n + 4 else n + 3
         | CStopNotify \<Rightarrow> n + 2
         | _ \<Rightarrow> 1)
     | _ \<Rightarrow> 0)"

definition return_measure :: "'job core \<Rightarrow> nat" where
  "return_measure s = 2 * length (actorQueue (prio_of s)) +
     sum_list (map return_weight (dispatchers (prio_of s))) + sections_left s"

definition returning :: "'job core \<Rightarrow> bool" where
  "returning s \<longleftrightarrow> run_pc s \<in> {RWaiting True, RHolding, RStopping, RReturned} \<and> \<not> running_flag s \<and>
     (\<forall>c \<in> set (callbacks s). c = NotInCore)"

lemma return_weight_wake: "sum_list (map return_weight (map wake_sleeping cs)) \<le> sum_list (map return_weight cs) + 2 * length cs"
proof (induction cs)
  case (Cons c cs)
  then show ?case by (cases c) auto
qed simp

text \<open>A dispatcher: what it gives the client by leaving the loop it has lost itself.\<close>

lemma dispatcher_returns:
  assumes st: "dispatcherLoop i p = Some q" and i: "i < length (dispatchers p)"
    and u: "\<not> uncounted (dispatchers p ! i)" and c: "\<forall>b. client p \<noteq> CStartWait b \<and> client p \<noteq> CIdleWait b"
  shows "length (dispatchers q) = length (dispatchers p) \<and>
    (client q = client p \<or> (\<exists>b. client p = CStopWait b) \<and> client q = CStopWait True) \<and>
    2 * length (actorQueue q) + sum_list (map return_weight (dispatchers q)) + (if client q = client p then 0 else 1)
      < 2 * length (actorQueue p) + sum_list (map return_weight (dispatchers p))"
proof -
  have upd: "sum_list (map return_weight ((dispatchers p)[i := c])) + return_weight (dispatchers p ! i) =
      sum_list (map return_weight (dispatchers p)) + return_weight c" for c
    using i by (rule sum_list_update_nat)
  show ?thesis
    using st [symmetric] u c upd [of LoopEntry] upd [of Exited] upd [of "Sleeping False"]
      upd [of "Running (hd (actorQueue p))"]
    by (cases "dispatchers p ! i"; cases "actorQueue p"; cases "client p")
      (auto simp: dispatcherLoop_def after_wait_def loop_head_def leave_loop_def take_job_def go_to_sleep_def
        notify_idle_def notify_started_def set_pc_def Let_def split: if_splits)
qed

lemma spurious_client_eqs:
  "spurious_client c = CIdle \<longleftrightarrow> c = CIdle" "spurious_client c = CStopNotify \<longleftrightarrow> c = CStopNotify"
  "spurious_client c = CStopWait True \<longleftrightarrow> (\<exists>b. c = CStopWait b)"
  by (cases c; simp add: spurious_client_def)+

lemma returning_cases:
  assumes "returning s" and "run_ok s"
  shows "run_pc s \<noteq> RStopping \<and> client (prio_of s) = CIdle \<and> pstate (prio_of s) \<in> {RUNNING, STOPPED} \<or>
    run_pc s = RStopping \<and> client (prio_of s) \<in> {CIdle, CStopNotify} \<and> pstate (prio_of s) = STOPPED \<or>
    run_pc s = RStopping \<and> (\<exists>b. client (prio_of s) = CStopWait b) \<and> pstate (prio_of s) = STOPPING"
  using assms by (cases "run_pc s") (simp_all add: returning_def run_ok_def spurious_client_eqs Let_def)

lemma returning_client:
  assumes "returning s" and "run_ok s" and "phase_ok (prio_of s)"
  shows "\<forall>b. client (prio_of s) \<noteq> CStartWait b \<and> client (prio_of s) \<noteq> CIdleWait b"
    "\<forall>c \<in> set (dispatchers (prio_of s)). \<not> uncounted c"
  using returning_cases [OF assms(1,2)] assms(3) by (elim disjE conjE exE; simp add: phase_ok_def; auto)+

definition work_added :: "'job core_action \<Rightarrow> 'job core \<Rightarrow> nat" where
  "work_added a s = (if adds_work a then 2 * length (dispatchers (prio_of s)) + 2 else 0)"

text \<open>What a step makes of the measure, and that it is never an error.\<close>

definition returns_more :: "'job core_action \<Rightarrow> 'job core \<Rightarrow> 'job core \<Rightarrow> bool" where
  "returns_more a s t \<longleftrightarrow> returning t \<and> length (dispatchers (prio_of t)) = length (dispatchers (prio_of s)) \<and>
     return_measure t + (if adds_work a then 0 else 1) \<le> return_measure s + work_added a s"

lemma return_section:
  assumes e: "run_section h s = Some r" and ret: "returning s" and run: "run_ok s" and h: "obeys_contract h"
  shows "\<exists>t. r = Inr t \<and> returns_more RunSection s t"
proof (cases "run_pc s")
  case (RWaiting b)
  then show ?thesis using e ret
    by (auto simp: run_section_def wait_stop_def returning_def returns_more_def work_added_def adds_work_def
        return_measure_def sections_left_def Let_def)
next
  case RHolding
  then have "client (prio_of s) = CIdle" "pstate (prio_of s) = RUNNING"
    using run by (auto simp: run_ok_def spurious_client_def Let_def split: cpc.splits)
  then show ?thesis using e ret RHolding
    by (auto simp: run_section_def prio_part_def exec_def stop_locked_def Priority_Dispatch.stop_wait_def stop_finish_def
        returning_def returns_more_def work_added_def adds_work_def return_measure_def sections_left_def Let_def)
next
  case RStopping
  have nd: "\<not> inDtor (prio_of s)" and c: "client (prio_of s) \<in> {CIdle, CStopNotify, CStopWait True, CStopWait False}"
    using run RStopping by (cases "client (prio_of s)"; auto simp: run_ok_def spurious_client_def Let_def)+
  show ?thesis using e ret RStopping nd c return_weight_wake [of "dispatchers (prio_of s)"]
    by (auto simp: run_section_def prio_part_def exec_def client_section_def Priority_Dispatch.stop_wait_def stop_finish_def
        stop_notify_def notify_all_schedule_def returning_def returns_more_def work_added_def adds_work_def
        return_measure_def sections_left_def Let_def split: if_splits)
qed (use e ret in \<open>auto simp: run_section_def returning_def\<close>)

lemma sections_left_cong:
  assumes "run_pc t = run_pc s" and "client (prio_of t) = client (prio_of s)"
    and "length (dispatchers (prio_of t)) = length (dispatchers (prio_of s))"
  shows "sections_left t = sections_left s"
  unfolding sections_left_def assms ..

lemma prio_part_same:
  "prio_part h b (run_pc s) s = map_option (map_sum id (\<lambda>p. s\<lparr>prio_of := p\<rparr>)) (exec h b (prio_of s))"
  by (cases s) (simp add: prio_part_def)

lemma return_dispatch:
  assumes e: "exec h (Dispatch i) (prio_of s) = Some r" and ret: "returning s" and run: "run_ok s"
    and ph: "phase_ok (prio_of s)"
  shows "\<exists>p. r = Inr p \<and> returns_more (PrioAction (Dispatch i)) s (s\<lparr>prio_of := p\<rparr>)"
proof -
  note c = returning_client [OF ret run ph]
  obtain p where i: "i < length (dispatchers (prio_of s))" and p: "dispatcherLoop i (prio_of s) = Some p" "r = Inr p"
    using e by (auto simp: exec_def split: if_splits)
  have "\<not> uncounted (dispatchers (prio_of s) ! i)" using c(2) nth_mem [OF i] by blast
  note d = dispatcher_returns [OF p(1) i this c(1)]
  have "sections_left (s\<lparr>prio_of := p\<rparr>) \<le> sections_left s + (if client p = client (prio_of s) then 0 else 1)"
  proof (cases "client p = client (prio_of s)")
    case True
    then show ?thesis using d by (cases "run_pc s") (simp_all add: sections_left_def Let_def)
  next
    case False
    then obtain b where "client (prio_of s) = CStopWait b" "client p = CStopWait True" using d by blast
    with False show ?thesis using d by (cases "run_pc s") (simp_all add: sections_left_def Let_def)
  qed
  then have "returns_more (PrioAction (Dispatch i)) s (s\<lparr>prio_of := p\<rparr>)"
    using d ret by (auto simp: returns_more_def returning_def return_measure_def work_added_def adds_work_def split: if_splits)
  then show ?thesis using p(2) by blast
qed

lemma return_schedule:
  assumes e: "exec h (CallSchedule (Dispatcher i) j) (prio_of s) = Some r" and ret: "returning s"
    and ph: "phase_ok (prio_of s)"
  shows "\<exists>p. r = Inr p \<and> returns_more (PrioAction (CallSchedule (Dispatcher i) j)) s (s\<lparr>prio_of := p\<rparr>)"
proof -
  have "i < length (dispatchers (prio_of s))" "is_running (dispatchers (prio_of s) ! i)"
    using e by (auto simp: exec_def may_schedule_def split: if_splits)
  then have "pstate (prio_of s) \<noteq> STOPPED" using stopped_quiet [OF ph] nth_mem by blast
  then obtain p where p: "r = Inr p" "schedule h j (prio_of s) = Inr p"
    using e by (auto simp: exec_def schedule_def Let_def split: if_splits)
  then have q: "actorQueue p = actorQueue (prio_of s) @ [j]" "client p = client (prio_of s)"
    "dispatchers p = dispatchers (prio_of s) \<or> dispatchers p = map wake_sleeping (dispatchers (prio_of s))"
    using \<open>pstate (prio_of s) \<noteq> STOPPED\<close>
    by (auto simp: schedule_def notify_all_schedule_def Let_def split: if_splits)
  then have l: "length (dispatchers p) = length (dispatchers (prio_of s))" by auto
  have "sum_list (map return_weight (dispatchers p)) \<le>
      sum_list (map return_weight (dispatchers (prio_of s))) + 2 * length (dispatchers (prio_of s))"
    using q(3) return_weight_wake [of "dispatchers (prio_of s)"] by (elim disjE) simp_all
  moreover have "sections_left (s\<lparr>prio_of := p\<rparr>) = sections_left s"
    by (rule sections_left_cong) (use q l in simp_all)
  ultimately have "returns_more (PrioAction (CallSchedule (Dispatcher i) j)) s (s\<lparr>prio_of := p\<rparr>)"
    using ret q(1) l by (simp add: returns_more_def returning_def return_measure_def work_added_def adds_work_def)
  then show ?thesis using p(1) by blast
qed

lemma return_spurious:
  assumes e: "exec h b (prio_of s) = Some r" and ret: "returning s" and b: "b = SpuriousClient \<or> (\<exists>i. b = SpuriousDispatcher i)"
  shows "\<exists>p. r = Inr p \<and> returns_more (PrioAction b) s (s\<lparr>prio_of := p\<rparr>)"
proof -
  let ?cs = "dispatchers (prio_of s)"
  have "sum_list (map return_weight (?cs[i := wake_sleeping (wake_start_blocked (?cs ! i))])) \<le>
      sum_list (map return_weight ?cs) + 2" if "i < length ?cs" for i
    using sum_list_update_nat [OF that, of return_weight "wake_sleeping (wake_start_blocked (?cs ! i))"]
    by (cases "?cs ! i") auto
  moreover have "sections_left (s\<lparr>prio_of := p\<rparr>) = sections_left s"
    if "client p = client (prio_of s)" "length (dispatchers p) = length ?cs" for p
    by (rule sections_left_cong) (use that in simp_all)
  moreover have "sections_left (s\<lparr>prio_of := (prio_of s)\<lparr>client := spurious_client (client (prio_of s))\<rparr>\<rparr>) \<le> sections_left s + 1"
    by (cases "run_pc s"; cases "client (prio_of s)") (simp_all add: sections_left_def spurious_client_def Let_def)
  ultimately have "returns_more (PrioAction b) s (s\<lparr>prio_of := p\<rparr>)" if "r = Inr p" for p
    using that e ret b
    by (elim disjE exE) (fastforce simp: exec_def set_pc_def returns_more_def returning_def return_measure_def
        work_added_def adds_work_def split: if_splits)+
  moreover have "\<exists>p. r = Inr p" using e b by (auto simp: exec_def split: if_splits)
  ultimately show ?thesis by blast
qed

lemma return_step:
  assumes e: "core_exec h E a s = Some r" and a: "returning_action a" and ret: "returning s" and run: "run_ok s"
    and ph: "phase_ok (prio_of s)" and h: "obeys_contract h"
  shows "\<exists>t. r = Inr t \<and> returns_more a s t"
proof (cases a)
  case RunSection
  then show ?thesis using return_section [OF _ ret run h] e by (simp add: core_exec_def)
next
  case RunSpurious
  then have r: "r = Inr (s\<lparr>run_pc := run_pc s\<rparr>)" using e ret
    by (cases "run_pc s") (auto simp: core_exec_def returning_def)
  have "sections_left (s\<lparr>run_pc := run_pc s\<rparr>) = sections_left s" by (rule sections_left_cong) simp_all
  then show ?thesis using ret RunSpurious
    by (auto simp: r returns_more_def returning_def return_measure_def work_added_def adds_work_def)
next
  case (PrioAction b)
  then obtain q where q: "exec h b (prio_of s) = Some q" and o: "other_action s b"
    using e by (auto simp: core_exec_def prio_part_def split: if_splits)
  have "\<exists>p. q = Inr p \<and> returns_more a s (s\<lparr>prio_of := p\<rparr>)"
  proof (cases b)
    case (Dispatch i)
    then show ?thesis using return_dispatch [OF _ ret run ph] q PrioAction by blast
  next
    case (CallSchedule c j)
    then obtain i where "c = Dispatcher i" using a PrioAction by (cases c) (auto simp: returning_action_def)
    then show ?thesis using return_schedule [OF _ ret ph] q PrioAction CallSchedule by blast
  qed (use return_spurious [OF q ret] o PrioAction in \<open>auto simp: other_action_def\<close>)
  then show ?thesis using e q PrioAction by (auto simp: core_exec_def prio_part_same split: if_splits)
qed (use a in \<open>simp_all add: returning_action_def\<close>)

lemma returning_steps:
  assumes "core_steps h E as s = Some r" and "\<forall>a \<in> set as. returning_action a" and "core_reachable h n E s"
    and "obeys_contract h" and "returning s"
  shows "\<exists>t. r = Inr t \<and> returning t \<and> core_reachable h n E t \<and>
    length (filter (\<lambda>a. \<not> adds_work a) as) + return_measure t \<le>
      return_measure s + (2 * length (dispatchers (prio_of s)) + 2) * length (filter adds_work as)"
  using assms(1-3,5)
proof (induction as arbitrary: s)
  case (Cons a as)
  obtain q where q: "core_exec h E a s = Some q" using Cons.prems(1) by (auto split: option.splits)
  have ph: "phase_ok (prio_of s)" and run: "run_ok s"
    using core_reachable_priority [OF Cons.prems(3) assms(4)] reachable_phase assms(4) by blast+
  obtain u where u: "q = Inr u" "returns_more a s u"
    using return_step [OF q _ Cons.prems(4) run ph assms(4)] Cons.prems(2) by auto
  have r: "core_reachable h n E u" using core_reachable.step [OF Cons.prems(3)] q u(1) by blast
  obtain t where t: "r = Inr t" "returning t" "core_reachable h n E t"
    "length (filter (\<lambda>a. \<not> adds_work a) as) + return_measure t \<le>
      return_measure u + (2 * length (dispatchers (prio_of u)) + 2) * length (filter adds_work as)"
    using Cons.IH [OF _ _ r] Cons.prems(1,2) q u by (auto simp: returns_more_def)
  then show ?case using u(2) by (auto simp: returns_more_def work_added_def split: if_splits)
qed auto

lemma returning_goes_on:
  assumes ret: "returning s" and reach: "core_reachable h n E s" and h: "obeys_contract h" and "0 < n"
    and "STOPPING \<notin> E" and "run_pc s \<noteq> RReturned"
  shows "\<exists>a. returning_action a \<and> \<not> adds_work a \<and> core_exec h E a s \<noteq> None"
proof (cases "run_section h s")
  case (Some r)
  then show ?thesis by (intro exI [of _ RunSection]) (simp add: returning_action_def adds_work_def core_exec_def)
next
  case None
  note P = core_reachable_priority [OF reach h]
  have w: "run_pc s = RStopping" "client (prio_of s) = CStopWait False"
    using None ret assms(6) returning_cases [OF ret] P
    by (auto simp: run_section_def returning_def prio_part_def exec_def client_section_def Let_def split: if_splits)
  have inv: "stop_inv n (prio_of s)"
    by (rule reachable_stop_inv [OF conjunct1 [OF P] h assms(4) _ w(2)]) (use assms(5) in simp)
  then have "\<not> all_done (prio_of s)"
    using all_done_iff [of n "prio_of s"] w(2) by (auto simp: stop_inv_def phase_ok_def)
  then obtain p where "dispatch_step (prio_of s) p" using stop_inv_enabled [OF inv] by blast
  then obtain i where i: "i < length (dispatchers (prio_of s))" "dispatcherLoop i (prio_of s) = Some p"
    by (auto simp: dispatch_step_def)
  have "length (callbacks s) = length (dispatchers (prio_of s))" "\<forall>c \<in> set (callbacks s). c = NotInCore"
    using core_reachable_ok [OF reach h] ret by (simp_all add: callbacks_ok_def returning_def)
  then have "core_exec h E (PrioAction (Dispatch i)) s \<noteq> None"
    using i nth_mem [of i "callbacks s"] by (simp add: core_exec_def other_action_def allowed_def prio_part_same exec_def)
  then show ?thesis
    by (intro exI [of _ "PrioAction (Dispatch i)"]) (simp add: returning_action_def adds_work_def)
qed

section \<open>Properties\<close>

text \<open>
  C20: \<^verbatim>\<open>Core::run\<close> returns last. Whatever the actors and the dispatchers do, when
  \<^verbatim>\<open>run\<close> has returned the confirmation of the stop has been received, the priority is
  stopped, no callback is queued or executed, every callback ever scheduled has been taken, and no dispatcher
  uses the mutex or the event of the core any more.
\<close>

theorem run_returns_last:
  assumes "core_reachable h n E s" and "obeys_contract h" and "run_pc s = RReturned"
  shows "0 < confirmations s \<and> pstate (prio_of s) = STOPPED \<and> actorQueue (prio_of s) = [] \<and>
    (\<forall>c \<in> set (dispatchers (prio_of s)). \<not> is_running c) \<and> (\<forall>c \<in> set (callbacks s). c = NotInCore) \<and>
    map snd (takenLog (prio_of s)) = scheduledLog (prio_of s)"
proof -
  have reach: "reachable h n (insert RUNNING E) (prio_of s)" and run: "run_ok s"
    using core_reachable_priority [OF assms(1,2)] by simp_all
  have ph: "phase_ok (prio_of s)" by (rule reachable_phase [OF reach assms(2)])
  have ok: "callbacks_ok s" "flag_ok s" using core_reachable_ok [OF assms(1,2)] by simp_all
  have st: "pstate (prio_of s) = STOPPED" using run assms(3) by (simp add: run_ok_def Let_def)
  then have q: "actorQueue (prio_of s) = []" "\<forall>c \<in> set (dispatchers (prio_of s)). out_of_work c"
    using ph by (simp_all add: phase_ok_def)
  have "c = NotInCore" if c: "c \<in> set (callbacks s)" for c
  proof -
    obtain i where i: "i < length (callbacks s)" "c = callbacks s ! i" using c by (metis in_set_conv_nth)
    show ?thesis using callback_runs(2,4) [OF ok(1) i(1)] q(2) i(2) by blast
  qed
  moreover have "0 < confirmations s" using ok(2) assms(3) by (simp add: flag_ok_def)
  ultimately show ?thesis
    using st q stopped_quiet [OF ph st] reachable_log [OF reach] by (simp add: log_ok_def)
qed

text \<open>
  Lemma: the wake-up of \<^verbatim>\<open>run\<close> is not lost: when it is blocked on
  \<^verbatim>\<open>stopEvent_\<close> although \<^verbatim>\<open>running_\<close> is already false, some
  dispatcher is in the callback of the core and its next step notifies \<^verbatim>\<open>run\<close>.
\<close>

theorem run_wakeup_not_lost:
  assumes "core_reachable h n E s" and "obeys_contract h" and "run_pc s = RWaiting False" and "\<not> running_flag s"
  shows "\<exists>i t. core_exec h E (CoreCallback i) s = Some (Inr t) \<and> run_pc t = RWaiting True \<and> \<not> running_flag t"
proof -
  have "CoreNotify \<in> set (callbacks s)"
    using core_reachable_ok [OF assms(1,2)] assms(3,4) by (simp add: flag_ok_def)
  then obtain i where "i < length (callbacks s)" "callbacks s ! i = CoreNotify" by (metis in_set_conv_nth)
  then show ?thesis using assms(3,4)
    by (intro exI [of _ i]) (simp add: core_exec_def core_callback_def)
qed

text \<open>
  C21: once the confirmation has arrived, \<^verbatim>\<open>run\<close> returns, whatever the threads do, as long as
  nobody outside the callbacks schedules and the callback of the core is not entered a second time. From every
  reachable state in which \<^verbatim>\<open>run\<close> has been notified and no dispatcher is in that callback,
  every sequence of steps is free of errors; apart from spurious wake-ups and callbacks that schedule, each of which
  adds at most \<open>2 d + 2\<close> steps with \<open>d\<close> dispatchers, it has at most \<open>return_measure\<close>
  steps; and until \<^verbatim>\<open>run\<close> has returned, it or a dispatcher can take one.
\<close>

theorem run_completes:
  assumes "core_reachable h n E s" and "obeys_contract h" and "0 < n" and "STOPPING \<notin> E"
    and "run_pc s = RWaiting True" and "\<not> running_flag s" and "\<forall>c \<in> set (callbacks s). c = NotInCore"
    and "\<forall>a \<in> set as. returning_action a" and "core_steps h E as s = Some r"
  shows "\<exists>t. r = Inr t \<and>
    length (filter (\<lambda>a. \<not> adds_work a) as) \<le>
      return_measure s + (2 * length (dispatchers (prio_of s)) + 2) * length (filter adds_work as) \<and>
    (run_pc t = RReturned \<or> (\<exists>a. returning_action a \<and> \<not> adds_work a \<and> core_exec h E a t \<noteq> None))"
proof -
  have "returning s" using assms(5-7) by (simp add: returning_def)
  from returning_steps [OF assms(9,8,1,2) this] obtain t where t: "r = Inr t" "returning t" "core_reachable h n E t"
    "length (filter (\<lambda>a. \<not> adds_work a) as) + return_measure t \<le>
      return_measure s + (2 * length (dispatchers (prio_of s)) + 2) * length (filter adds_work as)" by blast
  with returning_goes_on [OF t(2,3) assms(2-4)] show ?thesis by auto
qed

text \<open>
  Lemma: a second confirmation stops everything for ever. \<^verbatim>\<open>run\<close> keeps
  \<^verbatim>\<open>stopMutex_\<close> while it waits in \<^verbatim>\<open>Priority::stop\<close> for the
  dispatchers; a dispatcher that enters the callback of the core in that time waits for the mutex. From such
  a state \<^verbatim>\<open>run\<close> never returns and the dispatcher never gets the mutex, whatever happens.
\<close>

theorem second_confirmation_hangs_run:
  assumes "core_reachable h n E s" and "obeys_contract h" and "run_pc s = RHolding \<or> run_pc s = RStopping"
    and "i < length (callbacks s)" and "callbacks s ! i = CoreLock" and "core_steps h E as s = Some (Inr t)"
  shows "run_pc t \<noteq> RReturned \<and> callbacks t ! i = CoreLock"
  using held_up_steps [OF assms(6,1,2), of i] assms(3-5) by (auto simp: held_up_def stopMutex_free_def)

section \<open>A concrete session\<close>

text \<open>
  One dispatcher and one callback, which confirms the stop; it enters the callback of the core a second time
  when \<open>run\<close> has woken up.
\<close>

definition demo_confirmed :: "nat core" where
  "demo_confirmed = \<lparr>prio_of = \<lparr>pstate = RUNNING, dispatchers = [Running 7], actorQueue = [], startCount = 0,
       sleepingCount = 0, client = CIdle, inDtor = False, scheduledLog = [7], takenLog = [(0, 7)]\<rparr>,
     running_flag = False, run_pc = RWaiting False, callbacks = [CoreNotify], confirmations = 1\<rparr>"

definition demo_run :: "nat core_action list" where
  "demo_run = [PrioAction (Dispatch 0), RunSection, RunSection, RunSection, PrioAction (Dispatch 0),
     PrioAction (Dispatch 0), RunSection, PrioAction (Dispatch 0), RunSection, RunSection, RunSchedules 7,
     PrioAction (Dispatch 0), RunSection, RunSection, CoreCallback 0, CoreCallback 0]"

lemma demo_confirmed_run: "core_steps h {} demo_run (core_init 1) = Some (Inr demo_confirmed)"
  by (simp add: demo_run_def core_init_def core_exec_def run_section_def prio_part_def exec_def core_defs
      priority_init_def other_action_def allowed_def may_schedule_def wait_stop_def core_callback_def
      stopMutex_free_def demo_confirmed_def Let_def)

lemma demo_confirmed_reach: "core_reachable h 1 {} demo_confirmed"
  by (rule core_steps_reachable [OF demo_confirmed_run core_reachable.init])

lemma run_wakeup_not_lost_witness:
  "\<exists>i t. core_exec onErrorFunc {} (CoreCallback i) demo_confirmed = Some (Inr t) \<and> run_pc t = RWaiting True"
  using run_wakeup_not_lost [OF demo_confirmed_reach [of onErrorFunc]] by (auto simp: demo_confirmed_def)

definition demo_notified_run :: "nat core" where
  "demo_notified_run = demo_confirmed\<lparr>run_pc := RWaiting True, callbacks := [NotInCore]\<rparr>"

lemma demo_notified_run_reach: "core_reachable h 1 {} demo_notified_run"
  by (rule core_steps_reachable [OF _ demo_confirmed_reach, where as = "[CoreCallback 0]"])
    (simp add: core_exec_def core_callback_def demo_confirmed_def demo_notified_run_def)

lemma run_completes_witness:
  "\<exists>t. core_steps onErrorFunc {} [RunSection, PrioAction (SpuriousDispatcher 0), RunSection, PrioAction (Dispatch 0)]
       demo_notified_run = Some (Inr t) \<and>
     3 \<le> return_measure demo_notified_run + 4 \<and> run_pc t \<noteq> RReturned \<and>
     (\<exists>a. returning_action a \<and> core_exec onErrorFunc {} a t \<noteq> None)"
proof -
  let ?as = "[RunSection, PrioAction (SpuriousDispatcher 0), RunSection, PrioAction (Dispatch 0)] :: nat core_action list"
  obtain t where t: "core_steps onErrorFunc {} ?as demo_notified_run = Some (Inr t)" "run_pc t = RStopping"
    by (simp add: core_exec_def run_section_def prio_part_def exec_def core_defs all_done_def Core_Run.wait_stop_def
        other_action_def allowed_def demo_notified_run_def demo_confirmed_def Let_def)
  have "\<forall>a \<in> set ?as. returning_action a" by (simp add: returning_action_def)
  from run_completes [OF demo_notified_run_reach _ _ _ _ _ _ this t(1)] t show ?thesis
    by (auto simp: demo_notified_run_def demo_confirmed_def adds_work_def)
qed

lemma run_returns_last_witness:
  "\<exists>t. core_steps onErrorFunc {} [RunSection, RunSection, PrioAction (Dispatch 0), PrioAction (Dispatch 0),
       RunSection, RunSection, RunSection] demo_notified_run = Some (Inr t) \<and>
     run_pc t = RReturned \<and> pstate (prio_of t) = STOPPED \<and> scheduledLog (prio_of t) = [7] \<and> 0 < confirmations t"
proof -
  obtain t where t: "core_steps onErrorFunc {} [RunSection, RunSection, PrioAction (Dispatch 0),
      PrioAction (Dispatch 0), RunSection, RunSection, RunSection] demo_notified_run = Some (Inr t)"
    "run_pc t = RReturned" "scheduledLog (prio_of t) = [7]"
    by (simp add: core_exec_def run_section_def prio_part_def exec_def core_defs all_done_def Core_Run.wait_stop_def
        other_action_def allowed_def demo_notified_run_def demo_confirmed_def Let_def)
  from run_returns_last [OF core_steps_reachable [OF t(1) demo_notified_run_reach] _ t(2)] t show ?thesis by simp
qed

lemma second_confirmation_hangs_run_witness:
  "\<exists>s t. core_steps onErrorFunc {} [RunSection, CoreCallback 0] demo_notified_run = Some (Inr s) \<and>
     core_steps onErrorFunc {} [RunSection, RunSpurious, PrioAction SpuriousClient, RunSection] s = Some (Inr t) \<and>
     run_pc t \<noteq> RReturned \<and> callbacks t ! 0 = CoreLock"
proof -
  let ?s = "demo_notified_run\<lparr>run_pc := RHolding, callbacks := [CoreLock]\<rparr>"
  have s: "core_steps onErrorFunc {} [RunSection, CoreCallback 0] demo_notified_run = Some (Inr ?s)"
    by (simp add: core_exec_def run_section_def core_callback_def Core_Run.wait_stop_def demo_notified_run_def
        demo_confirmed_def)
  obtain t where t: "core_steps onErrorFunc {} [RunSection, RunSpurious, PrioAction SpuriousClient, RunSection] ?s =
      Some (Inr t)"
    by (simp add: core_exec_def run_section_def prio_part_def exec_def core_defs all_done_def
        other_action_def allowed_def demo_notified_run_def demo_confirmed_def Let_def)
  from second_confirmation_hangs_run [OF core_steps_reachable [OF s demo_notified_run_reach] _ _ _ _ t, of 0] s t
  show ?thesis by (auto simp: demo_notified_run_def)
qed

end
