(* ===== verification/Core_Whole.thy ===== *)
theory Core_Whole
  imports Runtime_Destruction Core_Run
begin

text \<open>
  A core with everything it runs: \<^verbatim>\<open>Core::run\<close> and the callback of the core
  (\<^verbatim>\<open>Core_Run\<close>) on top of the actors, the ports and the priority
  (\<^verbatim>\<open>Runtime_System\<close>), with the priority in common. What \<^verbatim>\<open>Core_Run\<close> leaves
  open, when a dispatcher may be in the callback and what is scheduled, comes from the runtime: the callback is
  part of an event, and the start request is an event for every port that is registered for it.
\<close>

section \<open>State and steps\<close>

type_synonym ('m, 'e, 'cb) whole = "('m, 'e, 'cb) runtime \<times> nat core"

definition whole_init :: "int \<Rightarrow> nat \<Rightarrow> ('m, 'e, 'cb) whole" where
  "whole_init n N = (runtime_init n N, core_init n)"

datatype ('m, 'e, 'cb) whole_action =
    RunStep                     \<comment> \<open>\<open>run\<close> executes its next section\<close>
  | RunSends nat "'m \<times> 'e"      \<comment> \<open>\<open>sendStartReq_\<close> reaches a port\<close>
  | RunWakes                    \<comment> \<open>spuriously\<close>
  | CoreStep nat                \<comment> \<open>a dispatcher in the callback of the core\<close>
  | RuntimeStep "('m, 'e, 'cb) runtime_action"

text \<open>The dispatcher that takes a step; it does not while it is in the callback of the core.\<close>

fun acting :: "('m, 'e, 'cb) runtime_action \<Rightarrow> nat option" where
  "acting (CallPort c i a) = (case c of Dispatcher k \<Rightarrow> Some k | External \<Rightarrow> None)"
| "acting (FinishCtor c i) = (case c of Dispatcher k \<Rightarrow> Some k | External \<Rightarrow> None)"
| "acting (Work k) = Some k"
| "acting (PriorityAction a) = (case a of Dispatch k \<Rightarrow> Some k | _ \<Rightarrow> None)"

definition free_to_act :: "('m, 'e, 'cb) runtime_action \<Rightarrow> nat core \<Rightarrow> bool" where
  "free_to_act y c \<longleftrightarrow> (case acting y of
      None \<Rightarrow> True | Some k \<Rightarrow> k < length (callbacks c) \<and> callbacks c ! k = NotInCore)"

definition with_runtime :: "nat core \<Rightarrow> ('m, 'e, 'cb) runtime \<Rightarrow> ('m, 'e, 'cb) whole" where
  "with_runtime c r = (r, c\<lparr>prio_of := rt_priority r\<rparr>)"

definition with_core :: "('m, 'e, 'cb) runtime \<Rightarrow> nat core \<Rightarrow> ('m, 'e, 'cb) whole" where
  "with_core r c = (r\<lparr>rt_priority := prio_of c\<rparr>, c)"

definition whole_exec ::
  "handler \<Rightarrow> pstate set \<Rightarrow> ('m, 'e, 'cb) whole_action \<Rightarrow> ('m, 'e, 'cb) whole \<Rightarrow> (error + ('m, 'e, 'cb) whole) option" where
  "whole_exec h E x w = (let r = fst w; c = snd w in case x of
       RunStep \<Rightarrow> map_option (map_sum id (with_core r)) (run_section h c)
     | RunSends i ev \<Rightarrow>
         if run_pc c = RSending
         then map_option (map_sum id (with_runtime c)) (runtime_exec h {RUNNING} (CallPort External i (Schedule ev)) r)
         else None
     | RunWakes \<Rightarrow> map_option (map_sum id (with_core r)) (core_exec h E RunSpurious c)
     | CoreStep k \<Rightarrow>
         if k < length (callbacks c) \<and> in_event k r then map_option (\<lambda>c. Inr (with_core r c)) (core_callback k c) else None
     | RuntimeStep y \<Rightarrow>
         if background y \<and> free_to_act y c
         then map_option (map_sum id (with_runtime c)) (runtime_exec h E y r) else None)"

inductive whole_reachable :: "handler \<Rightarrow> int \<Rightarrow> nat \<Rightarrow> pstate set \<Rightarrow> ('m, 'e, 'cb) whole \<Rightarrow> bool"
  for h :: handler and n :: int and N :: nat and E :: "pstate set" where
  init: "whole_reachable h n N E (whole_init n N)"
| step: "whole_reachable h n N E w \<Longrightarrow> whole_exec h E x w = Some (Inr w') \<Longrightarrow> whole_reachable h n N E w'"

fun whole_run ::
  "handler \<Rightarrow> pstate set \<Rightarrow> ('m, 'e, 'cb) whole_action list \<Rightarrow> ('m, 'e, 'cb) whole \<Rightarrow>
     (error + ('m, 'e, 'cb) whole) option" where
  "whole_run h E [] w = Some (Inr w)"
| "whole_run h E (x # xs) w = (case whole_exec h E x w of
     None \<Rightarrow> None | Some (Inl e) \<Rightarrow> Some (Inl e) | Some (Inr w') \<Rightarrow> whole_run h E xs w')"

lemma whole_run_reachable:
  "whole_run h E xs w = Some (Inr w') \<Longrightarrow> whole_reachable h n N E w \<Longrightarrow> whole_reachable h n N E w'"
proof (induction xs arbitrary: w)
  case (Cons x xs)
  then obtain u where "whole_exec h E x w = Some (Inr u)" "whole_run h E xs u = Some (Inr w')"
    by (auto split: option.splits sum.splits)
  then show ?case using Cons whole_reachable.step by blast
qed simp

section \<open>The parts\<close>

lemma runtime_exec_mono:
  assumes "runtime_exec h E y r = Some q" and "E \<subseteq> F"
  shows "runtime_exec h F y r = Some q"
proof -
  have "may_call E c r \<Longrightarrow> may_call F c r" for c using assms(2) by (auto simp: may_call_def split: caller.splits)
  then show ?thesis using assms(1) by (cases y) (auto simp: runtime_exec_def split: if_splits)
qed

text \<open>What a step of the runtime is for the priority.\<close>

definition priority_part :: "('m, 'e, 'cb) runtime_action \<Rightarrow> nat action \<Rightarrow> bool" where
  "priority_part y b \<longleftrightarrow> (case y of
      CallPort c i a \<Rightarrow> \<exists>j. b = CallSchedule c j
    | FinishCtor c i \<Rightarrow> \<exists>j. b = CallSchedule c j
    | Work k \<Rightarrow> \<exists>j. b = CallSchedule (Dispatcher k) j
    | PriorityAction a \<Rightarrow> b = a)"

lemma runtime_exec_part:
  assumes e: "runtime_exec h E y r = Some (Inr r')"
  shows "rt_priority r' = rt_priority r \<or>
    (\<exists>b. exec h b (rt_priority r) = Some (Inr (rt_priority r')) \<and> allowed E b (rt_priority r) \<and> priority_part y b)"
proof (cases y)
  case (CallPort c i a)
  then obtain q where m: "may_call E c r" and q: "set_port h i q r = Inr r'"
    using e by (auto simp: runtime_exec_def split: if_splits)
  show ?thesis using set_port_priority [OF q] may_call_schedule [OF m] CallPort by (fastforce simp: priority_part_def)
next
  case (FinishCtor c i)
  then obtain a where m: "may_call E c r" and a: "set_actor h i a r = Inr r'"
    using e by (auto simp: runtime_exec_def split: if_splits)
  show ?thesis using set_actor_priority [OF a] may_call_schedule [OF m] FinishCtor by (fastforce simp: priority_part_def)
next
  case (Work k)
  then obtain i where k: "k < length (dispatchers (rt_priority r))" "dispatchers (rt_priority r) ! k = Running i"
    and w: "work_step h k i r = Some (Inr r')"
    using e by (auto simp: runtime_exec_def split: if_splits dpc.splits)
  have "rt_priority r' = rt_priority r \<or> (\<exists>q. set_port h i q r = Inr r')"
    using w by (auto simp: work_step_def Let_def split: frame.splits consumer.splits pconsumer.splits)
  then show ?thesis
  proof
    assume "\<exists>q. set_port h i q r = Inr r'"
    then obtain q where q: "set_port h i q r = Inr r'" ..
    have "exec h (CallSchedule (Dispatcher k) i) (rt_priority r) = Some (schedule h i (rt_priority r))"
      using k by (simp add: exec_def may_schedule_def)
    then show ?thesis using set_port_priority [OF q] Work by (fastforce simp: allowed_def priority_part_def)
  qed simp
next
  case (PriorityAction a)
  then have "exec h a (rt_priority r) = Some (Inr (rt_priority r')) \<and> allowed E a (rt_priority r)"
    using e by (cases a) (auto simp: runtime_exec_def allowed_def map_sum_Inr split: if_splits)
  then show ?thesis using PriorityAction by (auto simp: priority_part_def)
qed

text \<open>A section of \<open>run\<close> is a call of the priority or leaves it alone.\<close>

lemma prio_part_exec: "prio_part h a d c = Some (Inr c') \<Longrightarrow> exec h a (prio_of c) = Some (Inr (prio_of c'))"
  by (auto simp: prio_part_iff)

lemma run_section_part:
  assumes "run_section h c = Some (Inr c')"
  shows "prio_of c' = prio_of c \<or>
    (\<exists>a. a \<in> {CallStart, CallWaitForIdle, CallStop, Client} \<and> exec h a (prio_of c) = Some (Inr (prio_of c')))"
proof (cases "\<exists>a d. a \<in> {CallStart, CallWaitForIdle, CallStop, Client} \<and> prio_part h a d c = Some (Inr c')")
  case True
  then show ?thesis using prio_part_exec by blast
next
  case False
  then have n: "prio_part h CallStart d c \<noteq> Some (Inr c')" "prio_part h CallWaitForIdle d c \<noteq> Some (Inr c')"
    "prio_part h CallStop d c \<noteq> Some (Inr c')" "prio_part h Client d c \<noteq> Some (Inr c')" for d by blast+
  have "prio_of c' = prio_of c"
    using assms by (cases "run_pc c") (auto simp: run_section_def wait_stop_def Let_def n split: if_splits)
  then show ?thesis by simp
qed

lemma runtime_client:
  assumes "exec h a (rt_priority r) = Some (Inr p)" and "a \<in> {CallStart, CallWaitForIdle, CallStop, Client}"
  shows "runtime_exec h E (PriorityAction a) r = Some (Inr (r\<lparr>rt_priority := p\<rparr>))"
  using assms by (auto simp: runtime_exec_def)

lemma other_part:
  assumes "priority_part y b" and "background y" and "free_to_act y c"
  shows "other_action c b"
  using assms
  by (cases y) (auto simp: priority_part_def background_def free_to_act_def other_action_def
      split: caller.splits action.splits)

definition early :: "run_pc \<Rightarrow> bool" where
  "early pc \<longleftrightarrow> pc \<in> {RNotCalled, REntered, RStarting, RIdling}"

text \<open>
  Both parts are reachable on their own; until \<open>run\<close> sends the start request, nobody schedules from
  outside but in the states of \<open>E\<close>.
\<close>

lemma whole_parts:
  assumes "whole_reachable h n N E w"
  shows "prio_of (snd w) = rt_priority (fst w) \<and> core_reachable h n E (snd w) \<and>
    runtime_reachable h n N (insert RUNNING E) (fst w) \<and>
    (early (run_pc (snd w)) \<longrightarrow> runtime_reachable h n N E (fst w))"
  using assms
proof induction
  case init
  show ?case
    by (simp add: whole_init_def core_init_def runtime_init_def core_reachable.init [unfolded core_init_def]
        runtime_reachable.init [unfolded runtime_init_def])
next
  case (step w x w')
  obtain r c where w: "w = (r, c)" by (cases w)
  have IH: "prio_of c = rt_priority r" "core_reachable h n E c" "runtime_reachable h n N (insert RUNNING E) r"
    "early (run_pc c) \<Longrightarrow> runtime_reachable h n N E r"
    using step.IH by (simp_all add: w)
  have sub: "E \<subseteq> insert RUNNING E" "{RUNNING} \<subseteq> insert RUNNING E" by auto
  have run: "prio_of (snd w') = rt_priority (fst w') \<and> core_reachable h n E (snd w') \<and>
      runtime_reachable h n N (insert RUNNING E) (fst w') \<and>
      (early (run_pc (snd w')) \<longrightarrow> runtime_reachable h n N E (fst w'))"
    if w': "w' = with_core r c'" and c: "core_exec h E z c = Some (Inr c')"
      and p: "prio_of c' = prio_of c \<or> (\<exists>a. a \<in> {CallStart, CallWaitForIdle, CallStop, Client} \<and>
        exec h a (prio_of c) = Some (Inr (prio_of c')))"
      and e: "early (run_pc c') \<Longrightarrow> early (run_pc c)" for z c'
  proof -
    have "runtime_reachable h n N F (r\<lparr>rt_priority := prio_of c'\<rparr>)" if "runtime_reachable h n N F r" for F
      using p
    proof
      assume "prio_of c' = prio_of c"
      then show ?thesis using that IH(1) by simp
    next
      assume "\<exists>a. a \<in> {CallStart, CallWaitForIdle, CallStop, Client} \<and> exec h a (prio_of c) = Some (Inr (prio_of c'))"
      then show ?thesis using runtime_client [of h _ r] IH(1) that runtime_reachable.step by metis
    qed
    then show ?thesis using core_reachable.step [OF IH(2) c] IH(3,4) e by (auto simp: w' with_core_def)
  qed
  have sched: "core_reachable h n E (c\<lparr>prio_of := p\<rparr>)"
    if "p = prio_of c \<or> (\<exists>z. core_exec h E z c = Some (Inr (c\<lparr>prio_of := p\<rparr>)))" for p
    using that IH(2) core_reachable.step by auto
  show ?case
  proof (cases x)
    case RunStep
    then obtain c' where c: "run_section h c = Some (Inr c')" and w': "w' = with_core r c'"
      using step.hyps(2) by (auto simp: whole_exec_def w map_sum_Inr)
    have "core_exec h E RunSection c = Some (Inr c')" using c by (simp add: core_exec_def)
    moreover have "early (run_pc c') \<Longrightarrow> early (run_pc c)" using c
      by (cases "run_pc c") (auto simp: run_section_def prio_part_iff wait_stop_def early_def Let_def split: if_splits)
    ultimately show ?thesis using run [OF w'] run_section_part [OF c] by blast
  next
    case RunWakes
    then obtain c' where c: "core_exec h E RunSpurious c = Some (Inr c')" and w': "w' = with_core r c'"
      using step.hyps(2) by (auto simp: whole_exec_def w map_sum_Inr)
    moreover have "prio_of c' = prio_of c" "early (run_pc c') \<Longrightarrow> early (run_pc c)"
      using c by (cases "run_pc c"; auto simp: core_exec_def early_def)+
    ultimately show ?thesis using run [OF w' c] by blast
  next
    case (CoreStep k)
    then obtain c' where k: "k < length (callbacks c)" and c: "core_callback k c = Some c'" and w': "w' = with_core r c'"
      using step.hyps(2) by (auto simp: whole_exec_def w split: if_splits)
    then have ex: "core_exec h E (CoreCallback k) c = Some (Inr c')" by (simp add: core_exec_def)
    have "prio_of c' = prio_of c" "early (run_pc c') \<Longrightarrow> early (run_pc c)"
      using c by (cases "run_pc c"; auto simp: core_callback_def early_def split: core_pc.splits if_splits)+
    then show ?thesis using run [OF w' ex] by blast
  next
    case (RunSends i ev)
    then obtain r' where pc: "run_pc c = RSending" and w': "w' = with_runtime c r'"
      and r: "runtime_exec h {RUNNING} (CallPort External i (Schedule ev)) r = Some (Inr r')"
      using step.hyps(2) by (auto simp: whole_exec_def w map_sum_Inr split: if_splits)
    have "rt_priority r' = prio_of c \<or> (\<exists>z. core_exec h E z c = Some (Inr (c\<lparr>prio_of := rt_priority r'\<rparr>)))"
      using runtime_exec_part [OF r] IH(1)
    proof (elim disjE exE conjE)
      fix b assume b: "exec h b (rt_priority r) = Some (Inr (rt_priority r'))"
        and "priority_part (CallPort External i (Schedule ev)) b"
      then obtain j where j: "b = CallSchedule External j" by (auto simp: priority_part_def)
      have "c\<lparr>prio_of := rt_priority r', run_pc := RSending\<rparr> = c\<lparr>prio_of := rt_priority r'\<rparr>" using pc by (cases c) simp
      then show ?thesis using pc b IH(1)
        by (intro disjI2 exI [of _ "RunSchedules j"]) (simp add: j core_exec_def prio_part_def)
    qed (simp add: IH(1))
    moreover have "runtime_reachable h n N (insert RUNNING E) r'"
      by (rule runtime_reachable.step [OF IH(3) runtime_exec_mono [OF r sub(2)]])
    ultimately show ?thesis using sched pc by (simp add: w' with_runtime_def early_def)
  next
    case (RuntimeStep y)
    then obtain r' where b: "background y" "free_to_act y c" and w': "w' = with_runtime c r'"
      and r: "runtime_exec h E y r = Some (Inr r')"
      using step.hyps(2) by (auto simp: whole_exec_def w map_sum_Inr split: if_splits)
    have "rt_priority r' = prio_of c \<or> (\<exists>z. core_exec h E z c = Some (Inr (c\<lparr>prio_of := rt_priority r'\<rparr>)))"
      using runtime_exec_part [OF r]
    proof (elim disjE exE conjE)
      fix a assume "exec h a (rt_priority r) = Some (Inr (rt_priority r'))" "allowed E a (rt_priority r)" "priority_part y a"
      then show ?thesis using other_part [OF _ b] IH(1)
        by (intro disjI2 exI [of _ "PrioAction a"]) (simp add: core_exec_def prio_part_def)
    qed (simp add: IH(1))
    moreover have "runtime_reachable h n N (insert RUNNING E) r'"
      by (rule runtime_reachable.step [OF IH(3) runtime_exec_mono [OF r sub(1)]])
    ultimately show ?thesis using sched runtime_reachable.step [OF IH(4) r] by (simp add: w' with_runtime_def)
  qed
qed

section \<open>Idle until the start request\<close>

definition quiet :: "nat prio \<Rightarrow> bool" where
  "quiet p \<longleftrightarrow> actorQueue p = [] \<and> (\<forall>c \<in> set (dispatchers p). out_of_work c)"

lemma quiet_step:
  assumes q: "quiet p" and st: "pstate p = RUNNING" and e: "exec h b p = Some (Inr p')"
    and b: "case b of Dispatch k \<Rightarrow> True | SpuriousDispatcher k \<Rightarrow> True | SpuriousClient \<Rightarrow> True
      | CallSchedule c j \<Rightarrow> \<exists>k. c = Dispatcher k | _ \<Rightarrow> False"
  shows "quiet p'"
proof (cases b)
  case (Dispatch k)
  then have k: "k < length (dispatchers p)" and d: "dispatcherLoop k p = Some p'"
    using e by (auto simp: exec_def split: if_splits)
  have "out_of_work (dispatchers p ! k)" using q k by (simp add: quiet_def)
  then have "p' = set_pc k (Sleeping False) p"
    using d q st by (cases "dispatchers p ! k") (auto simp: dispatcherLoop_def after_wait_def quiet_def split: if_splits)
  then show ?thesis using q by (auto simp: quiet_def set_pc_def dest!: set_update_cases)
next
  case (SpuriousDispatcher k)
  then have k: "k < length (dispatchers p)"
    and p': "p' = set_pc k (wake_sleeping (wake_start_blocked (dispatchers p ! k))) p"
    using e by (auto simp: exec_def split: if_splits)
  have "out_of_work (dispatchers p ! k)" using q k by (simp add: quiet_def)
  then have "out_of_work (wake_sleeping (wake_start_blocked (dispatchers p ! k)))"
    by (cases "dispatchers p ! k") simp_all
  then show ?thesis using q by (auto simp: p' quiet_def set_pc_def dest!: set_update_cases)
next
  case (CallSchedule c j)
  then obtain k where "k < length (dispatchers p)" "is_running (dispatchers p ! k)"
    using b e by (auto simp: exec_def may_schedule_def split: if_splits)
  then show ?thesis using q out_of_work_not_running nth_mem by (fastforce simp: quiet_def)
qed (use q b e in \<open>auto simp: exec_def quiet_def\<close>)

lemma idle_is_quiet:
  assumes "reachable h n E p" and "obeys_contract h" and "0 < n" and "E \<inter> {RUNNING, STOPPING} = {}"
    and "client p = CIdleWait b \<and> exec h Client p = Some (Inr p') \<or>
      client p = CIdle \<and> exec h CallWaitForIdle p = Some (Inr p')"
    and "client p' = CIdle"
  shows "quiet p'"
proof -
  note r = idle_return [OF assms(5,6)]
  have out: "\<forall>c \<in> set (dispatchers p). out_of_work c"
    using r counts_all_out [OF reachable_counts [OF assms(1)]] by simp
  then have "actorQueue p = []" using reachable_busy [OF assms(1-4)] by (auto simp: busy_ok_def)
  then show ?thesis using r out by (simp add: quiet_def)
qed

text \<open>After \<^verbatim>\<open>waitForIdle\<close> has returned nothing happens until the start request is sent.\<close>

lemma idling_quiet:
  assumes "whole_reachable h n N E w" and h: "obeys_contract h" and n: "0 < n" and E: "E \<inter> {RUNNING, STOPPING} = {}"
    and "run_pc (snd w) = RIdling" and "client (prio_of (snd w)) = CIdle"
  shows "quiet (prio_of (snd w))"
  using assms(1,5,6)
proof induction
  case init
  then show ?case by (simp add: whole_init_def core_init_def)
next
  case (step w x w')
  obtain r c where w: "w = (r, c)" by (cases w)
  have P: "prio_of c = rt_priority r" "core_reachable h n E c" "early (run_pc c) \<Longrightarrow> runtime_reachable h n N E r"
    using whole_parts [OF step.hyps(1)] by (simp_all add: w)
  have ok: "run_ok c" using core_reachable_priority [OF P(2) h] by simp
  have IH: "run_pc c = RIdling \<Longrightarrow> client (prio_of c) = CIdle \<Longrightarrow> quiet (prio_of c)" using step.IH by (simp add: w)
  show ?case
  proof (cases x)
    case RunStep
    then obtain c' where c: "run_section h c = Some (Inr c')" and w': "w' = with_core r c'"
      using step.hyps(2) by (auto simp: whole_exec_def w map_sum_Inr)
    have t: "run_pc c' = RIdling" "client (prio_of c') = CIdle" using step.prems by (simp_all add: w' with_core_def)
    have "run_pc c = RStarting \<and> client (prio_of c) = CIdle \<and> exec h CallWaitForIdle (prio_of c) = Some (Inr (prio_of c')) \<or>
        run_pc c = RIdling \<and> client (prio_of c) \<noteq> CIdle \<and> exec h Client (prio_of c) = Some (Inr (prio_of c'))"
      using c t(1) by (cases "run_pc c") (auto simp: run_section_def wait_stop_def prio_part_iff Let_def split: if_splits)
    moreover have "\<exists>b. client (prio_of c) = CIdleWait b" if "run_pc c = RIdling" "client (prio_of c) \<noteq> CIdle"
      using ok that by (cases "client (prio_of c)") (auto simp: run_ok_def spurious_client_def Let_def)
    ultimately obtain b where "early (run_pc c)" "client (prio_of c) = CIdleWait b \<and> exec h Client (prio_of c) = Some (Inr (prio_of c')) \<or>
        client (prio_of c) = CIdle \<and> exec h CallWaitForIdle (prio_of c) = Some (Inr (prio_of c'))"
      by (auto simp: early_def)
    then show ?thesis
      using idle_is_quiet [OF _ h n E _ t(2)] runtime_reachable_priority [OF P(3)] P(1) by (simp add: w' with_core_def)
  next
    case RunWakes
    then obtain c' where c: "core_exec h E RunSpurious c = Some (Inr c')" and w': "w' = with_core r c'"
      using step.hyps(2) by (auto simp: whole_exec_def w map_sum_Inr)
    then show ?thesis using IH step.prems
      by (cases "run_pc c") (auto simp: core_exec_def with_core_def)
  next
    case (CoreStep k)
    then obtain c' where c: "core_callback k c = Some c'" and w': "w' = with_core r c'"
      using step.hyps(2) by (auto simp: whole_exec_def w split: if_splits)
    have "prio_of c' = prio_of c" "run_pc c' = RIdling \<Longrightarrow> run_pc c = RIdling"
      using c by (cases "run_pc c"; auto simp: core_callback_def split: core_pc.splits if_splits)+
    then show ?thesis using IH step.prems by (simp add: w' with_core_def)
  next
    case (RunSends i ev)
    then show ?thesis using step.hyps(2) step.prems by (auto simp: whole_exec_def w with_runtime_def map_sum_Inr split: if_splits)
  next
    case (RuntimeStep y)
    then obtain r' where b: "background y" "free_to_act y c" and w': "w' = with_runtime c r'"
      and r: "runtime_exec h E y r = Some (Inr r')"
      using step.hyps(2) by (auto simp: whole_exec_def w map_sum_Inr split: if_splits)
    have t: "run_pc c = RIdling" "client (rt_priority r') = CIdle" using step.prems by (simp_all add: w' with_runtime_def)
    then have st: "pstate (rt_priority r) = RUNNING" using ok P(1) by (simp add: run_ok_def Let_def)
    from runtime_exec_part [OF r] show ?thesis
    proof (elim disjE exE conjE)
      fix a assume a: "exec h a (rt_priority r) = Some (Inr (rt_priority r'))" "allowed E a (rt_priority r)"
        and pp: "priority_part y a"
      have oa: "other_action c a" by (rule other_part [OF pp b])
      then have "spurious_client (client (rt_priority r')) = spurious_client (client (rt_priority r))"
        using other_frame [OF a(1)] by (simp add: other_action_def split: action.splits)
      then have "client (rt_priority r) = CIdle"
        using t(2) by (cases "client (rt_priority r)") (simp_all add: spurious_client_def)
      then have "quiet (rt_priority r)" using IH t(1) P(1) by simp
      moreover have "case a of Dispatch k \<Rightarrow> True | SpuriousDispatcher k \<Rightarrow> True | SpuriousClient \<Rightarrow> True
          | CallSchedule c j \<Rightarrow> \<exists>k. c = Dispatcher k | _ \<Rightarrow> False"
        using oa a(2) st E by (auto simp: other_action_def allowed_def split: action.splits caller.splits)
      ultimately have "quiet (rt_priority r')" using quiet_step st a(1) by blast
      then show ?thesis by (simp add: w' with_runtime_def)
    qed (use IH t P(1) in \<open>simp add: w' with_runtime_def\<close>)
  qed
qed

section \<open>A concrete session\<close>

text \<open>
  One dispatcher and one actor that listens in its constructor: the start, the wait for idle, a message whose
  callback confirms the stop, and the stop.
\<close>

definition demo_whole_steps :: "(nat, nat, nat) whole_action list" where
  "demo_whole_steps = [RuntimeStep (CallPort External 0 (Listen 5 1 70)), RuntimeStep (FinishCtor External 0),
     RunStep, RunStep, RunStep, RuntimeStep (PriorityAction (Dispatch 0)), RuntimeStep (PriorityAction (Dispatch 0)),
     RunStep, RunStep, RuntimeStep (PriorityAction (Dispatch 0)), RuntimeStep (Work 0), RuntimeStep (Work 0),
     RuntimeStep (Work 0)]"

definition demo_whole_rest :: "(nat, nat, nat) whole_action list" where
  "demo_whole_rest = map RuntimeStep demo_runtime_rest @ [RunStep]"

definition demo_whole_core :: "(nat, nat, nat) runtime \<Rightarrow> run_pc \<Rightarrow> nat core" where
  "demo_whole_core r pc = \<lparr>prio_of = rt_priority r, running_flag = True, run_pc = pc, callbacks = [NotInCore],
     confirmations = 0\<rparr>"

definition demo_idle_runtime :: "(nat, nat, nat) runtime" where
  "demo_idle_runtime = demo_runtime_idle\<lparr>rt_priority := (rt_priority demo_runtime_idle)\<lparr>client := CIdle\<rparr>\<rparr>"

definition demo_whole_idle :: "(nat, nat, nat) whole" where
  "demo_whole_idle = (demo_idle_runtime, demo_whole_core demo_idle_runtime RIdling)"

lemmas whole_defs = whole_exec_def with_core_def with_runtime_def free_to_act_def background_def run_section_def
  prio_part_def core_callback_def stopMutex_free_def in_event_def
  demo_whole_core_def runtime_defs

lemma demo_whole_first:
  "whole_run h {START} demo_whole_steps (whole_init 1 1) = Some (Inr (demo_runtime_middle, demo_whole_core demo_runtime_middle RIdling))"
  by (simp add: demo_whole_steps_def whole_init_def core_init_def runtime_init_def priority_init_def actor_init_def
      port_init_def demo_runtime_middle_def whole_defs)

lemma demo_whole_second:
  "whole_run h {START} demo_whole_rest (demo_runtime_middle, demo_whole_core demo_runtime_middle RIdling) =
     Some (Inr demo_whole_idle)"
  by (simp add: demo_whole_rest_def demo_runtime_rest_def demo_whole_idle_def demo_idle_runtime_def demo_runtime_middle_def
      demo_runtime_idle_def table_add_def vector_add_def whole_defs)

lemma demo_whole_idle_reach: "whole_reachable h 1 1 {START} demo_whole_idle"
  by (rule whole_run_reachable [OF demo_whole_second whole_run_reachable [OF demo_whole_first whole_reachable.init]])

definition demo_whole_end :: "(nat, nat, nat) whole_action list" where
  "demo_whole_end = [RunStep, RunSends 0 (5, 30), RunStep, RunStep] @
     map RuntimeStep [PriorityAction (Dispatch 0), Work 0, Work 0, Work 0, Work 0, Work 0] @
     [CoreStep 0, CoreStep 0, CoreStep 0, RunStep] @
     map RuntimeStep [Work 0, Work 0, Work 0, Work 0, Work 0, PriorityAction (Dispatch 0), PriorityAction (Dispatch 0)] @
     [RunStep, RunStep, RunStep]"

definition demo_returned_runtime :: "(nat, nat, nat) runtime" where
  "demo_returned_runtime = \<lparr>rt_priority = \<lparr>pstate = STOPPED, dispatchers = [Sleeping True], actorQueue = [],
       startCount = 0, sleepingCount = 1, client = CIdle, inDtor = False, scheduledLog = [0, 0],
       takenLog = [(0, 0), (0, 0)]\<rparr>,
     rt_actors = [\<lparr>callBackQueue = [], scheduled_flag = False, consumeJobs = 0, consumers = [Returned, Returned],
       phase_of = Live, postedLog = [(), ()], begunLog = [(), ()]\<rparr>],
     rt_ports = [\<lparr>pt_handleCounter = 0, pt_callbacks = [5 \<mapsto> [(1, 70)]], pt_eventQueue = [], pt_commandsQueue = [],
       pt_scheduled = False, ownerTokens = 0, netListens = [5], pconsumers = [PDone 0, PDone 1],
       issuedLog = [CListen 1 5 70], executedLog = [CListen 1 5 70], postedEvents = [(5, 30)],
       poppedEvents = [(5, 30)], callLog = [((5, 30), vector_calls [(1, 70)])]\<rparr>],
     rt_frames = [FNone]\<rparr>"

lemma demo_whole_third:
  "\<exists>c. whole_run onErrorFunc {START} demo_whole_end demo_whole_idle = Some (Inr (demo_returned_runtime, c)) \<and>
     run_pc c = RReturned"
  by (simp add: demo_whole_end_def demo_whole_idle_def demo_idle_runtime_def demo_runtime_idle_def demo_returned_runtime_def
      whole_defs wait_stop_def int_max_def)

lemma demo_whole_teardown:
  "\<exists>q. teardown_run onErrorFunc demo_teardown (demo_returned_runtime, core_sections (ActorTree 0 [])) = Some q"
  by (simp add: demo_teardown_def demo_returned_runtime_def teardown_exec_def core_dtor_def wait_ready_def
      aq_exec_def waitForReadyToDtor_def background_def locked_untouched_def runtime_exec_def exec_def job_done_def
      core_defs port_destroy_def network_destroy_def core_sections_def Let_def)

section \<open>Properties\<close>

text \<open>
  C13: the start request comes after the listens: when \<^verbatim>\<open>Core::run\<close> goes on to send the start
  request, and nobody but callbacks has scheduled since the start, every constructed actor has executed all its
  listens and handled all its messages.
\<close>

theorem start_request_after_listens:
  assumes "whole_reachable h n N E (r, c)" and "obeys_contract h" and "0 < n" and "E \<inter> {RUNNING, STOPPING} = {}"
    and "run_pc c = RIdling" and "whole_exec h E RunStep (r, c) = Some (Inr (r', c'))" and "run_pc c' = RSending"
    and "i < N" and "phase_of (rt_actors r' ! i) = Live"
  shows "callBackQueue (rt_actors r' ! i) = [] \<and> all_handled (rt_ports r' ! i)"
proof -
  have idle: "client (prio_of c) = CIdle" and r': "rt_actors r' = rt_actors r" "rt_ports r' = rt_ports r"
    using assms(5-7)
    by (auto simp: whole_exec_def run_section_def prio_part_iff with_core_def map_sum_Inr split: if_splits)
  note P = whole_parts [OF assms(1)]
  have reach: "runtime_reachable h n N E r" using P assms(5) by (simp add: early_def)
  have q: "quiet (rt_priority r)" using idling_quiet [OF assms(1-4)] assms(5) idle P by simp
  then have "\<forall>c \<in> set (dispatchers (rt_priority r)). \<not> is_running c"
    using out_of_work_not_running by (auto simp: quiet_def)
  then show ?thesis
    using quiet_handled [of r i] runtime_reachable_inv [OF reach] q assms(8,9) by (simp add: quiet_def r')
qed

lemma start_request_after_listens_witness:
  "\<exists>r c. whole_exec onErrorFunc {START} RunStep demo_whole_idle = Some (Inr (r, c)) \<and> run_pc c = RSending \<and>
     all_handled (rt_ports r ! 0)"
proof -
  obtain c where e: "whole_exec onErrorFunc {START} RunStep demo_whole_idle = Some (Inr (demo_idle_runtime, c))"
    "run_pc c = RSending"
    by (simp add: whole_exec_def demo_whole_idle_def demo_idle_runtime_def demo_whole_core_def demo_runtime_idle_def
        run_section_def with_core_def)
  have "all_handled (rt_ports demo_idle_runtime ! 0)"
    using start_request_after_listens [OF demo_whole_idle_reach [unfolded demo_whole_idle_def, of onErrorFunc]
        _ _ _ _ e(1) [unfolded demo_whole_idle_def] e(2), of 0]
    by (simp add: demo_whole_core_def demo_idle_runtime_def demo_runtime_idle_def)
  with e show ?thesis by blast
qed

text \<open>
  C17: from the return of \<^verbatim>\<open>Core::run\<close> to the end of the core: then the confirmation of the stop
  has arrived, every actor has handled every message it was ever sent, no dispatcher is in the callback of the
  core, and the destructor of the core ends in a bounded number of steps without waiting for an actor.
\<close>

theorem run_then_destruction:
  assumes "whole_reachable h n N E (r, c)" and "obeys_contract h" and "run_pc c = RReturned"
    and "distinct (tree_actors T)" and "\<forall>i \<in> set (tree_actors T). i < N \<and> phase_of (rt_actors r ! i) = Live"
    and "teardown_run h xs (r, core_sections T) = Some q"
  shows "0 < confirmations c \<and> (\<forall>k \<in> set (callbacks c). k = NotInCore) \<and>
    (\<forall>i \<in> set (tree_actors T). all_handled (rt_ports r ! i)) \<and>
    length (filter (\<lambda>x. \<not> spurious x) xs) \<le> teardown_weight (r, core_sections T) \<and>
    (\<exists>t ds. q = Inr (t, ds) \<and>
      ((\<exists>x. \<not> spurious x \<and> teardown_exec h x (t, ds) \<noteq> None) \<or>
       client (rt_priority t) = CDestroyed \<and> (\<forall>i \<in> set (tree_actors T). phase_of (rt_actors t ! i) = DtorLocked)))"
proof -
  have P: "prio_of c = rt_priority r" "core_reachable h n E c" "runtime_reachable h n N (insert RUNNING E) r"
    using whole_parts [OF assms(1)] by simp_all
  have ok: "run_ok c" using core_reachable_priority [OF P(2) assms(2)] by simp
  then have st: "pstate (rt_priority r) = STOPPED" "client (rt_priority r) = CIdle"
    using assms(3) P(1) by (cases "client (rt_priority r)"; simp add: run_ok_def spurious_client_def Let_def)+
  have inv: "callbacks_ok c" "flag_ok c" using core_reachable_ok [OF P(2) assms(2)] by simp_all
  have ph: "phase_ok (rt_priority r)" by (rule reachable_phase [OF runtime_reachable_priority [OF P(3)] assms(2)])
  then have out: "\<forall>d \<in> set (dispatchers (rt_priority r)). out_of_work d" using st by (simp add: phase_ok_def)
  have "k = NotInCore" if k: "k \<in> set (callbacks c)" for k
  proof -
    obtain j where j: "j < length (callbacks c)" "k = callbacks c ! j" using k by (metis in_set_conv_nth)
    show ?thesis using callback_runs(2,4) [OF inv(1) j(1)] out j(2) P(1) by auto
  qed
  moreover have "all_handled (rt_ports r ! i)" if i: "i \<in> set (tree_actors T)" for i
  proof -
    have "runtime_inv r" "i < length (rt_actors r)" "phase_of (rt_actors r ! i) = Live"
      using runtime_reachable_inv [OF P(3)] assms(5) i by auto
    then show ?thesis using quiet_handled [of r i] ph st stopped_quiet [OF ph] by (simp add: phase_ok_def)
  qed
  moreover have "0 < confirmations c" using inv(2) assms(3) by (simp add: flag_ok_def)
  ultimately show ?thesis using teardown_completes [OF P(3) assms(2) st assms(4-6)] by auto
qed

lemma run_then_destruction_witness:
  "\<exists>c q. whole_run onErrorFunc {START} demo_whole_end demo_whole_idle = Some (Inr (demo_returned_runtime, c)) \<and>
     teardown_run onErrorFunc demo_teardown (demo_returned_runtime, core_sections (ActorTree 0 [])) = Some (Inr q) \<and>
     0 < confirmations c \<and> all_handled (rt_ports demo_returned_runtime ! 0)"
proof -
  obtain c where c: "whole_run onErrorFunc {START} demo_whole_end demo_whole_idle = Some (Inr (demo_returned_runtime, c))"
    "run_pc c = RReturned" using demo_whole_third by blast
  obtain q where q: "teardown_run onErrorFunc demo_teardown (demo_returned_runtime, core_sections (ActorTree 0 [])) = Some q"
    using demo_whole_teardown by blast
  from run_then_destruction [OF whole_run_reachable [OF c(1) demo_whole_idle_reach] _ c(2) _ _ q] c(1) q show ?thesis
    by (auto simp: demo_returned_runtime_def)
qed

end
