(* ===== verification/Lock_Order.thy ===== *)
theory Lock_Order
  imports Core_Prelude
begin

text \<open>
  The mutexes of \<^verbatim>\<open>rapi_core\<close>: in which order the program takes them, and in which way alone
  threads can block each other for ever.

  Every function of the program is given by the sequence of its lock and unlock operations, with everything
  else left out; what it does in between is a matter of the other theories. Its parameters say how the tests
  in it come out. The wait on a condition variable gives its mutex back, so it separates two critical
  sections. A thread that waits with no other mutex held keeps nobody from a mutex, and that its wait ends is the
  matter of \<^verbatim>\<open>Priority_Properties\<close> and \<^verbatim>\<open>Actor_Queue_Properties\<close>; only
  \<^verbatim>\<open>Core::run\<close> waits with a mutex held, in \<^verbatim>\<open>Priority::stop\<close>, for all
  dispatchers to finish, and this wait is an operation of its own, \<open>Await\<close>. Not covered is the
  destruction of actors, after \<^verbatim>\<open>Priority::stop\<close>, when no other thread takes their mutexes.
\<close>

section \<open>Mutexes taken in order\<close>

datatype 'm lock_action = Lock 'm | Unlock 'm | Await

definition locked :: "'m \<Rightarrow> 'm lock_action list \<Rightarrow> 'm lock_action list" where
  "locked m as = Lock m # as @ [Unlock m]"

text \<open>A thread: the mutexes it holds, the last one first, and what it still has to do.\<close>

type_synonym 'm lock_thread = "'m list \<times> 'm lock_action list"

definition mutex_free :: "'m \<Rightarrow> 'm lock_thread list \<Rightarrow> bool" where
  "mutex_free m ts \<longleftrightarrow> (\<forall>t \<in> set ts. m \<notin> set (fst t))"

text \<open>\<open>d\<close> says which threads are dispatchers.\<close>

definition dispatchers_done :: "(nat \<Rightarrow> bool) \<Rightarrow> 'm lock_thread list \<Rightarrow> bool" where
  "dispatchers_done d ts \<longleftrightarrow> (\<forall>i < length ts. d i \<longrightarrow> snd (ts ! i) = [])"

definition lock_step :: "(nat \<Rightarrow> bool) \<Rightarrow> nat \<Rightarrow> 'm lock_thread list \<Rightarrow> 'm lock_thread list option" where
  "lock_step d i ts =
     (if i < length ts then
        (case ts ! i of
           (h, Lock m # as) \<Rightarrow> if mutex_free m ts then Some (ts[i := (m # h, as)]) else None
         | (h, Unlock m # as) \<Rightarrow> Some (ts[i := (removeAll m h, as)])
         | (h, Await # as) \<Rightarrow> if dispatchers_done d ts then Some (ts[i := (h, as)]) else None
         | (h, []) \<Rightarrow> None)
      else None)"

fun lock_run :: "(nat \<Rightarrow> bool) \<Rightarrow> nat list \<Rightarrow> 'm lock_thread list \<Rightarrow> 'm lock_thread list option" where
  "lock_run d [] ts = Some ts"
| "lock_run d (i # is) ts = (case lock_step d i ts of None \<Rightarrow> None | Some us \<Rightarrow> lock_run d is us)"

definition threads_done :: "'m lock_thread list \<Rightarrow> bool" where
  "threads_done ts \<longleftrightarrow> (\<forall>t \<in> set ts. snd t = [])"


text \<open>Thread \<open>i\<close> waits for the dispatchers with the mutex \<open>m\<close> held, for which thread \<open>j\<close> waits.\<close>

definition held_while_waiting :: "'m \<Rightarrow> nat \<Rightarrow> nat \<Rightarrow> 'm lock_thread list \<Rightarrow> bool" where
  "held_while_waiting m i j ts \<longleftrightarrow> i < length ts \<and> j < length ts \<and> i \<noteq> j \<and>
     fst (ts ! i) = [m] \<and> take 1 (snd (ts ! i)) = [Await] \<and> take 1 (snd (ts ! j)) = [Lock m]"

text \<open>
  The interface between the generic argument and the program: a rank for every mutex, the mutex that is held
  while a thread waits, and the programs that threads may have; every program takes mutexes in the order of their
  ranks, gives them back, and waits with that mutex alone.
\<close>

fun in_order :: "('m \<Rightarrow> nat) \<Rightarrow> 'm \<Rightarrow> 'm list \<Rightarrow> 'm lock_action list \<Rightarrow> bool" where
  "in_order rank kept h [] \<longleftrightarrow> h = []"
| "in_order rank kept h (Lock m # as) \<longleftrightarrow> (\<forall>x \<in> set h. rank x < rank m) \<and> in_order rank kept (m # h) as"
| "in_order rank kept h (Unlock m # as) \<longleftrightarrow> h \<noteq> [] \<and> hd h = m \<and> in_order rank kept (tl h) as"
| "in_order rank kept h (Await # as) \<longleftrightarrow> h = [kept] \<and> in_order rank kept h as"


section \<open>The critical sections of the program\<close>

text \<open>
  Port, actor and callbacks with the same number belong together: an actor has one port. The two mutexes of
  a port, \<^verbatim>\<open>callbacksMutex_\<close> and \<^verbatim>\<open>eventMutex_\<close>, that of the network,
  \<^verbatim>\<open>callBackMutex_\<close> of an actor, the two of the priority, and that of the core.
\<close>

datatype mutex =
    PortCallbacks nat | NetworkCallbacks | PortEvent nat | ActorCallBack nat
  | StateChange | StartedMutex | StopMutex

definition priority_schedule_locks :: "mutex lock_action list" where
  "priority_schedule_locks = locked StateChange []"

text \<open>\<open>b\<close>: the actor was not scheduled yet.\<close>

definition actor_schedule_locks :: "nat \<Rightarrow> bool \<Rightarrow> mutex lock_action list" where
  "actor_schedule_locks i b = locked (ActorCallBack i) (if b then priority_schedule_locks else [])"

definition actor_ctor_locks :: "nat \<Rightarrow> mutex lock_action list" where
  "actor_ctor_locks i = locked (ActorCallBack i) []"

text \<open>\<open>b\<close>: callbacks were queued during the construction.\<close>

definition ctorFinished_locks :: "nat \<Rightarrow> bool \<Rightarrow> mutex lock_action list" where
  "ctorFinished_locks i b = locked (ActorCallBack i) (if b then priority_schedule_locks else [])"

definition scheduleOnOwner_locks :: "nat \<Rightarrow> bool \<Rightarrow> bool \<Rightarrow> mutex lock_action list" where
  "scheduleOnOwner_locks i a b = (if a then actor_schedule_locks i b else [])"

text \<open>\<^verbatim>\<open>Port::schedule\<close>, \<^verbatim>\<open>listen\<close> with a handle and \<^verbatim>\<open>unlisten\<close>.\<close>

definition port_queue_locks :: "nat \<Rightarrow> bool \<Rightarrow> bool \<Rightarrow> mutex lock_action list" where
  "port_queue_locks i a b = locked (PortEvent i) (scheduleOnOwner_locks i a b)"

text \<open>\<^verbatim>\<open>Port::newHandle\<close>, \<^verbatim>\<open>unlistenAll\<close> and \<^verbatim>\<open>getQueueEventCount\<close>.\<close>

definition port_short_locks :: "nat \<Rightarrow> mutex lock_action list" where
  "port_short_locks i = locked (PortEvent i) []"

definition network_listen_locks :: "mutex lock_action list" where
  "network_listen_locks = locked NetworkCallbacks [] @ locked NetworkCallbacks []"

text \<open>The registered ports, each with the outcome of its tests.\<close>

definition network_publish_locks :: "(nat \<times> bool \<times> bool) list \<Rightarrow> mutex lock_action list" where
  "network_publish_locks ps =
     locked NetworkCallbacks (concat (map (\<lambda>(i, a, b). port_queue_locks i a b) ps))"

text \<open>
  What a callback can do: publish, listen and unlisten on its own port or, in the constructor of a new
  child, on that of the child, and for the callback of the core, signal the stop.
\<close>

datatype callback_op =
    CbPublish "(nat \<times> bool \<times> bool) list"
  | CbQueue nat bool bool
  | CbHandle nat
  | CbChildCtor nat
  | CbChildFinished nat bool
  | CbCoreStopped

fun callback_op_locks :: "callback_op \<Rightarrow> mutex lock_action list" where
  "callback_op_locks (CbPublish ps) = network_publish_locks ps"
| "callback_op_locks (CbQueue i a b) = port_queue_locks i a b"
| "callback_op_locks (CbHandle i) = port_short_locks i"
| "callback_op_locks (CbChildCtor i) = actor_ctor_locks i"
| "callback_op_locks (CbChildFinished i b) = ctorFinished_locks i b"
| "callback_op_locks CbCoreStopped = locked StopMutex []"

definition callback_locks :: "callback_op list \<Rightarrow> mutex lock_action list" where
  "callback_locks ops = concat (map callback_op_locks ops)"

text \<open>A queued command, \<open>new\<close> if it is a listen for a type the port has not registered, and a queued event.\<close>

definition command_locks :: "nat \<Rightarrow> bool \<Rightarrow> mutex lock_action list" where
  "command_locks i new = locked (PortCallbacks i) (if new then network_listen_locks else [])"

definition event_locks :: "nat \<Rightarrow> callback_op list \<Rightarrow> mutex lock_action list" where
  "event_locks i ops = locked (PortCallbacks i) (callback_locks ops)"

definition processCommands_locks :: "nat \<Rightarrow> bool list \<Rightarrow> mutex lock_action list" where
  "processCommands_locks i cs =
     locked (PortEvent i) [] @ concat (map (\<lambda>c. command_locks i c @ locked (PortEvent i) []) cs)"

text \<open>\<^verbatim>\<open>Port::consume\<close>: the commands found in every round, and the event of all rounds but the last.\<close>

definition port_consume_locks ::
  "nat \<Rightarrow> (bool list \<times> callback_op list) list \<Rightarrow> bool list \<Rightarrow> bool \<Rightarrow> bool \<Rightarrow> mutex lock_action list" where
  "port_consume_locks i rounds cs a b =
     concat (map (\<lambda>(cs, ops). processCommands_locks i cs @ locked (PortEvent i) [] @ event_locks i ops) rounds) @
     processCommands_locks i cs @ locked (PortEvent i) (scheduleOnOwner_locks i a b)"

text \<open>\<^verbatim>\<open>Actor::consume\<close> with its callbacks, all of them runs of the port.\<close>

definition actor_consume_locks ::
  "nat \<Rightarrow> ((bool list \<times> callback_op list) list \<times> bool list \<times> bool \<times> bool) list \<Rightarrow> mutex lock_action list" where
  "actor_consume_locks i runs =
     locked (ActorCallBack i) [] @
     concat (map (\<lambda>(rounds, cs, a, b). port_consume_locks i rounds cs a b @ locked (ActorCallBack i) []) runs)"

text \<open>\<^verbatim>\<open>Port::notify\<close>: the event is queued, and the calling thread consumes.\<close>

definition notify_locks ::
  "nat \<Rightarrow> bool \<Rightarrow> bool \<Rightarrow> (bool list \<times> callback_op list) list \<Rightarrow> bool list \<Rightarrow> bool \<Rightarrow> bool \<Rightarrow> mutex lock_action list" where
  "notify_locks i a b rounds cs a' b' = port_queue_locks i a b @ port_consume_locks i rounds cs a' b'"

text \<open>
  \<^verbatim>\<open>Priority::stop\<close>: the test, and unless it holds \<open>k\<close> wake-ups for nothing and one
  for the dispatchers being done.
\<close>

definition priority_stop_locks :: "nat option \<Rightarrow> mutex lock_action list" where
  "priority_stop_locks w = locked StateChange [] @ (case w of
       None \<Rightarrow> []
     | Some k \<Rightarrow> concat (replicate k (locked StateChange [])) @ [Await] @ locked StateChange [])"

text \<open>
  A dispatcher: the start, and between any two jobs as many waits as it takes; and the other threads:
  construction of actors, start, wait for idle, messages from outside, also with \<^verbatim>\<open>notify\<close>, the
  wait of \<^verbatim>\<open>Core::run\<close> for the stop, and the stop, with the mutex of the core held.
\<close>

datatype thread_op =
    DispatcherStarts
  | DispatcherWaits
  | DispatcherRuns nat "((bool list \<times> callback_op list) list \<times> bool list \<times> bool \<times> bool) list"
  | CallbackOps "callback_op list"
  | PriorityStart
  | PriorityWaitOrStop
  | CoreWait
  | CoreStop "nat option"
  | PortNotify nat bool bool "(bool list \<times> callback_op list) list" "bool list" bool bool

fun thread_op_locks :: "thread_op \<Rightarrow> mutex lock_action list" where
  "thread_op_locks DispatcherStarts = locked StateChange [] @ locked StartedMutex []"
| "thread_op_locks DispatcherWaits = locked StateChange []"
| "thread_op_locks (DispatcherRuns i runs) = locked StateChange [] @ actor_consume_locks i runs"
| "thread_op_locks (CallbackOps ops) = callback_locks ops"
| "thread_op_locks PriorityStart = locked StateChange [] @ locked StartedMutex []"
| "thread_op_locks PriorityWaitOrStop = locked StateChange []"
| "thread_op_locks CoreWait = locked StopMutex []"
| "thread_op_locks (CoreStop w) = locked StopMutex (priority_stop_locks w)"
| "thread_op_locks (PortNotify i a b rounds cs a' b') = notify_locks i a b rounds cs a' b'"


definition thread_locks :: "thread_op list \<Rightarrow> mutex lock_action list" where
  "thread_locks ops = concat (map thread_op_locks ops)"

section \<open>The order\<close>

fun mutex_rank :: "mutex \<Rightarrow> nat" where
  "mutex_rank (PortCallbacks i) = 1"
| "mutex_rank StopMutex = 2"
| "mutex_rank NetworkCallbacks = 2"
| "mutex_rank (PortEvent i) = 3"
| "mutex_rank (ActorCallBack i) = 4"
| "mutex_rank StateChange = 5"
| "mutex_rank StartedMutex = 6"

text \<open>A sequence that can be run by a thread whose mutexes all have ranks up to \<open>r\<close>.\<close>

definition above :: "nat \<Rightarrow> mutex lock_action list \<Rightarrow> bool" where
  "above r as \<longleftrightarrow> (\<forall>h bs. (\<forall>x \<in> set h. mutex_rank x \<le> r) \<longrightarrow>
     in_order mutex_rank StopMutex h (as @ bs) = in_order mutex_rank StopMutex h bs)"

named_theorems above_intros \<open>how sequences that respect the order are built\<close>

lemma above_Nil [above_intros]: "above r []"
  by (simp add: above_def)

lemma above_append [above_intros]: "above r as \<Longrightarrow> above r bs \<Longrightarrow> above r (as @ bs)"
  by (simp add: above_def)



lemma above_if [above_intros]: "(b \<Longrightarrow> above r as) \<Longrightarrow> (\<not> b \<Longrightarrow> above r bs) \<Longrightarrow> above r (if b then as else bs)"
  by simp

lemma above_locked [above_intros]:
  assumes "r < mutex_rank m" and "above (mutex_rank m) as"
  shows "above r (locked m as)"
  unfolding above_def
proof (intro allI impI)
  fix h bs assume h: "\<forall>x \<in> set h. mutex_rank x \<le> r"
  have "\<forall>x \<in> set (m # h). mutex_rank x \<le> mutex_rank m" using h assms(1) by fastforce
  then have "in_order mutex_rank StopMutex (m # h) (as @ Unlock m # bs) = in_order mutex_rank StopMutex (m # h) (Unlock m # bs)"
    using assms(2) unfolding above_def by blast
  then show "in_order mutex_rank StopMutex h (locked m as @ bs) = in_order mutex_rank StopMutex h bs"
    using h assms(1) by (fastforce simp: locked_def)
qed








text \<open>Only the stop waits.\<close>

lemma Await_locked [simp]: "Await \<in> set (locked m as) \<longleftrightarrow> Await \<in> set as"
  by (simp add: locked_def)

lemma no_Await_port [simp]:
  "Await \<notin> set (port_queue_locks i a b)" "Await \<notin> set (callback_op_locks op)"
  "Await \<notin> set (port_consume_locks i rounds cs a b)"
proof -
  show q: "Await \<notin> set (port_queue_locks i a b)" for i a b
    by (simp add: port_queue_locks_def scheduleOnOwner_locks_def actor_schedule_locks_def priority_schedule_locks_def)
  show c: "Await \<notin> set (callback_op_locks op)" for op
    by (cases op) (auto simp: q network_publish_locks_def port_short_locks_def actor_ctor_locks_def ctorFinished_locks_def
        priority_schedule_locks_def)
  show "Await \<notin> set (port_consume_locks i rounds cs a b)"
    by (auto simp: c port_consume_locks_def processCommands_locks_def command_locks_def network_listen_locks_def
        event_locks_def callback_locks_def scheduleOnOwner_locks_def actor_schedule_locks_def priority_schedule_locks_def)
qed




section \<open>Property\<close>



section \<open>The deadlocks that do happen\<close>

text \<open>
  A dispatcher executes the callback of the core while \<^verbatim>\<open>run\<close> is in
  \<^verbatim>\<open>Priority::stop\<close>: nobody can go on. How this comes about is shown in
  \<^verbatim>\<open>Core_Run\<close>.
\<close>

lemma stop_deadlocks:
  "\<exists>is ts. lock_run (\<lambda>i. i = 1) is (map (\<lambda>ops. ([], thread_locks ops))
       [[CoreStop (Some 0)], [DispatcherRuns 0 [([([], [CbCoreStopped])], [], False, False)]]]) = Some ts \<and>
     held_while_waiting StopMutex 0 1 ts \<and> \<not> threads_done ts \<and> (\<forall>i. lock_step (\<lambda>i. i = 1) i ts = None)"
proof -
  let ?ts = "map (\<lambda>ops. ([], thread_locks ops))
    [[CoreStop (Some 0)], [DispatcherRuns 0 [([([], [CbCoreStopped])], [], False, False)]]]"
  obtain ts where "lock_run (\<lambda>i. i = 1) (replicate 3 0 @ replicate 9 1) ?ts = Some ts"
    "held_while_waiting StopMutex 0 1 ts" "\<not> threads_done ts" "\<forall>i. lock_step (\<lambda>i. i = 1) i ts = None"
    by (simp add: thread_locks_def priority_stop_locks_def actor_consume_locks_def port_consume_locks_def
        processCommands_locks_def event_locks_def callback_locks_def locked_def mutex_free_def lock_step_def
        held_while_waiting_def threads_done_def dispatchers_done_def numeral_eq_Suc less_Suc_eq)
  then show ?thesis by blast
qed

text \<open>
  \<^verbatim>\<open>Port::notify\<close> in a callback of the same port: the calling thread holds
  \<^verbatim>\<open>callbacksMutex_\<close> and waits for it.
\<close>

lemma notify_in_callback_deadlocks:
  "\<exists>is ts. lock_run d is [([], locked (PortCallbacks 0) (notify_locks 0 False False [([], [])] [] False False))] = Some ts \<and>
     \<not> threads_done ts \<and> (\<forall>i. lock_step d i ts = None)"
proof -
  let ?ts = "[([], locked (PortCallbacks 0) (notify_locks 0 False False [([], [])] [] False False))]"
  obtain ts where "lock_run d (replicate 7 0) ?ts = Some ts" "\<not> threads_done ts" "\<forall>i. lock_step d i ts = None"
    by (simp add: notify_locks_def port_queue_locks_def scheduleOnOwner_locks_def port_consume_locks_def
        processCommands_locks_def event_locks_def callback_locks_def locked_def mutex_free_def lock_step_def
        threads_done_def numeral_eq_Suc)
  then show ?thesis by blast
qed

end
