(* ===== verification/Race_Freedom.thy ===== *)
theory Race_Freedom
  imports Lock_Order
begin

text \<open>
  Which members the critical sections of \<^verbatim>\<open>Lock_Order\<close> read and write, and that two threads are
  at the same member at once only where the program has a trace: every member has one mutex that is held at every
  other access to it.

  Every function is given by its lock operations and its accesses to the members that several threads use; its
  parameters say how its tests come out. Erasing the accesses gives the sequence of \<^verbatim>\<open>Lock_Order\<close>.
  Left out are the accesses that are ordered by something else than a mutex: the initialisation of a member in a
  constructor, before another thread knows the object, the first line of \<^verbatim>\<open>Core::run\<close>, which sets
  \<^verbatim>\<open>running_\<close> before the priority is started, and destruction, the subject of
  \<^verbatim>\<open>Runtime_Destruction\<close>.
\<close>

section \<open>Accesses and locks\<close>

text \<open>
  \<open>TraceRead\<close> is a read for the arguments of a trace, where no mutex is required; \<open>Pause\<close> is the
  wait of \<open>Await\<close>, which here ends at any time.
\<close>

datatype ('m, 'f) memory_action = Acquire 'm | Release 'm | Read 'f | Write 'f | TraceRead 'f | Pause

type_synonym ('m, 'f) memory_thread = "'m list \<times> ('m, 'f) memory_action list"

definition critical :: "'m \<Rightarrow> ('m, 'f) memory_action list \<Rightarrow> ('m, 'f) memory_action list" where
  "critical m as = Acquire m # as @ [Release m]"

definition mem_step :: "nat \<Rightarrow> ('m, 'f) memory_thread list \<Rightarrow> ('m, 'f) memory_thread list option" where
  "mem_step i ts =
     (if i < length ts then
        (case ts ! i of
           (h, []) \<Rightarrow> None
         | (h, x # as) \<Rightarrow> (case x of
               Acquire m \<Rightarrow> if \<forall>t \<in> set ts. m \<notin> set (fst t) then Some (ts[i := (m # h, as)]) else None
             | Release m \<Rightarrow> Some (ts[i := (remove1 m h, as)])
             | _ \<Rightarrow> Some (ts[i := (h, as)])))
      else None)"

fun mem_run :: "nat list \<Rightarrow> ('m, 'f) memory_thread list \<Rightarrow> ('m, 'f) memory_thread list option" where
  "mem_run [] ts = Some ts"
| "mem_run (i # is) ts = (case mem_step i ts of None \<Rightarrow> None | Some us \<Rightarrow> mem_run is us)"

text \<open>A race: two threads are about to access the same member, and one of them to write it.\<close>

fun accessed :: "('m, 'f) memory_action \<Rightarrow> 'f option" where
  "accessed (Read f) = Some f"
| "accessed (Write f) = Some f"
| "accessed (TraceRead f) = Some f"
| "accessed a = None"

fun is_write :: "('m, 'f) memory_action \<Rightarrow> bool" where
  "is_write (Write f) = True"
| "is_write a = False"

definition conflict :: "('m, 'f) memory_action \<Rightarrow> ('m, 'f) memory_action \<Rightarrow> bool" where
  "conflict a b \<longleftrightarrow> accessed a \<noteq> None \<and> accessed a = accessed b \<and> (is_write a \<or> is_write b)"

definition race :: "('m, 'f) memory_action \<Rightarrow> ('m, 'f) memory_action \<Rightarrow> ('m, 'f) memory_thread list \<Rightarrow> bool" where
  "race a b ts \<longleftrightarrow> (\<exists>i < length ts. \<exists>j < length ts. i \<noteq> j \<and> take 1 (snd (ts ! i)) = [a] \<and> take 1 (snd (ts ! j)) = [b]) \<and>
     conflict a b"

text \<open>
  The interface: a mutex for every member, held at every access that the programs have, and the members that
  traces may read without it.
\<close>

fun guarded :: "('f \<Rightarrow> 'm) \<Rightarrow> ('f \<Rightarrow> bool) \<Rightarrow> 'm list \<Rightarrow> ('m, 'f) memory_action list \<Rightarrow> bool" where
  "guarded g tr h [] \<longleftrightarrow> True"
| "guarded g tr h (Acquire m # as) \<longleftrightarrow> guarded g tr (m # h) as"
| "guarded g tr h (Release m # as) \<longleftrightarrow> guarded g tr (remove1 m h) as"
| "guarded g tr h (Read f # as) \<longleftrightarrow> g f \<in> set h \<and> guarded g tr h as"
| "guarded g tr h (Write f # as) \<longleftrightarrow> g f \<in> set h \<and> guarded g tr h as"
| "guarded g tr h (TraceRead f # as) \<longleftrightarrow> tr f \<and> guarded g tr h as"
| "guarded g tr h (Pause # as) \<longleftrightarrow> guarded g tr h as"

locale guarded_members =
  fixes guard :: "'f \<Rightarrow> 'm" and traced :: "'f \<Rightarrow> bool" and program :: "('m, 'f) memory_action list \<Rightarrow> bool"
  assumes program_guarded: "program as \<Longrightarrow> guarded guard traced [] as"
begin

definition exclusive :: "('m, 'f) memory_thread list \<Rightarrow> bool" where
  "exclusive ts \<longleftrightarrow> (\<forall>t \<in> set ts. guarded guard traced (fst t) (snd t)) \<and>
     (\<forall>i < length ts. \<forall>j < length ts. i \<noteq> j \<longrightarrow> set (fst (ts ! i)) \<inter> set (fst (ts ! j)) = {})"

lemma exclusive_init: "\<forall>as \<in> set ps. program as \<Longrightarrow> exclusive (map (\<lambda>as. ([], as)) ps)"
  by (auto simp: exclusive_def program_guarded)

lemma exclusive_update:
  assumes ex: "exclusive ts" and i: "i < length ts" and g: "guarded guard traced h as"
    and new: "\<And>j. j < length ts \<Longrightarrow> j \<noteq> i \<Longrightarrow> set h \<inter> set (fst (ts ! j)) = {}"
  shows "exclusive (ts[i := (h, as)])"
proof -
  have "\<forall>t \<in> set (ts[i := (h, as)]). guarded guard traced (fst t) (snd t)"
    using ex g by (auto simp: exclusive_def dest!: set_update_cases)
  moreover have "set (fst (ts[i := (h, as)] ! j)) \<inter> set (fst (ts[i := (h, as)] ! k)) = {}"
    if "j < length ts" "k < length ts" "j \<noteq> k" for j k
    using that ex new [of j] new [of k] i by (cases "j = i"; cases "k = i") (auto simp: exclusive_def)
  ultimately show ?thesis by (simp add: exclusive_def)
qed

lemma exclusive_step:
  assumes ex: "exclusive ts" and st: "mem_step i ts = Some us"
  shows "exclusive us"
proof -
  have i: "i < length ts" using st by (simp add: mem_step_def split: if_splits)
  obtain h x as where t: "ts ! i = (h, x # as)"
    using st i by (auto simp: mem_step_def split: prod.splits list.splits)
  have g: "guarded guard traced h (x # as)" using ex i t nth_mem [OF i] by (auto simp: exclusive_def)
  have old: "set h \<inter> set (fst (ts ! j)) = {}" if "j < length ts" "j \<noteq> i" for j
    using that ex i t by (fastforce simp: exclusive_def)
  show ?thesis
  proof (cases x)
    case (Acquire m)
    then have m: "\<forall>t \<in> set ts. m \<notin> set (fst t)" and us: "us = ts[i := (m # h, as)]"
      using st i t by (auto simp: mem_step_def split: if_splits)
    show ?thesis unfolding us using g Acquire old m by (intro exclusive_update [OF ex i]) auto
  next
    case (Release m)
    then have us: "us = ts[i := (remove1 m h, as)]" using st i t by (simp add: mem_step_def)
    show ?thesis unfolding us using g Release old set_remove1_subset [of m h]
      by (intro exclusive_update [OF ex i]) auto
  qed (use st i t g old in \<open>auto simp: mem_step_def intro!: exclusive_update [OF ex i]\<close>)
qed

lemma exclusive_run: "exclusive ts \<Longrightarrow> mem_run is ts = Some us \<Longrightarrow> exclusive us"
proof (induction "is" arbitrary: ts)
  case (Cons i "is")
  then obtain vs where "mem_step i ts = Some vs" "mem_run is vs = Some us" by (auto split: option.splits)
  with Cons exclusive_step show ?case by blast
qed simp

lemma race_at_trace:
  assumes ex: "exclusive ts" and r: "race a b ts"
  shows "\<exists>f. traced f \<and> (a = TraceRead f \<and> b = Write f \<or> a = Write f \<and> b = TraceRead f)"
proof -
  obtain i j where ij: "i < length ts" "j < length ts" "i \<noteq> j" "take 1 (snd (ts ! i)) = [a]" "take 1 (snd (ts ! j)) = [b]"
    and c: "conflict a b" using r by (auto simp: race_def)
  obtain as bs where t: "snd (ts ! i) = a # as" "snd (ts ! j) = b # bs"
    using ij(4,5) by (cases "snd (ts ! i)"; cases "snd (ts ! j)") auto
  have g: "guarded guard traced (fst (ts ! i)) (a # as)" "guarded guard traced (fst (ts ! j)) (b # bs)"
    using ex ij(1,2) t nth_mem by (fastforce simp: exclusive_def)+
  have "set (fst (ts ! i)) \<inter> set (fst (ts ! j)) = {}" using ex ij(1-3) by (simp add: exclusive_def)
  then show ?thesis using g c by (cases a; cases b) (auto simp: conflict_def)
qed

lemma runs_race_free:
  assumes "\<forall>as \<in> set ps. program as" and "mem_run is (map (\<lambda>as. ([], as)) ps) = Some us" and "race a b us"
  shows "\<exists>f. traced f \<and> (a = TraceRead f \<and> b = Write f \<or> a = Write f \<and> b = TraceRead f)"
  using race_at_trace exclusive_run [OF exclusive_init [OF assms(1)] assms(2)] assms(3) by blast

end

section \<open>The members and their mutexes\<close>

text \<open>
  Of a port, an actor, the network, the priority and the core. \<open>ActorMembers i\<close> are the members of
  \<^verbatim>\<open>Actor\<close> and of the classes derived from it that only callbacks use, such as
  \<^verbatim>\<open>children_\<close> and \<^verbatim>\<open>state_\<close>; no mutex belongs to them, but callbacks run with
  the mutex of the table of their port held.
\<close>

datatype shared_member =
    PortHandleCounter nat | PortEventQueue nat | PortCommandsQueue nat | PortScheduled nat
  | CallbackTable nat | ActorMembers nat
  | CallBackQueue nat | ActorScheduled nat
  | NetworkHandleCounter | NetworkTable
  | PrioState | PrioQueue | SleepingCount | StartCount
  | CoreRunning

fun member_mutex :: "shared_member \<Rightarrow> mutex" where
  "member_mutex (PortHandleCounter i) = PortEvent i"
| "member_mutex (PortEventQueue i) = PortEvent i"
| "member_mutex (PortCommandsQueue i) = PortEvent i"
| "member_mutex (PortScheduled i) = PortEvent i"
| "member_mutex (CallbackTable i) = PortCallbacks i"
| "member_mutex (ActorMembers i) = PortCallbacks i"
| "member_mutex (CallBackQueue i) = ActorCallBack i"
| "member_mutex (ActorScheduled i) = ActorCallBack i"
| "member_mutex NetworkHandleCounter = NetworkCallbacks"
| "member_mutex NetworkTable = NetworkCallbacks"
| "member_mutex PrioState = StateChange"
| "member_mutex PrioQueue = StateChange"
| "member_mutex SleepingCount = StateChange"
| "member_mutex StartCount = StartedMutex"
| "member_mutex CoreRunning = StopMutex"

text \<open>The members that the trace at the head of \<^verbatim>\<open>Port::consume\<close> reads.\<close>

fun trace_member :: "shared_member \<Rightarrow> bool" where
  "trace_member (PortEventQueue i) = True"
| "trace_member (PortCommandsQueue i) = True"
| "trace_member f = False"

type_synonym accesses = "(mutex, shared_member) memory_action list"

section \<open>The functions\<close>

definition priority_schedule_acc :: accesses where
  "priority_schedule_acc = critical StateChange [Read PrioState, Write PrioQueue]"

text \<open>\<open>b\<close>: the actor was not scheduled yet.\<close>

definition actor_schedule_acc :: "nat \<Rightarrow> bool \<Rightarrow> accesses" where
  "actor_schedule_acc i b = critical (ActorCallBack i) ([Write (CallBackQueue i), Read (ActorScheduled i)] @
     (if b then Write (ActorScheduled i) # priority_schedule_acc else []))"

definition actor_ctor_acc :: "nat \<Rightarrow> accesses" where
  "actor_ctor_acc i = critical (ActorCallBack i) [Write (ActorScheduled i)]"

definition ctorFinished_acc :: "nat \<Rightarrow> bool \<Rightarrow> accesses" where
  "ctorFinished_acc i b = critical (ActorCallBack i) (Read (CallBackQueue i) #
     (if b then priority_schedule_acc else [Write (ActorScheduled i)]))"

text \<open>\<open>a\<close>: the port was not scheduled yet. With the mutex of the port held.\<close>

definition scheduleOnOwner_acc :: "nat \<Rightarrow> bool \<Rightarrow> bool \<Rightarrow> accesses" where
  "scheduleOnOwner_acc i a b =
     Read (PortScheduled i) # (if a then Write (PortScheduled i) # actor_schedule_acc i b else [])"

definition port_schedule_acc :: "nat \<Rightarrow> bool \<Rightarrow> bool \<Rightarrow> accesses" where
  "port_schedule_acc i a b = critical (PortEvent i) (Write (PortEventQueue i) # scheduleOnOwner_acc i a b)"

text \<open>\<^verbatim>\<open>listen\<close> with a handle and \<^verbatim>\<open>unlisten\<close>.\<close>

definition port_command_acc :: "nat \<Rightarrow> bool \<Rightarrow> bool \<Rightarrow> accesses" where
  "port_command_acc i a b = critical (PortEvent i) (Write (PortCommandsQueue i) # scheduleOnOwner_acc i a b)"

datatype short_section = NewHandle | UnlistenAll | QueueEventCount

fun short_access :: "nat \<Rightarrow> short_section \<Rightarrow> accesses" where
  "short_access i NewHandle = [Write (PortHandleCounter i)]"
| "short_access i UnlistenAll = [Write (PortCommandsQueue i)]"
| "short_access i QueueEventCount = [Read (PortEventQueue i)]"

definition port_short_acc :: "nat \<Rightarrow> short_section \<Rightarrow> accesses" where
  "port_short_acc i k = critical (PortEvent i) (short_access i k)"

definition network_listen_acc :: accesses where
  "network_listen_acc = critical NetworkCallbacks [Write NetworkHandleCounter] @ critical NetworkCallbacks [Write NetworkTable]"

definition network_publish_acc :: "(nat \<times> bool \<times> bool) list \<Rightarrow> accesses" where
  "network_publish_acc ps = critical NetworkCallbacks
     (Read NetworkTable # concat (map (\<lambda>(i, a, b). port_schedule_acc i a b) ps))"

text \<open>What callbacks and threads of the application do, as in \<^verbatim>\<open>Lock_Order\<close>.\<close>

datatype callback_access =
    AcPublish "(nat \<times> bool \<times> bool) list"
  | AcCommand nat bool bool
  | AcShort nat short_section
  | AcChildCtor nat
  | AcChildFinished nat bool
  | AcCoreStopped

fun callback_access_acc :: "callback_access \<Rightarrow> accesses" where
  "callback_access_acc (AcPublish ps) = network_publish_acc ps"
| "callback_access_acc (AcCommand i a b) = port_command_acc i a b"
| "callback_access_acc (AcShort i k) = port_short_acc i k"
| "callback_access_acc (AcChildCtor i) = actor_ctor_acc i"
| "callback_access_acc (AcChildFinished i b) = ctorFinished_acc i b"
| "callback_access_acc AcCoreStopped = critical StopMutex [Write CoreRunning]"

definition callback_acc :: "callback_access list \<Rightarrow> accesses" where
  "callback_acc ops = concat (map callback_access_acc ops)"

definition command_acc :: "nat \<Rightarrow> bool \<Rightarrow> accesses" where
  "command_acc i new = critical (PortCallbacks i)
     (Write (CallbackTable i) # (if new then network_listen_acc else []) @ [Write (CallbackTable i)])"

definition event_acc :: "nat \<Rightarrow> callback_access list \<Rightarrow> accesses" where
  "event_acc i ops = critical (PortCallbacks i)
     ([Read (CallbackTable i), Write (ActorMembers i)] @ callback_acc ops @ [Read (CallbackTable i)])"

definition processCommands_acc :: "nat \<Rightarrow> bool list \<Rightarrow> accesses" where
  "processCommands_acc i cs =
     concat (map (\<lambda>c. critical (PortEvent i) [Read (PortCommandsQueue i), Write (PortCommandsQueue i)] @ command_acc i c) cs) @
     critical (PortEvent i) [Read (PortCommandsQueue i), Read (PortEventQueue i)]"

text \<open>
  The arguments of the trace with which \<^verbatim>\<open>consume\<close> begins are the sizes of both queues, read
  without the mutex.
\<close>

definition port_consume_acc ::
  "nat \<Rightarrow> (bool list \<times> callback_access list) list \<Rightarrow> bool list \<Rightarrow> bool \<Rightarrow> bool \<Rightarrow> accesses" where
  "port_consume_acc i rounds cs a b =
     [TraceRead (PortCommandsQueue i), TraceRead (PortEventQueue i)] @
     concat (map (\<lambda>(cs, ops). processCommands_acc i cs @ critical (PortEvent i) [Write (PortEventQueue i)] @ event_acc i ops)
       rounds) @
     processCommands_acc i cs @ critical (PortEvent i)
       ([Write (PortScheduled i), Read (PortEventQueue i), Read (PortCommandsQueue i)] @
        (if a then scheduleOnOwner_acc i True b else []))"

type_synonym port_run = "(bool list \<times> callback_access list) list \<times> bool list \<times> bool \<times> bool"

definition actor_consume_acc :: "nat \<Rightarrow> port_run list \<Rightarrow> accesses" where
  "actor_consume_acc i runs =
     concat (map (\<lambda>(rounds, cs, a, b). critical (ActorCallBack i) [Read (CallBackQueue i), Write (CallBackQueue i)] @
       port_consume_acc i rounds cs a b) runs) @
     critical (ActorCallBack i) [Read (CallBackQueue i), Write (ActorScheduled i)]"

datatype thread_access =
    AcDispatcherStarts
  | AcDispatcherWaits
  | AcDispatcherRuns nat "port_run list"
  | AcCallbackOps "callback_access list"
  | AcPriorityStart
  | AcPriorityWaitForIdle
  | AcPriorityStop
  | AcCoreWait
  | AcCoreStop "nat option"
  | AcNotify nat bool bool port_run

definition notify_acc :: "nat \<Rightarrow> bool \<Rightarrow> bool \<Rightarrow> port_run \<Rightarrow> accesses" where
  "notify_acc i a b r = port_schedule_acc i a b @ (case r of (rounds, cs, a', b') \<Rightarrow> port_consume_acc i rounds cs a' b')"

text \<open>The test before the wait, every wake-up for nothing, and the last one, which writes the state.\<close>

definition priority_stop_acc :: "nat option \<Rightarrow> accesses" where
  "priority_stop_acc w = (case w of
       None \<Rightarrow> critical StateChange [Read PrioState, Write PrioState, Read PrioQueue, Read SleepingCount, Write PrioState]
     | Some k \<Rightarrow> critical StateChange [Read PrioState, Write PrioState, Read PrioQueue, Read SleepingCount] @
         concat (replicate k (critical StateChange [Read PrioQueue, Read SleepingCount])) @ [Pause] @
         critical StateChange [Read PrioQueue, Read SleepingCount, Write PrioState])"

fun thread_access_acc :: "thread_access \<Rightarrow> accesses" where
  "thread_access_acc AcDispatcherStarts = critical StateChange [Read PrioState] @ critical StartedMutex [Write StartCount]"
| "thread_access_acc AcDispatcherWaits = critical StateChange [Read PrioState, Read PrioQueue, Write SleepingCount]"
| "thread_access_acc (AcDispatcherRuns i runs) =
     critical StateChange [Read PrioState, Read PrioQueue, Write SleepingCount, Write PrioQueue] @ actor_consume_acc i runs"
| "thread_access_acc (AcCallbackOps ops) = callback_acc ops"
| "thread_access_acc AcPriorityStart =
     critical StateChange [Read PrioState, Write PrioState] @ critical StartedMutex [Read StartCount]"
| "thread_access_acc AcPriorityWaitForIdle = critical StateChange [Read PrioQueue, Read SleepingCount]"
| "thread_access_acc AcPriorityStop =
     critical StateChange [Read PrioState, Write PrioState, Read PrioQueue, Read SleepingCount, Write PrioState]"
| "thread_access_acc AcCoreWait = critical StopMutex [Read CoreRunning]"
| "thread_access_acc (AcCoreStop w) = critical StopMutex (Read CoreRunning # priority_stop_acc w)"
| "thread_access_acc (AcNotify i a b r) = notify_acc i a b r"

definition thread_acc :: "thread_access list \<Rightarrow> accesses" where
  "thread_acc ops = concat (map (thread_access_acc) ops)"

section \<open>The locks are those of the lock order\<close>

fun lock_ops :: "('m, 'f) memory_action list \<Rightarrow> 'm lock_action list" where
  "lock_ops [] = []"
| "lock_ops (Acquire m # as) = Lock m # lock_ops as"
| "lock_ops (Release m # as) = Unlock m # lock_ops as"
| "lock_ops (Read f # as) = lock_ops as"
| "lock_ops (Write f # as) = lock_ops as"
| "lock_ops (TraceRead f # as) = lock_ops as"
| "lock_ops (Pause # as) = Await # lock_ops as"

fun callback_op_of :: "callback_access \<Rightarrow> callback_op" where
  "callback_op_of (AcPublish ps) = CbPublish ps"
| "callback_op_of (AcCommand i a b) = CbQueue i a b"
| "callback_op_of (AcShort i k) = CbHandle i"
| "callback_op_of (AcChildCtor i) = CbChildCtor i"
| "callback_op_of (AcChildFinished i b) = CbChildFinished i b"
| "callback_op_of AcCoreStopped = CbCoreStopped"

abbreviation rounds_of :: "(bool list \<times> callback_access list) list \<Rightarrow> (bool list \<times> callback_op list) list" where
  "rounds_of \<equiv> map (\<lambda>(cs, ops). (cs, map callback_op_of ops))"

fun thread_op_of :: "thread_access \<Rightarrow> thread_op" where
  "thread_op_of AcDispatcherStarts = DispatcherStarts"
| "thread_op_of AcDispatcherWaits = DispatcherWaits"
| "thread_op_of (AcDispatcherRuns i runs) = DispatcherRuns i (map (\<lambda>(rounds, r). (rounds_of rounds, r)) runs)"
| "thread_op_of (AcCallbackOps ops) = CallbackOps (map callback_op_of ops)"
| "thread_op_of AcPriorityStart = PriorityStart"
| "thread_op_of AcPriorityWaitForIdle = PriorityWaitOrStop"
| "thread_op_of AcPriorityStop = PriorityWaitOrStop"
| "thread_op_of AcCoreWait = CoreWait"
| "thread_op_of (AcCoreStop w) = CoreStop w"
| "thread_op_of (AcNotify i a b r) = (case r of (rounds, cs, a', b') \<Rightarrow> PortNotify i a b (rounds_of rounds) cs a' b')"

named_theorems lock_ops_simps \<open>the locks of the functions\<close>

lemma lock_ops_append [lock_ops_simps]: "lock_ops (as @ bs) = lock_ops as @ lock_ops bs"
  by (induction as rule: lock_ops.induct) auto

lemma lock_ops_concat [lock_ops_simps]: "lock_ops (concat (map f xs)) = concat (map (\<lambda>x. lock_ops (f x)) xs)"
  by (induction xs) (auto simp: lock_ops_append)

lemma lock_ops_critical [lock_ops_simps]: "lock_ops (critical m as) = locked m (lock_ops as)"
  by (simp add: critical_def locked_def lock_ops_append)

lemma lock_ops_replicate [lock_ops_simps]: "lock_ops (concat (replicate k as)) = concat (replicate k (lock_ops as))"
  by (induction k) (auto simp: lock_ops_append)

lemma lock_ops_short [lock_ops_simps]: "lock_ops (short_access i k) = []"
  by (cases k) simp_all

lemma concat_shift: "concat (map (\<lambda>x. l @ f x) xs) @ l = l @ concat (map (\<lambda>x. f x @ l) xs)"
  by (induction xs) simp_all

lemma lock_ops_schedule [lock_ops_simps]:
  "lock_ops priority_schedule_acc = priority_schedule_locks"
  "lock_ops (actor_schedule_acc i b) = actor_schedule_locks i b"
  "lock_ops (actor_ctor_acc i) = actor_ctor_locks i"
  "lock_ops (ctorFinished_acc i b) = ctorFinished_locks i b"
  "lock_ops (scheduleOnOwner_acc i a b) = scheduleOnOwner_locks i a b"
  by (simp_all add: lock_ops_simps priority_schedule_acc_def priority_schedule_locks_def actor_schedule_acc_def
      actor_schedule_locks_def actor_ctor_acc_def actor_ctor_locks_def ctorFinished_acc_def ctorFinished_locks_def
      scheduleOnOwner_acc_def scheduleOnOwner_locks_def)

lemma lock_ops_port [lock_ops_simps]:
  "lock_ops (port_schedule_acc i a b) = port_queue_locks i a b"
  "lock_ops (port_command_acc i a b) = port_queue_locks i a b"
  "lock_ops (port_short_acc i k) = port_short_locks i"
  "lock_ops network_listen_acc = network_listen_locks"
  by (simp_all add: lock_ops_simps port_schedule_acc_def port_command_acc_def port_queue_locks_def port_short_acc_def
      port_short_locks_def network_listen_acc_def network_listen_locks_def)

lemma lock_ops_publish [lock_ops_simps]: "lock_ops (network_publish_acc ps) = network_publish_locks ps"
  by (simp add: lock_ops_simps network_publish_acc_def network_publish_locks_def case_prod_unfold)

lemma lock_ops_callback [lock_ops_simps]:
  "lock_ops (callback_access_acc a) = callback_op_locks (callback_op_of a)"
  "lock_ops (callback_acc ops) = callback_locks (map callback_op_of ops)"
proof -
  show "lock_ops (callback_access_acc a) = callback_op_locks (callback_op_of a)" for a
    by (cases a) (simp_all add: lock_ops_simps)
  then show "lock_ops (callback_acc ops) = callback_locks (map callback_op_of ops)"
    by (simp add: callback_acc_def callback_locks_def lock_ops_concat comp_def)
qed

lemma lock_ops_consume [lock_ops_simps]:
  "lock_ops (command_acc i new) = command_locks i new"
  "lock_ops (event_acc i ops) = event_locks i (map callback_op_of ops)"
  "lock_ops (processCommands_acc i cs) = processCommands_locks i cs"
  "lock_ops (port_consume_acc i rounds ds a b) = port_consume_locks i (rounds_of rounds) ds a b"
proof -
  show c: "lock_ops (command_acc i new) = command_locks i new" for i new
    by (simp add: lock_ops_simps command_acc_def command_locks_def)
  show e: "lock_ops (event_acc i ops) = event_locks i (map callback_op_of ops)" for i ops
    by (simp add: lock_ops_simps event_acc_def event_locks_def)
  show p: "lock_ops (processCommands_acc i cs) = processCommands_locks i cs" for i cs
    by (simp add: lock_ops_simps processCommands_acc_def processCommands_locks_def c concat_shift)
  show "lock_ops (port_consume_acc i rounds ds a b) = port_consume_locks i (rounds_of rounds) ds a b"
    by (simp add: lock_ops_simps port_consume_acc_def port_consume_locks_def e p comp_def case_prod_unfold
        scheduleOnOwner_locks_def)
qed

lemma lock_ops_actor [lock_ops_simps]:
  "lock_ops (actor_consume_acc i runs) = actor_consume_locks i (map (\<lambda>(rounds, r). (rounds_of rounds, r)) runs)"
  by (simp add: lock_ops_simps actor_consume_acc_def actor_consume_locks_def comp_def case_prod_unfold concat_shift)

lemma lock_ops_stop [lock_ops_simps]: "lock_ops (priority_stop_acc w) = priority_stop_locks w"
  by (cases w) (simp_all add: priority_stop_acc_def priority_stop_locks_def lock_ops_simps)

lemma thread_acc_locks: "lock_ops (thread_acc ops) = thread_locks (map thread_op_of ops)"
proof -
  have "lock_ops (thread_access_acc op) = thread_op_locks (thread_op_of op)" for op
    by (cases op) (simp_all add: lock_ops_simps notify_acc_def notify_locks_def split: prod.split)
  then show ?thesis by (simp add: thread_acc_def thread_locks_def lock_ops_concat comp_def)
qed

section \<open>Every access holds its mutex\<close>

text \<open>A sequence that keeps to the mutexes when it starts with those of \<open>S\<close> held.\<close>

definition secure :: "mutex set \<Rightarrow> accesses \<Rightarrow> bool" where
  "secure S as \<longleftrightarrow> (\<forall>h bs. S \<subseteq> set h \<longrightarrow>
     guarded member_mutex trace_member h (as @ bs) = guarded member_mutex trace_member h bs)"

named_theorems secure_intros \<open>how sequences that keep to the mutexes are built\<close>

lemma secure_Nil [secure_intros]: "secure S []"
  by (simp add: secure_def)

lemma secure_append [secure_intros]: "secure S as \<Longrightarrow> secure S bs \<Longrightarrow> secure S (as @ bs)"
  by (simp add: secure_def)

lemma secure_Read [secure_intros]: "member_mutex f \<in> S \<Longrightarrow> secure S as \<Longrightarrow> secure S (Read f # as)"
  by (auto simp: secure_def)

lemma secure_Write [secure_intros]: "member_mutex f \<in> S \<Longrightarrow> secure S as \<Longrightarrow> secure S (Write f # as)"
  by (auto simp: secure_def)

lemma secure_TraceRead [secure_intros]: "trace_member f \<Longrightarrow> secure S as \<Longrightarrow> secure S (TraceRead f # as)"
  by (simp add: secure_def)

lemma secure_Pause [secure_intros]: "secure S as \<Longrightarrow> secure S (Pause # as)"
  by (simp add: secure_def)

lemma secure_concat [secure_intros]: "(\<And>x. x \<in> set xs \<Longrightarrow> secure S (f x)) \<Longrightarrow> secure S (concat (map f xs))"
  by (induction xs) (auto intro: secure_intros)

lemma secure_replicate [secure_intros]: "secure S as \<Longrightarrow> secure S (concat (replicate k as))"
  by (induction k) (auto intro: secure_intros)

lemma secure_if [secure_intros]: "(b \<Longrightarrow> secure S as) \<Longrightarrow> (\<not> b \<Longrightarrow> secure S bs) \<Longrightarrow> secure S (if b then as else bs)"
  by simp

lemma secure_critical [secure_intros]:
  assumes "secure (insert m S) as"
  shows "secure S (critical m as)"
  unfolding secure_def
proof (intro allI impI)
  fix h bs assume "S \<subseteq> set h"
  then have "insert m S \<subseteq> set (m # h)" by auto
  then have "guarded member_mutex trace_member (m # h) (as @ Release m # bs) = guarded member_mutex trace_member (m # h) (Release m # bs)"
    using assms unfolding secure_def by blast
  then show "guarded member_mutex trace_member h (critical m as @ bs) = guarded member_mutex trace_member h bs" by (simp add: critical_def)
qed

lemma secure_schedule [secure_intros]:
  "secure S priority_schedule_acc" "secure S (actor_schedule_acc i b)" "secure S (actor_ctor_acc i)"
  "secure S (ctorFinished_acc i b)" "PortEvent i \<in> S \<Longrightarrow> secure S (scheduleOnOwner_acc i a b)"
  unfolding priority_schedule_acc_def actor_schedule_acc_def actor_ctor_acc_def ctorFinished_acc_def scheduleOnOwner_acc_def
  by (auto intro!: secure_intros)

lemma secure_port [secure_intros]:
  "secure S (port_schedule_acc i a b)" "secure S (port_command_acc i a b)" "secure S (port_short_acc i k)"
  "secure S network_listen_acc" "secure S (network_publish_acc ps)"
  unfolding port_schedule_acc_def port_command_acc_def port_short_acc_def network_listen_acc_def network_publish_acc_def
  by (cases k; auto intro!: secure_intros)+

lemma secure_callback [secure_intros]: "secure S (callback_acc ops)"
  unfolding callback_acc_def
proof (intro secure_concat)
  fix op
  show "secure S (callback_access_acc op)" by (cases op) (auto intro!: secure_intros)
qed

lemma secure_consume [secure_intros]:
  "secure S (command_acc i new)" "secure S (event_acc i ops)" "secure S (processCommands_acc i cs)"
  unfolding command_acc_def event_acc_def processCommands_acc_def by (auto intro!: secure_intros)

lemma secure_port_consume [secure_intros]: "secure S (port_consume_acc i rounds cs a b)"
  unfolding port_consume_acc_def by (auto intro!: secure_intros)

lemma secure_thread: "secure {} (thread_acc ops)"
  unfolding thread_acc_def
proof (intro secure_concat)
  fix op
  show "secure {} (thread_access_acc op)"
    by (cases op) (auto simp: actor_consume_acc_def priority_stop_acc_def notify_acc_def intro!: secure_intros split: option.split prod.split)
qed

definition access_program :: "accesses \<Rightarrow> bool" where
  "access_program as \<longleftrightarrow> (\<exists>ops. as = thread_acc ops)"

interpretation members: guarded_members member_mutex trace_member access_program
proof
  fix as assume "access_program as"
  then have "secure {} as" by (auto simp: access_program_def secure_thread)
  then have "guarded member_mutex trace_member [] (as @ []) = guarded member_mutex trace_member [] []"
    unfolding secure_def by (metis empty_subsetI)
  then show "guarded member_mutex trace_member [] as" by simp
qed

section \<open>Properties\<close>

text \<open>
  C23: the only data races are those of one trace: any number of threads, each with any sequence of the program's
  operations and any outcome of their tests, executed in any interleaving, come to a state in which two of them are
  about to access the same member and one of them writes it only if the other is at the head of
  \<^verbatim>\<open>Port::consume\<close>, where the trace reads the size of the event queue or of the command queue of
  the port; and their lock operations are those of \<^verbatim>\<open>Lock_Order\<close>.
\<close>

theorem races_only_at_trace:
  assumes "mem_run is (map (\<lambda>ops. ([], thread_acc ops)) threads) = Some ts"
  shows "(race a b ts \<longrightarrow> (\<exists>p. \<exists>f \<in> {PortEventQueue p, PortCommandsQueue p}.
      a = TraceRead f \<and> b = Write f \<or> a = Write f \<and> b = TraceRead f)) \<and>
    map (\<lambda>ops. lock_ops (thread_acc ops)) threads = map (\<lambda>ops. thread_locks (map thread_op_of ops)) threads"
proof -
  have p: "\<forall>as \<in> set (map thread_acc threads). access_program as" by (auto simp: access_program_def)
  have "mem_run is (map (\<lambda>as. ([], as)) (map thread_acc threads)) = Some ts"
    using assms by (simp add: comp_def)
  note r = members.runs_race_free [OF p this]
  have "\<exists>p. f \<in> {PortEventQueue p, PortCommandsQueue p}" if "trace_member f" for f using that by (cases f) simp_all
  with r show ?thesis by (simp add: thread_acc_locks) blast
qed

text \<open>One thread publishes while a dispatcher begins to consume.\<close>

definition demo_accesses :: "thread_access list list" where
  "demo_accesses = [[AcCallbackOps [AcPublish [(0, True, True)]]], [AcDispatcherRuns 0 [([], [], False, False)]]]"

lemma demo_race:
  "\<exists>ts. mem_run ([0, 0, 0] @ replicate 11 1) (map (\<lambda>ops. ([], thread_acc ops)) demo_accesses) = Some ts \<and>
     race (Write (PortEventQueue 0)) (TraceRead (PortEventQueue 0)) ts"
  by (simp add: demo_accesses_def mem_step_def thread_acc_def callback_acc_def network_publish_acc_def port_schedule_acc_def
      critical_def actor_consume_acc_def port_consume_acc_def race_def conflict_def Ex_less_Suc numeral_eq_Suc)

lemma races_only_at_trace_witness:
  "\<exists>ts. mem_run ([0, 0, 0] @ replicate 11 1) (map (\<lambda>ops. ([], thread_acc ops)) demo_accesses) = Some ts \<and>
     race (Write (PortEventQueue 0)) (TraceRead (PortEventQueue 0)) ts \<and>
     \<not> race (Write (PortEventQueue 0)) (Write (PortEventQueue 0)) ts"
proof -
  obtain ts where ts: "mem_run ([0, 0, 0] @ replicate 11 1) (map (\<lambda>ops. ([], thread_acc ops)) demo_accesses) = Some ts"
    "race (Write (PortEventQueue 0)) (TraceRead (PortEventQueue 0)) ts" using demo_race by blast
  have "\<not> race (Write (PortEventQueue 0)) (Write (PortEventQueue 0)) ts"
    using races_only_at_trace [OF ts(1), of "Write (PortEventQueue 0)" "Write (PortEventQueue 0)"] by auto
  with ts show ?thesis by blast
qed

text \<open>So the race does happen: a dispatcher reads the queue of a port while another thread posts to it.\<close>

lemma consume_trace_races:
  "\<exists>threads is ts. mem_run is (map (\<lambda>ops. ([], thread_acc ops)) threads) = Some ts \<and>
     race (Write (PortEventQueue 0)) (TraceRead (PortEventQueue 0)) ts"
  using demo_race by blast

end
