(* ===== verification/Core_Messages.thy ===== *)
theory Core_Messages
  imports Core_Prelude
begin

text \<open>
  The message types of the core, \<^verbatim>\<open>rapi_core/include/core/message.hpp\<close>, the
  private ones of \<^verbatim>\<open>actor.hpp\<close> and the type ids of
  \<^verbatim>\<open>adstutil_cxx/type_id.hpp\<close>.

  A C++ message type is a value of \<open>msg_type\<close>: the class templates take the actor type
  \<open>'a\<close> they are instantiated with, \<open>User\<close> stands for the types of the application. The type
  id of a type is the type itself, and \<open>None\<close> for \<^verbatim>\<open>void\<close>: the id holds the
  address of an instantiation of a function template, which is unique per type, and nothing but equality
  (and an arbitrary order) of ids is observed. The messages of the core carry no data.
\<close>

datatype ('a, 'u) msg_type =
    Stop
  | StartReq 'a | StartCnf 'a | StopReq 'a | StopCnf 'a
  | PrivStartCnf 'a | PrivStopCnf 'a
  | User 'u

text \<open>The base classes by which \<^verbatim>\<open>Actor\<close> recognises messages at compile time.\<close>

fun is_ReqHelper :: "('a, 'u) msg_type \<Rightarrow> bool" where
  "is_ReqHelper (StartReq a) = True"
| "is_ReqHelper (StopReq a) = True"
| "is_ReqHelper m = False"

fun is_StartCnfHelper :: "('a, 'u) msg_type \<Rightarrow> bool" where
  "is_StartCnfHelper (StartCnf a) = True"
| "is_StartCnfHelper m = False"

fun is_StopCnfHelper :: "('a, 'u) msg_type \<Rightarrow> bool" where
  "is_StopCnfHelper (StopCnf a) = True"
| "is_StopCnfHelper m = False"

fun is_PrivStartHelper :: "('a, 'u) msg_type \<Rightarrow> bool" where
  "is_PrivStartHelper (PrivStartCnf a) = True"
| "is_PrivStartHelper m = False"

fun is_PrivStopHelper :: "('a, 'u) msg_type \<Rightarrow> bool" where
  "is_PrivStopHelper (PrivStopCnf a) = True"
| "is_PrivStopHelper m = False"

text \<open>The \<^verbatim>\<open>NAME\<close> members, given those of the actors and of the application's messages.\<close>

fun getTypeName :: "('a \<Rightarrow> string) \<Rightarrow> ('u \<Rightarrow> string) \<Rightarrow> ('a, 'u) msg_type \<Rightarrow> string" where
  "getTypeName an un Stop = ''Stop''"
| "getTypeName an un (StartReq a) = ''StartReq<'' @ an a @ ''>''"
| "getTypeName an un (StartCnf a) = ''StartCnf<'' @ an a @ ''>''"
| "getTypeName an un (StopReq a) = ''StopReq<'' @ an a @ ''>''"
| "getTypeName an un (StopCnf a) = ''StopCnf<'' @ an a @ ''>''"
| "getTypeName an un (PrivStartCnf a) = ''PrivStartCnf<'' @ an a @ ''>''"
| "getTypeName an un (PrivStopCnf a) = ''PrivStopCnf<'' @ an a @ ''>''"
| "getTypeName an un (User u) = un u"

type_synonym ('a, 'u) type_id = "('a, 'u) msg_type option"

definition type_id :: "('a, 'u) msg_type \<Rightarrow> ('a, 'u) type_id" where
  "type_id m = Some m"

definition type_id_void :: "('a, 'u) type_id" where
  "type_id_void = None"

lemma type_id_inject [simp]: "type_id m = type_id m' \<longleftrightarrow> m = m'" "type_id m \<noteq> type_id_void"
  by (simp_all add: type_id_def type_id_void_def)

end
