(* ===== verification/Actor_Object.thy ===== *)
theory Actor_Object
  imports Core_Errors Core_Messages Callback_Store
begin

text \<open>
  The actor itself, \<^verbatim>\<open>rapi_core/include/core/actor.hpp\<close> and
  \<^verbatim>\<open>core/impl/actor_life_cycle.hpp\<close>: publishing, listening, children and the
  handlers of the life cycle messages.

  All of this runs in the context of the actor itself, one callback at a time
  (\<^verbatim>\<open>Actor_Queue_Properties\<close>), so the operations are functions on the actor. What
  they do to the port and the network is returned as a list of effects, in order. The closures of the
  source are data: \<open>UserCb\<close> is a callback of the application, whose code is a script of calls to
  this interface given by the parameter \<open>user\<close>; the others are the lambdas of the core.
\<close>

section \<open>State\<close>

datatype actor_state = INIT | CTOR_FINISHED | STARTED | A_STOPPED

datatype 'cb callback =
    UserCb 'cb
  | OnStartReq | OnStopReq               \<comment> \<open>\<open>ActorLifeCycle\<close> constructor\<close>
  | OnChildStartCnf | OnChildStopCnf     \<comment> \<open>\<open>newChild\<close>\<close>
  | CoreOnStop | CoreOnStopCnf           \<comment> \<open>\<open>Core::init\<close>\<close>

datatype ('a, 'u, 'cb) effect =
    NetPublish "('a, 'u) msg_type"
  | PortListen "('a, 'u) msg_type" handle "'cb callback"
  | PortUnlisten "('a, 'u) msg_type" handle
  | CoreStopped                          \<comment> \<open>\<open>running_ = false\<close> and \<open>stopEvent_.notify_one()\<close>\<close>

datatype ('a, 'u, 'cb) delayed = DelayedListen "('a, 'u) msg_type" handle 'cb

record ('a, 'u, 'cb) actor =
  actor_name :: string
  actor_type :: 'a
  astate :: actor_state
  portHandleCounter :: handle
  childHandleCounter :: nat
  children :: "(nat \<times> 'a) list"
  startCnfTypeId :: "('a, 'u) type_id"
  stopCnfTypeId :: "('a, 'u) type_id"
  publicStartCallbackList :: "(handle \<times> 'cb) list"
  publicStopCallbackList :: "(handle \<times> 'cb) list"
  delayedListens :: "('a, 'u, 'cb) delayed list"
  childrenCnfCount :: nat

definition actor_ctor :: "string \<Rightarrow> 'a \<Rightarrow> ('a, 'u, 'cb) actor" where
  "actor_ctor name ty = \<lparr>actor_name = name, actor_type = ty, astate = INIT, portHandleCounter = 0,
     childHandleCounter = 0, children = [], startCnfTypeId = type_id_void,
     stopCnfTypeId = type_id_void, publicStartCallbackList = [], publicStopCallbackList = [],
     delayedListens = [], childrenCnfCount = 0\<rparr>"

definition SetState :: "actor_state \<Rightarrow> ('a, 'u, 'cb) actor \<Rightarrow> ('a, 'u, 'cb) actor" where
  "SetState st s = (if st \<noteq> astate s then s\<lparr>astate := st\<rparr> else s)"

fun actorStateToStr :: "actor_state \<Rightarrow> string" where
  "actorStateToStr INIT = ''INIT''"
| "actorStateToStr CTOR_FINISHED = ''CTOR_FINISHED''"
| "actorStateToStr STARTED = ''STARTED''"
| "actorStateToStr A_STOPPED = ''STOPPED''"

section \<open>Results\<close>

text \<open>
  An operation ends in an error whose callback did not return, in undefined behaviour, or in a new state
  with the effects so far. \<open>NoFuel\<close> is the result of a loop over callbacks that keep adding
  callbacks to the list being iterated, when its fuel is used up.
\<close>

datatype fault = Error error | Undefined | NoFuel

type_synonym ('a, 'u, 'cb) act = "fault + ('a, 'u, 'cb) actor \<times> ('a, 'u, 'cb) effect list"

definition act_then ::
  "('a, 'u, 'cb) act \<Rightarrow> (('a, 'u, 'cb) actor \<Rightarrow> ('a, 'u, 'cb) act) \<Rightarrow> ('a, 'u, 'cb) act" where
  "act_then r f = (case r of
      Inl x \<Rightarrow> Inl x
    | Inr (s, es) \<Rightarrow> (case f s of Inl x \<Rightarrow> Inl x | Inr (s', es') \<Rightarrow> Inr (s', es @ es')))"

fun act_each :: "('b \<Rightarrow> ('a, 'u, 'cb) actor \<Rightarrow> ('a, 'u, 'cb) act) \<Rightarrow> 'b list \<Rightarrow> ('a, 'u, 'cb) actor \<Rightarrow>
    ('a, 'u, 'cb) act" where
  "act_each f [] s = Inr (s, [])"
| "act_each f (x # xs) s = act_then (f x s) (act_each f xs)"

lemma act_then_simps [simp]:
  "act_then (Inl x) f = Inl x"
  "act_then (Inr (s, es)) f = (case f s of Inl x \<Rightarrow> Inl x | Inr (s', es') \<Rightarrow> Inr (s', es @ es'))"
  by (simp_all add: act_then_def)

section \<open>What the implementation decides\<close>

text \<open>
  What the C++ implementation decides: the printable names of the types, and the order in which it
  iterates over its two hash maps, \<^verbatim>\<open>std::unordered_map\<close>. \<^verbatim>\<open>children_\<close> is one
  (\<^verbatim>\<open>actor.hpp\<close>), and so is each vector of a port's callback table
  (\<^verbatim>\<open>async_call_back_vector.hpp\<close>). The order is a function of the elements as they
  were inserted; \<open>iterates\<close> says what the language promises about it: every element once.
\<close>

record ('a, 'u, 'cb) implementation =
  type_name :: "('a, 'u) msg_type \<Rightarrow> string"
  child_order :: "(nat \<times> 'a) list \<Rightarrow> (nat \<times> 'a) list"
  call_order :: "(handle \<times> 'cb callback) list \<Rightarrow> (handle \<times> 'cb callback) list"

definition iterates :: "('a, 'u, 'cb) implementation \<Rightarrow> bool" where
  "iterates im \<longleftrightarrow> (\<forall>cs. mset (child_order im cs) = mset cs) \<and> (\<forall>v. mset (call_order im v) = mset v)"

lemma iterates_children:
  assumes "iterates im"
  shows "mset (child_order im cs) = mset cs" "child_order im cs = [] \<longleftrightarrow> cs = []"
    "length (child_order im cs) = length cs"
proof -
  show "mset (child_order im cs) = mset cs" using assms by (simp add: iterates_def)
  then show "child_order im cs = [] \<longleftrightarrow> cs = []" "length (child_order im cs) = length cs"
    by (metis mset_zero_iff, metis size_mset)
qed

text \<open>An implementation that iterates from the newest element to the oldest, as libstdc++ often does.\<close>

definition newest_first :: "string \<Rightarrow> ('a, 'u, 'cb) implementation" where
  "newest_first nm = \<lparr>type_name = \<lambda>m. nm, child_order = rev, call_order = rev\<rparr>"

lemma newest_first_iterates [simp]: "iterates (newest_first nm)"
  by (simp add: iterates_def newest_first_def)

section \<open>Publishing\<close>

definition publish_checked :: "('a, 'u) msg_type \<Rightarrow> bool" where
  "publish_checked m \<longleftrightarrow> \<not> is_PrivStartHelper m \<and> \<not> is_PrivStopHelper m \<and> \<not> is_ReqHelper m \<and>
     \<not> is_StopCnfHelper m"

definition err_publish :: "string \<Rightarrow> string \<Rightarrow> actor_state \<Rightarrow> error" where
  "err_publish name ty st =
     mk_error_fmt 5 ''{}.publish<{}>(...) called in '{}' state, publish only allowed in STARTED''
       [name, ty, actorStateToStr st]"


definition actor_publish ::
  "handler \<Rightarrow> ('a, 'u, 'cb) implementation \<Rightarrow> ('a, 'u) msg_type \<Rightarrow> ('a, 'u, 'cb) actor \<Rightarrow> ('a, 'u, 'cb) act" where
  "actor_publish h im m s =
     (let e = err_publish (actor_name s) (type_name im m) (astate s)
      in if publish_checked m \<and> astate s \<noteq> STARTED \<and> \<not> h e then Inl (Error e)
         else Inr (s, [NetPublish m]))"

section \<open>Listening\<close>

text \<open>
  The counter of the port, \<open>port_newHandle\<close>. Its bound, \<open>handle_max\<close>, is left out here: an actor is
  assumed to draw fewer than 2 to the power of 31 handles.
\<close>

definition newCallBackHandle :: "('a, 'u, 'cb) actor \<Rightarrow> handle \<times> ('a, 'u, 'cb) actor" where
  "newCallBackHandle s =
     (let handle = portHandleCounter s + 1 in (handle, s\<lparr>portHandleCounter := handle\<rparr>))"

text \<open>\<^verbatim>\<open>std::map::insert\<close> leaves an existing element alone; the list is kept sorted by handle.\<close>

definition public_insert :: "handle \<Rightarrow> 'cb \<Rightarrow> (handle \<times> 'cb) list \<Rightarrow> (handle \<times> 'cb) list" where
  "public_insert h cb xs =
     (if map_of xs h \<noteq> None then xs
      else takeWhile (\<lambda>x. fst x < h) xs @ (h, cb) # dropWhile (\<lambda>x. fst x < h) xs)"

definition special_listen ::
  "('a, 'u) msg_type \<Rightarrow> handle \<Rightarrow> 'cb \<Rightarrow> ('a, 'u, 'cb) actor \<Rightarrow>
     ('a, 'u, 'cb) actor \<times> ('a, 'u, 'cb) effect list" where
  "special_listen m h cb s =
     (if is_StartCnfHelper m \<and> type_id m = startCnfTypeId s
      then (s\<lparr>publicStartCallbackList := public_insert h cb (publicStartCallbackList s)\<rparr>, [])
      else if is_StopCnfHelper m \<and> type_id m = stopCnfTypeId s
      then (s\<lparr>publicStopCallbackList := public_insert h cb (publicStopCallbackList s)\<rparr>, [])
      else (s, [PortListen m h (UserCb cb)]))"

definition actor_listen ::
  "('a, 'u) msg_type \<Rightarrow> handle \<Rightarrow> 'cb \<Rightarrow> ('a, 'u, 'cb) actor \<Rightarrow>
     ('a, 'u, 'cb) actor \<times> ('a, 'u, 'cb) effect list" where
  "actor_listen m h cb s =
     (if is_StartCnfHelper m \<or> is_StopCnfHelper m
      then (if astate s = INIT
            then (s\<lparr>delayedListens := delayedListens s @ [DelayedListen m h cb]\<rparr>, [])
            else special_listen m h cb s)
      else (s, [PortListen m h (UserCb cb)]))"

definition actor_listen_new ::
  "('a, 'u) msg_type \<Rightarrow> 'cb \<Rightarrow> ('a, 'u, 'cb) actor \<Rightarrow>
     handle \<times> ('a, 'u, 'cb) actor \<times> ('a, 'u, 'cb) effect list" where
  "actor_listen_new m cb s = (case newCallBackHandle s of (h, s') \<Rightarrow> (h, actor_listen m h cb s'))"

text \<open>The listens of the core itself: never for a confirmation, always with a new handle.\<close>

definition core_listen ::
  "('a, 'u) msg_type \<Rightarrow> 'cb callback \<Rightarrow> ('a, 'u, 'cb) actor \<Rightarrow>
     ('a, 'u, 'cb) actor \<times> ('a, 'u, 'cb) effect list" where
  "core_listen m cb s = (case newCallBackHandle s of (h, s') \<Rightarrow> (s', [PortListen m h cb]))"

definition actor_unlisten ::
  "('a, 'u) msg_type \<Rightarrow> handle \<Rightarrow> ('a, 'u, 'cb) actor \<Rightarrow>
     ('a, 'u, 'cb) actor \<times> ('a, 'u, 'cb) effect list" where
  "actor_unlisten m h s =
     (if is_StartCnfHelper m \<and> type_id m = startCnfTypeId s
      then (s\<lparr>publicStartCallbackList := AList.delete h (publicStartCallbackList s)\<rparr>, [])
      else if is_StopCnfHelper m \<and> type_id m = stopCnfTypeId s
      then (s\<lparr>publicStopCallbackList := AList.delete h (publicStopCallbackList s)\<rparr>, [])
      else (s, [PortUnlisten m h]))"

section \<open>Children\<close>

text \<open>The part of \<^verbatim>\<open>newChild\<close> that concerns the parent; the child is a new actor of type \<open>c\<close>.\<close>

definition newChild ::
  "'a \<Rightarrow> ('a, 'u, 'cb) actor \<Rightarrow> nat \<times> ('a, 'u, 'cb) actor \<times> ('a, 'u, 'cb) effect list" where
  "newChild c s =
     (let handle = childHandleCounter s + 1;
          s1 = s\<lparr>childHandleCounter := handle, children := children s @ [(handle, c)]\<rparr>;
          (s2, e2) = core_listen (PrivStartCnf c) OnChildStartCnf s1;
          (s3, e3) = core_listen (PrivStopCnf c) OnChildStopCnf s2
      in (handle, s3, e2 @ e3))"

definition err_child :: error where
  "err_child = mk_error 5 ''child handle not found''"

text \<open>After a callback that returns, the end iterator is dereferenced.\<close>

definition getChild :: "handler \<Rightarrow> nat \<Rightarrow> ('a, 'u, 'cb) actor \<Rightarrow> fault + 'a" where
  "getChild h handle s =
     (case map_of (children s) handle of
        None \<Rightarrow> if h err_child then Inl Undefined else Inl (Error err_child)
      | Some c \<Rightarrow> Inr c)"

section \<open>The life cycle constructor\<close>

fun run_delayed ::
  "('a, 'u, 'cb) delayed list \<Rightarrow> ('a, 'u, 'cb) actor \<Rightarrow> ('a, 'u, 'cb) actor \<times> ('a, 'u, 'cb) effect list" where
  "run_delayed [] s = (s, [])"
| "run_delayed (DelayedListen m h cb # ds) s =
     (let (s1, e1) = special_listen m h cb s; (s2, e2) = run_delayed ds s1 in (s2, e1 @ e2))"

definition life_cycle_ctor ::
  "('a, 'u, 'cb) actor \<Rightarrow> ('a, 'u, 'cb) actor \<times> ('a, 'u, 'cb) effect list" where
  "life_cycle_ctor s =
     (let s1 = s\<lparr>startCnfTypeId := type_id (StartCnf (actor_type s)),
                 stopCnfTypeId := type_id (StopCnf (actor_type s))\<rparr>;
          s2 = SetState CTOR_FINISHED s1;
          (s3, e3) = run_delayed (delayedListens s2) s2;
          s4 = s3\<lparr>delayedListens := []\<rparr>;
          (s5, e5) = core_listen (StartReq (actor_type s)) OnStartReq s4;
          (s6, e6) = core_listen (StopReq (actor_type s)) OnStopReq s5
      in (s6, e3 @ e5 @ e6))"

section \<open>Callbacks of the application\<close>

datatype ('a, 'u, 'cb) user_op =
    UPublish "('a, 'u) msg_type"
  | UListen "('a, 'u) msg_type" handle 'cb
  | UUnlisten "('a, 'u) msg_type" handle

fun exec_user_op ::
  "handler \<Rightarrow> ('a, 'u, 'cb) implementation \<Rightarrow> ('a, 'u, 'cb) user_op \<Rightarrow> ('a, 'u, 'cb) actor \<Rightarrow> ('a, 'u, 'cb) act" where
  "exec_user_op h im (UPublish m) s = actor_publish h im m s"
| "exec_user_op h im (UListen m k cb) s = Inr (actor_listen m k cb s)"
| "exec_user_op h im (UUnlisten m k) s = Inr (actor_unlisten m k s)"

type_synonym ('a, 'u, 'cb) user = "'cb \<Rightarrow> ('a, 'u, 'cb) user_op list"

definition run_user ::
  "handler \<Rightarrow> ('a, 'u, 'cb) implementation \<Rightarrow> ('a, 'u, 'cb) user \<Rightarrow> 'cb \<Rightarrow> ('a, 'u, 'cb) actor \<Rightarrow> ('a, 'u, 'cb) act" where
  "run_user h im user cb = act_each (exec_user_op h im) (user cb)"

text \<open>
  The loop over a public callback list, \<^verbatim>\<open>for (auto const& it : list) it.second()\<close>:
  elements inserted behind the current one are visited too, and a callback that erases its own element
  (an unlisten of the actor's own confirmation with its own handle) leaves the loop with an invalid
  iterator.
\<close>

definition next_public :: "handle option \<Rightarrow> (handle \<times> 'cb) list \<Rightarrow> (handle \<times> 'cb) option" where
  "next_public prev xs = find (\<lambda>x. case prev of None \<Rightarrow> True | Some k \<Rightarrow> k < fst x) xs"

fun call_public ::
  "nat \<Rightarrow> handler \<Rightarrow> ('a, 'u, 'cb) implementation \<Rightarrow> ('a, 'u, 'cb) user \<Rightarrow> ('a, 'u) msg_type \<Rightarrow>
     (('a, 'u, 'cb) actor \<Rightarrow> (handle \<times> 'cb) list) \<Rightarrow> handle option \<Rightarrow> ('a, 'u, 'cb) actor \<Rightarrow>
     ('a, 'u, 'cb) act" where
  "call_public 0 h im user m sel prev s =
     (case next_public prev (sel s) of None \<Rightarrow> Inr (s, []) | Some x \<Rightarrow> Inl NoFuel)"
| "call_public (Suc n) h im user m sel prev s =
     (case next_public prev (sel s) of
        None \<Rightarrow> Inr (s, [])
      | Some (k, cb) \<Rightarrow>
          if UUnlisten m k \<in> set (user cb) then Inl Undefined
          else act_then (run_user h im user cb s) (call_public n h im user m sel (Some k)))"

definition call_start_callbacks ::
  "nat \<Rightarrow> handler \<Rightarrow> ('a, 'u, 'cb) implementation \<Rightarrow> ('a, 'u, 'cb) user \<Rightarrow> ('a, 'u, 'cb) actor \<Rightarrow> ('a, 'u, 'cb) act" where
  "call_start_callbacks n h im user s =
     call_public n h im user (StartCnf (actor_type s)) publicStartCallbackList None s"

definition call_stop_callbacks ::
  "nat \<Rightarrow> handler \<Rightarrow> ('a, 'u, 'cb) implementation \<Rightarrow> ('a, 'u, 'cb) user \<Rightarrow> ('a, 'u, 'cb) actor \<Rightarrow> ('a, 'u, 'cb) act" where
  "call_stop_callbacks n h im user s =
     call_public n h im user (StopCnf (actor_type s)) publicStopCallbackList None s"

section \<open>The life cycle handlers\<close>

definition publishStartCnf ::
  "handler \<Rightarrow> ('a, 'u, 'cb) implementation \<Rightarrow> ('a, 'u, 'cb) actor \<Rightarrow> ('a, 'u, 'cb) act" where
  "publishStartCnf h im s =
     act_each (actor_publish h im) [StartCnf (actor_type s), PrivStartCnf (actor_type s)] s"

definition publishStopCnf ::
  "handler \<Rightarrow> ('a, 'u, 'cb) implementation \<Rightarrow> ('a, 'u, 'cb) actor \<Rightarrow> ('a, 'u, 'cb) act" where
  "publishStopCnf h im s =
     act_each (actor_publish h im) [StopCnf (actor_type s), PrivStopCnf (actor_type s)] s"

definition on_StartReq ::
  "nat \<Rightarrow> handler \<Rightarrow> ('a, 'u, 'cb) implementation \<Rightarrow> ('a, 'u, 'cb) user \<Rightarrow> ('a, 'u, 'cb) actor \<Rightarrow> ('a, 'u, 'cb) act" where
  "on_StartReq n h im user s =
     act_then (act_each (\<lambda>c. actor_publish h im (StartReq (snd c))) (child_order im (children s)) s)
       (\<lambda>s1. if children s1 = []
             then act_then (call_start_callbacks n h im user (SetState STARTED s1)) (publishStartCnf h im)
             else Inr (s1, []))"

definition on_StopReq ::
  "nat \<Rightarrow> handler \<Rightarrow> ('a, 'u, 'cb) implementation \<Rightarrow> ('a, 'u, 'cb) user \<Rightarrow> ('a, 'u, 'cb) actor \<Rightarrow> ('a, 'u, 'cb) act" where
  "on_StopReq n h im user s =
     act_then (act_each (\<lambda>c. actor_publish h im (StopReq (snd c))) (child_order im (children s)) s)
       (\<lambda>s1. if children s1 = []
             then act_then (call_stop_callbacks n h im user s1)
                    (\<lambda>s2. publishStopCnf h im (SetState A_STOPPED s2))
             else Inr (s1, []))"

definition on_PrivStartCnf ::
  "nat \<Rightarrow> handler \<Rightarrow> ('a, 'u, 'cb) implementation \<Rightarrow> ('a, 'u, 'cb) user \<Rightarrow> ('a, 'u, 'cb) actor \<Rightarrow> ('a, 'u, 'cb) act" where
  "on_PrivStartCnf n h im user s =
     (let s1 = s\<lparr>childrenCnfCount := childrenCnfCount s + 1\<rparr>
      in if childrenCnfCount s1 = length (children s1)
         then act_then (call_start_callbacks n h im user (SetState STARTED (s1\<lparr>childrenCnfCount := 0\<rparr>)))
                (publishStartCnf h im)
         else Inr (s1, []))"

definition on_PrivStopCnf ::
  "nat \<Rightarrow> handler \<Rightarrow> ('a, 'u, 'cb) implementation \<Rightarrow> ('a, 'u, 'cb) user \<Rightarrow> ('a, 'u, 'cb) actor \<Rightarrow> ('a, 'u, 'cb) act" where
  "on_PrivStopCnf n h im user s =
     (let s1 = s\<lparr>childrenCnfCount := childrenCnfCount s + 1\<rparr>
      in if childrenCnfCount s1 = length (children s1)
         then act_then (call_stop_callbacks n h im user (SetState A_STOPPED (s1\<lparr>childrenCnfCount := 0\<rparr>)))
                (publishStopCnf h im)
         else Inr (s1, []))"

text \<open>The listens of \<^verbatim>\<open>Core::init\<close> on the root actor, and every callback's meaning.\<close>

definition core_init_listens ::
  "('a, 'u, 'cb) actor \<Rightarrow> ('a, 'u, 'cb) actor \<times> ('a, 'u, 'cb) effect list" where
  "core_init_listens s =
     (let (s1, e1) = core_listen Stop CoreOnStop s;
          (s2, e2) = core_listen (PrivStopCnf (actor_type s)) CoreOnStopCnf s1
      in (s2, e1 @ e2))"

fun run_callback ::
  "nat \<Rightarrow> handler \<Rightarrow> ('a, 'u, 'cb) implementation \<Rightarrow> ('a, 'u, 'cb) user \<Rightarrow> 'cb callback \<Rightarrow> ('a, 'u, 'cb) actor \<Rightarrow>
     ('a, 'u, 'cb) act" where
  "run_callback n h im user (UserCb cb) s = run_user h im user cb s"
| "run_callback n h im user OnStartReq s = on_StartReq n h im user s"
| "run_callback n h im user OnStopReq s = on_StopReq n h im user s"
| "run_callback n h im user OnChildStartCnf s = on_PrivStartCnf n h im user s"
| "run_callback n h im user OnChildStopCnf s = on_PrivStopCnf n h im user s"
| "run_callback n h im user CoreOnStop s = Inr (s, [NetPublish (StopReq (actor_type s))])"
| "run_callback n h im user CoreOnStopCnf s = Inr (s, [CoreStopped])"

end
