(* ===== verification/Actor_Object_Properties.thy ===== *)
theory Actor_Object_Properties
  imports Actor_Object
begin

text \<open>
  Properties of the actor's operations and handlers, for arbitrary error callbacks and scripts of the
  application.
\<close>

section \<open>Publishing\<close>

lemma publish_checked_iff: "publish_checked m \<longleftrightarrow> m = Stop \<or> (\<exists>a. m = StartCnf a) \<or> (\<exists>u. m = User u)"
  by (cases m) (simp_all add: publish_checked_def)

section \<open>Listening in the constructor\<close>

text \<open>The lists of public callbacks are kept sorted by handle.\<close>

lemma map_of_insert_middle:
  assumes "h \<notin> fst ` set t"
  shows "map_of (t @ (h, cb) # d) k = (if k = h then Some cb else map_of (t @ d) k)"
proof (cases "k = h")
  case True
  then have "map_of t k = None" using assms by (simp add: map_of_eq_None_iff)
  with True show ?thesis by (simp add: map_add_def)
qed (simp add: map_add_def split: option.split)

lemma public_insert_lookup:
  "map_of (public_insert h cb xs) k = (if map_of xs h = None \<and> k = h then Some cb else map_of xs k)"
proof (cases "map_of xs h")
  case None
  have "h \<notin> fst ` set (takeWhile (\<lambda>x. fst x < h) xs)" by (auto dest: set_takeWhileD)
  with None show ?thesis unfolding public_insert_def by (simp add: map_of_insert_middle del: map_of_append)
qed (simp add: public_insert_def)

lemma public_insert_sorted:
  assumes "sorted (map fst xs)" and "distinct (map fst xs)"
  shows "sorted (map fst (public_insert h cb xs)) \<and> distinct (map fst (public_insert h cb xs))"
proof (cases "map_of xs h")
  case None
  then have h: "h \<notin> set (map fst xs)" by (simp add: map_of_eq_None_iff)
  have "map fst (public_insert h cb xs) = takeWhile (\<lambda>x. x < h) (map fst xs) @ h # dropWhile (\<lambda>x. x < h) (map fst xs)"
    using None by (simp add: public_insert_def takeWhile_map dropWhile_map comp_def)
  moreover have "sorted (takeWhile (\<lambda>x. x < h) ys @ h # dropWhile (\<lambda>x. x < h) ys)"
    "distinct (takeWhile (\<lambda>x. x < h) ys @ h # dropWhile (\<lambda>x. x < h) ys)"
    if "sorted ys" "distinct ys" "h \<notin> set ys" for ys :: "handle list"
    using that by (induction ys) (auto dest: set_takeWhileD set_dropWhileD)
  ultimately show ?thesis using assms h by simp
qed (use assms in \<open>simp add: public_insert_def\<close>)

lemma run_delayed_Cons:
  "fst (run_delayed (DelayedListen m h cb # ds) s) = fst (run_delayed ds (fst (special_listen m h cb s)))"
  "snd (run_delayed (DelayedListen m h cb # ds) s) =
     snd (special_listen m h cb s) @ snd (run_delayed ds (fst (special_listen m h cb s)))"
  by (simp_all split: prod.split)

lemma special_listen_frame [simp]:
  "astate (fst (special_listen m h cb s)) = astate s"
  "actor_type (fst (special_listen m h cb s)) = actor_type s"
  "startCnfTypeId (fst (special_listen m h cb s)) = startCnfTypeId s"
  "stopCnfTypeId (fst (special_listen m h cb s)) = stopCnfTypeId s"
  by (simp_all add: special_listen_def)

lemma run_delayed_frame:
  "astate (fst (run_delayed ds s)) = astate s \<and> actor_type (fst (run_delayed ds s)) = actor_type s"
proof (induction ds arbitrary: s)
  case (Cons d ds)
  then show ?case by (cases d) (simp add: run_delayed_Cons del: run_delayed.simps)
qed simp

fun delayed_type :: "('a, 'u, 'cb) delayed \<Rightarrow> ('a, 'u) msg_type" where
  "delayed_type (DelayedListen m h cb) = m"

fun delayed_entry :: "('a, 'u, 'cb) delayed \<Rightarrow> handle \<times> 'cb" where
  "delayed_entry (DelayedListen m h cb) = (h, cb)"

fun delayed_effect :: "('a, 'u, 'cb) delayed \<Rightarrow> ('a, 'u, 'cb) effect" where
  "delayed_effect (DelayedListen m h cb) = PortListen m h (UserCb cb)"

lemma run_delayed_result:
  assumes "startCnfTypeId s = type_id (StartCnf ty)" and "stopCnfTypeId s = type_id (StopCnf ty)"
  shows "map_of (publicStartCallbackList (fst (run_delayed ds s))) k =
      map_of (publicStartCallbackList s @ map delayed_entry (filter (\<lambda>d. delayed_type d = StartCnf ty) ds)) k \<and>
    map_of (publicStopCallbackList (fst (run_delayed ds s))) k =
      map_of (publicStopCallbackList s @ map delayed_entry (filter (\<lambda>d. delayed_type d = StopCnf ty) ds)) k \<and>
    snd (run_delayed ds s) = map delayed_effect
      (filter (\<lambda>d. delayed_type d \<noteq> StartCnf ty \<and> delayed_type d \<noteq> StopCnf ty) ds)"
  using assms
proof (induction ds arbitrary: s)
  case (Cons d ds)
  obtain m h cb where d: "d = DelayedListen m h cb" by (cases d)
  let ?s = "fst (special_listen m h cb s)"
  have ids: "startCnfTypeId ?s = type_id (StartCnf ty)" "stopCnfTypeId ?s = type_id (StopCnf ty)"
    using Cons.prems by simp_all
  show ?case
    using Cons.IH [OF ids] Cons.prems unfolding d run_delayed_Cons
    by (cases m) (auto simp: special_listen_def public_insert_lookup map_add_def split: option.splits)
qed simp

text \<open>
  Lemma: listens for confirmations during construction take effect when construction is finished. The life
  cycle constructor makes of the delayed listens what the same listens do afterwards: those for the
  actor's own StartCnf and StopCnf become public callbacks (for each handle the first one), the others
  are handed to the port in order, followed by the two listens of the life cycle itself.
\<close>

theorem constructor_listens_take_effect:
  assumes "s = actor_ctor name ty\<lparr>delayedListens := ds, portHandleCounter := c\<rparr>"
    and "life_cycle_ctor s = (s', es)"
  shows "astate s' = CTOR_FINISHED \<and> delayedListens s' = [] \<and>
    map_of (publicStartCallbackList s') k =
      map_of (map delayed_entry (filter (\<lambda>d. delayed_type d = StartCnf ty) ds)) k \<and>
    map_of (publicStopCallbackList s') k =
      map_of (map delayed_entry (filter (\<lambda>d. delayed_type d = StopCnf ty) ds)) k \<and>
    es = map delayed_effect (filter (\<lambda>d. delayed_type d \<noteq> StartCnf ty \<and> delayed_type d \<noteq> StopCnf ty) ds) @
      [PortListen (StartReq ty) (portHandleCounter s' - 1) OnStartReq,
       PortListen (StopReq ty) (portHandleCounter s') OnStopReq]"
proof -
  let ?s = "s\<lparr>startCnfTypeId := type_id (StartCnf ty), stopCnfTypeId := type_id (StopCnf ty),
    astate := CTOR_FINISHED\<rparr>"
  obtain t e where t: "run_delayed ds ?s = (t, e)" by (cases "run_delayed ds ?s")
  have "s' = t\<lparr>delayedListens := [], portHandleCounter := portHandleCounter t + 2\<rparr>"
    and "es = e @ [PortListen (StartReq ty) (portHandleCounter t + 1) OnStartReq,
      PortListen (StopReq ty) (portHandleCounter t + 2) OnStopReq]"
    using assms t run_delayed_frame [of ds ?s]
    by (auto simp: life_cycle_ctor_def SetState_def actor_ctor_def core_listen_def newCallBackHandle_def Let_def)
  then show ?thesis
    using run_delayed_result [of ?s ty ds k] run_delayed_frame [of ds ?s] t assms(1)
    by (simp add: actor_ctor_def)
qed

definition demo_ctor :: "(nat, nat, nat) actor" where
  "demo_ctor = actor_ctor ''A'' 4\<lparr>delayedListens :=
     [DelayedListen (StartCnf 4) 1 70, DelayedListen (StartCnf 5) 2 71], portHandleCounter := 2\<rparr>"

lemma constructor_listens_take_effect_witness:
  "map_of (publicStartCallbackList (fst (life_cycle_ctor demo_ctor))) 1 = Some 70 \<and>
   snd (life_cycle_ctor demo_ctor) = [PortListen (StartCnf 5) 2 (UserCb 71),
     PortListen (StartReq 4) 3 OnStartReq, PortListen (StopReq 4) 4 OnStopReq]"
proof -
  obtain s' es where l: "life_cycle_ctor demo_ctor = (s', es)" by (cases "life_cycle_ctor demo_ctor")
  have "portHandleCounter s' = 4"
    using l by (auto simp: demo_ctor_def actor_ctor_def life_cycle_ctor_def SetState_def core_listen_def
        newCallBackHandle_def special_listen_def Let_def)
  then show ?thesis
    using constructor_listens_take_effect [OF demo_ctor_def l, of 1] l by simp
qed

text \<open>
  Lemma: an unlisten during construction is lost. A listen for the actor's own StartCnf followed by an
  unlisten with the same handle, both in the constructor, leaves the callback registered: the type id is
  not known yet, so the unlisten goes to the port, while the listen is only delayed. After construction the
  same two calls remove it.
\<close>

theorem unlisten_in_constructor_is_lost:
  "(let s1 = fst (actor_listen (StartCnf ty) k cb (actor_ctor name ty));
        s2 = fst (actor_unlisten (StartCnf ty) k s1)
    in map_of (publicStartCallbackList (fst (life_cycle_ctor s2))) k = Some cb) \<and>
   (let s1 = fst (actor_listen (StartCnf ty) k cb (fst (life_cycle_ctor (actor_ctor name ty))));
        s2 = fst (actor_unlisten (StartCnf ty) k s1)
    in map_of (publicStartCallbackList s2) k = None)"
  by (simp add: actor_listen_def actor_unlisten_def actor_ctor_def life_cycle_ctor_def SetState_def
      core_listen_def newCallBackHandle_def special_listen_def public_insert_lookup delete_conv' Let_def)

section \<open>Calling the public callbacks\<close>

lemma actor_publish_state: "actor_publish h im m s = Inr (s', es) \<Longrightarrow> s' = s \<and> es = [NetPublish m]"
  by (auto simp: actor_publish_def Let_def split: if_splits)

lemma publish_started: "astate s = STARTED \<Longrightarrow> actor_publish h im m s = Inr (s, [NetPublish m])"
  by (simp add: actor_publish_def)

lemma publish_each_unchecked:
  "\<forall>x \<in> set xs. \<not> publish_checked (f x) \<Longrightarrow>
     act_each (\<lambda>x. actor_publish h im (f x)) xs s = Inr (s, map (\<lambda>x. NetPublish (f x)) xs)"
  by (induction xs) (simp_all add: actor_publish_def)

lemma next_public_split:
  assumes "sorted (map fst (xs @ ys))" and "distinct (map fst (xs @ ys))"
    and "prev = (if xs = [] then None else Some (fst (last xs)))"
  shows "next_public prev (xs @ ys) = (case ys of [] \<Rightarrow> None | y # _ \<Rightarrow> Some y)"
proof (cases "xs = []")
  case True
  then show ?thesis using assms(3) by (cases ys) (simp_all add: next_public_def)
next
  case False
  then obtain zs z where xs: "xs = zs @ [z]" by (metis append_butlast_last_id)
  have le: "\<forall>x \<in> set xs. \<not> fst z < fst x"
    using assms(1) unfolding xs by (auto simp: sorted_append not_less)
  have gt: "ys = y # ys' \<Longrightarrow> fst z < fst y" for y ys'
    using assms(1,2) unfolding xs by (auto simp: sorted_append order.strict_iff_order)
  have "find (\<lambda>x. fst z < fst x) (xs @ ys) = find (\<lambda>x. fst z < fst x) ys"
    using le by (induction xs) auto
  then show ?thesis
    using False assms(3) gt by (cases ys) (auto simp: next_public_def xs)
qed

definition public_ok :: "(handle \<times> 'cb) list \<Rightarrow> bool" where
  "public_ok xs \<longleftrightarrow> sorted (map fst xs) \<and> distinct (map fst xs)"

lemma SetState_simps [simp]:
  "astate (SetState st s) = st" "publicStartCallbackList (SetState st s) = publicStartCallbackList s"
  "publicStopCallbackList (SetState st s) = publicStopCallbackList s"
  "actor_type (SetState st s) = actor_type s" "children (SetState st s) = children s"
  "childrenCnfCount (SetState st s) = childrenCnfCount s" "actor_name (SetState st s) = actor_name s"
  "startCnfTypeId (SetState st s) = startCnfTypeId s" "stopCnfTypeId (SetState st s) = stopCnfTypeId s"
  by (simp_all add: SetState_def)

lemma SetState_eq: "SetState st s = s\<lparr>astate := st\<rparr>"
  by (cases s) (simp add: SetState_def)

subsection \<open>Whatever the callbacks do, the start does not end in an error\<close>

text \<open>In the state STARTED every publish is allowed, and no operation of a callback leaves that state.\<close>

definition runs_started :: "('a, 'u, 'cb) actor \<Rightarrow> ('a, 'u, 'cb) act \<Rightarrow> bool" where
  "runs_started s r \<longleftrightarrow> (\<forall>e. r \<noteq> Inl (Error e)) \<and>
     (\<forall>s' es. r = Inr (s', es) \<longrightarrow> astate s' = STARTED \<and> actor_type s' = actor_type s)"

lemma runs_started_then:
  assumes "runs_started s r" and "\<And>s'. astate s' = STARTED \<Longrightarrow> actor_type s' = actor_type s \<Longrightarrow> runs_started s (f s')"
  shows "runs_started s (act_then r f)"
proof (cases r)
  case (Inl x)
  then show ?thesis using assms(1) by (simp add: runs_started_def)
next
  case (Inr p)
  obtain s' es where p: "p = (s', es)" by (cases p)
  have "astate s' = STARTED" "actor_type s' = actor_type s" using assms(1) Inr p by (simp_all add: runs_started_def)
  then have "runs_started s (f s')" by (rule assms(2))
  then show ?thesis unfolding Inr p by (cases "f s'") (auto simp: runs_started_def)
qed

lemma runs_started_cong: "actor_type s = actor_type t \<Longrightarrow> runs_started s r \<longleftrightarrow> runs_started t r"
  by (simp add: runs_started_def)

lemma op_runs_started: "astate s = STARTED \<Longrightarrow> runs_started s (exec_user_op h im op s)"
  by (cases op) (auto simp: runs_started_def publish_started actor_listen_def actor_unlisten_def special_listen_def
      split: if_splits)

lemma ops_run_started: "astate s = STARTED \<Longrightarrow> runs_started s (act_each (exec_user_op h im) ops s)"
proof (induction ops arbitrary: s)
  case Nil
  then show ?case by (simp add: runs_started_def)
next
  case (Cons op ops)
  have "runs_started s (act_each (exec_user_op h im) ops s')"
    if "astate s' = STARTED" "actor_type s' = actor_type s" for s'
    using Cons.IH [OF that(1)] that(2) by (simp add: runs_started_def)
  then show ?case using runs_started_then [OF op_runs_started [OF Cons.prems]] by simp
qed

lemma public_runs_started: "astate s = STARTED \<Longrightarrow> runs_started s (call_public n h im user m sel prev s)"
proof (induction n arbitrary: s prev)
  case 0
  then show ?case by (auto simp: runs_started_def split: option.splits)
next
  case (Suc n)
  have "runs_started s (call_public n h im user m sel p s')"
    if "astate s' = STARTED" "actor_type s' = actor_type s" for p s'
    using Suc.IH [OF that(1)] that(2) by (simp add: runs_started_def)
  then have "runs_started s (act_then (run_user h im user cb s) (call_public n h im user m sel p))" for cb p
    unfolding run_user_def by (intro runs_started_then [OF ops_run_started [OF Suc.prems]])
  then show ?case using Suc.prems by (simp add: runs_started_def [of _ "Inr _"] runs_started_def [of _ "Inl _"]
        split: option.split)
qed

subsection \<open>What the callbacks do, in their order\<close>

text \<open>
  A callback may publish, and listen and unlisten to anything but the actor's own StartCnf, whose list is
  being iterated. A listen or unlisten for the actor's own StopCnf changes only the list of public stop
  callbacks; any other is handed to the port.
\<close>

fun spares_start_list :: "'a \<Rightarrow> ('a, 'u, 'cb) user_op \<Rightarrow> bool" where
  "spares_start_list ty (UPublish m) \<longleftrightarrow> True"
| "spares_start_list ty (UListen m k cb) \<longleftrightarrow> m \<noteq> StartCnf ty"
| "spares_start_list ty (UUnlisten m k) \<longleftrightarrow> m \<noteq> StartCnf ty"

fun op_effects :: "'a \<Rightarrow> ('a, 'u, 'cb) user_op \<Rightarrow> ('a, 'u, 'cb) effect list" where
  "op_effects ty (UPublish m) = [NetPublish m]"
| "op_effects ty (UListen m k cb) = (if m = StopCnf ty then [] else [PortListen m k (UserCb cb)])"
| "op_effects ty (UUnlisten m k) = (if m = StopCnf ty then [] else [PortUnlisten m k])"

definition script_effects :: "('a, 'u, 'cb) user \<Rightarrow> 'a \<Rightarrow> (handle \<times> 'cb) list \<Rightarrow> ('a, 'u, 'cb) effect list" where
  "script_effects user ty xs = concat (map (\<lambda>x. concat (map (op_effects ty) (user (snd x)))) xs)"

definition knows_own_types :: "('a, 'u, 'cb) actor \<Rightarrow> bool" where
  "knows_own_types s \<longleftrightarrow> startCnfTypeId s = type_id (StartCnf (actor_type s)) \<and>
     stopCnfTypeId s = type_id (StopCnf (actor_type s))"

lemma knows_own_types_stop_list [simp]: "knows_own_types (s\<lparr>publicStopCallbackList := v\<rparr>) \<longleftrightarrow> knows_own_types s"
  by (simp add: knows_own_types_def)

lemma op_exact:
  assumes "astate s = STARTED" and "knows_own_types s" and "spares_start_list (actor_type s) op"
  shows "\<exists>v. exec_user_op h im op s = Inr (s\<lparr>publicStopCallbackList := v\<rparr>, op_effects (actor_type s) op)"
proof -
  have same: "\<exists>v. s = s\<lparr>publicStopCallbackList := v\<rparr>"
    by (rule exI [of _ "publicStopCallbackList s"]) simp
  show ?thesis
  proof (cases op)
    case (UPublish m)
    then show ?thesis using same assms(1) by (simp add: publish_started)
  next
    case (UListen m k cb)
    then show ?thesis using same assms
      by (cases m) (auto simp: actor_listen_def special_listen_def knows_own_types_def)
  next
    case (UUnlisten m k)
    then show ?thesis using same assms
      by (cases m) (auto simp: actor_unlisten_def knows_own_types_def)
  qed
qed

lemma ops_exact:
  assumes "astate s = STARTED" and "knows_own_types s" and "\<forall>op \<in> set ops. spares_start_list (actor_type s) op"
  shows "\<exists>v. act_each (exec_user_op h im) ops s =
    Inr (s\<lparr>publicStopCallbackList := v\<rparr>, concat (map (op_effects (actor_type s)) ops))"
  using assms
proof (induction ops arbitrary: s)
  case Nil
  show ?case by (rule exI [of _ "publicStopCallbackList s"]) simp
next
  case (Cons op ops)
  obtain v where v: "exec_user_op h im op s = Inr (s\<lparr>publicStopCallbackList := v\<rparr>, op_effects (actor_type s) op)"
    using op_exact [of s op h im] Cons.prems by auto
  obtain w where "act_each (exec_user_op h im) ops (s\<lparr>publicStopCallbackList := v\<rparr>) =
      Inr (s\<lparr>publicStopCallbackList := w\<rparr>, concat (map (op_effects (actor_type s)) ops))"
    using Cons.IH [of "s\<lparr>publicStopCallbackList := v\<rparr>"] Cons.prems by auto
  with v show ?case by (intro exI [of _ w]) simp
qed

lemma public_exact:
  assumes "\<forall>cb. \<forall>op \<in> set (user cb). spares_start_list (actor_type s) op"
  shows "publicStartCallbackList s = xs @ ys \<Longrightarrow> public_ok (xs @ ys) \<Longrightarrow> astate s = STARTED \<Longrightarrow> knows_own_types s \<Longrightarrow>
    prev = (if xs = [] then None else Some (fst (last xs))) \<Longrightarrow> length ys \<le> n \<Longrightarrow>
    \<exists>v. call_public n h im user (StartCnf (actor_type s)) publicStartCallbackList prev s =
      Inr (s\<lparr>publicStopCallbackList := v\<rparr>, script_effects user (actor_type s) ys)"
  using assms
proof (induction ys arbitrary: xs n prev s)
  case Nil
  have "next_public prev (publicStartCallbackList s) = None"
    using next_public_split [of xs "[]" prev] Nil.prems(1,2,5) by (simp add: public_ok_def)
  then show ?case
    by (intro exI [of _ "publicStopCallbackList s"]) (cases n; simp add: script_effects_def)
next
  case (Cons y ys)
  obtain k cb where y: "y = (k, cb)" by (cases y)
  from Cons.prems(6) obtain n' where n: "n = Suc n'" "length ys \<le> n'" by (cases n) auto
  have nu: "UUnlisten (StartCnf (actor_type s)) k \<notin> set (user cb)" using Cons.prems(7) by force
  have np: "next_public prev (publicStartCallbackList s) = Some (k, cb)"
    using next_public_split [of xs "y # ys" prev] Cons.prems(1,2,5) by (simp add: y public_ok_def)
  obtain v where v: "run_user h im user cb s =
      Inr (s\<lparr>publicStopCallbackList := v\<rparr>, concat (map (op_effects (actor_type s)) (user cb)))"
    using ops_exact [of s "user cb" h im] Cons.prems(3,4,7) by (auto simp: run_user_def)
  obtain w where "call_public n' h im user (StartCnf (actor_type s)) publicStartCallbackList (Some k)
      (s\<lparr>publicStopCallbackList := v\<rparr>) = Inr (s\<lparr>publicStopCallbackList := w\<rparr>, script_effects user (actor_type s) ys)"
    using Cons.IH [of "s\<lparr>publicStopCallbackList := v\<rparr>" "xs @ [y]" "Some k" n'] Cons.prems n(2) by (auto simp: y)
  then show ?case using np nu v by (intro exI [of _ w]) (simp add: n(1) y script_effects_def)
qed

subsection \<open>The start of an actor\<close>

text \<open>
  \<open>starts n user s r\<close>: the result \<open>r\<close> of a handler that starts the actor \<open>s\<close>. Without any
  hypothesis on the callbacks, it is not an error, and if it is a result the actor is STARTED and the last
  two things it did are the two confirmations. When the callbacks leave the list of public start callbacks
  alone, it is the result of running all of them in the order of their handles.
\<close>

definition starts :: "nat \<Rightarrow> ('a, 'u, 'cb) user \<Rightarrow> ('a, 'u, 'cb) actor \<Rightarrow> ('a, 'u, 'cb) act \<Rightarrow> bool" where
  "starts n user s r \<longleftrightarrow> (\<forall>e. r \<noteq> Inl (Error e)) \<and>
     (\<forall>s' es. r = Inr (s', es) \<longrightarrow> astate s' = STARTED \<and>
       (\<exists>fs. es = fs @ [NetPublish (StartCnf (actor_type s)), NetPublish (PrivStartCnf (actor_type s))])) \<and>
     (length (publicStartCallbackList s) \<le> n \<and> (\<forall>cb. \<forall>op \<in> set (user cb). spares_start_list (actor_type s) op) \<longrightarrow>
       (\<exists>v. r = Inr (s\<lparr>astate := STARTED, publicStopCallbackList := v\<rparr>,
          script_effects user (actor_type s) (publicStartCallbackList s) @
          [NetPublish (StartCnf (actor_type s)), NetPublish (PrivStartCnf (actor_type s))])))"

lemma publishStartCnf_started:
  "astate s = STARTED \<Longrightarrow> publishStartCnf h im s =
     Inr (s, [NetPublish (StartCnf (actor_type s)), NetPublish (PrivStartCnf (actor_type s))])"
  by (simp add: publishStartCnf_def publish_started)

lemma start_actor:
  assumes "knows_own_types s" and "public_ok (publicStartCallbackList s)"
  shows "starts n user s (act_then (call_start_callbacks n h im user (SetState STARTED s)) (publishStartCnf h im))"
proof -
  let ?t = "s\<lparr>astate := STARTED\<rparr>"
  let ?c = "call_start_callbacks n h im user ?t"
  have c: "runs_started s ?c"
    using public_runs_started [of ?t n h im user] unfolding call_start_callbacks_def by (simp add: runs_started_def)
  have exact: "\<exists>v. ?c = Inr (?t\<lparr>publicStopCallbackList := v\<rparr>, script_effects user (actor_type s) (publicStartCallbackList s))"
    if "length (publicStartCallbackList s) \<le> n" "\<forall>cb. \<forall>op \<in> set (user cb). spares_start_list (actor_type s) op"
    using public_exact [of user ?t "[]" "publicStartCallbackList s" None n h im] assms that
    by (simp add: call_start_callbacks_def knows_own_types_def)
  show ?thesis unfolding SetState_eq
  proof (cases ?c)
    case (Inl x)
    then show "starts n user s (act_then ?c (publishStartCnf h im))"
      using c exact by (auto simp: starts_def runs_started_def)
  next
    case (Inr p)
    obtain s' es where p: "p = (s', es)" by (cases p)
    then have s': "astate s' = STARTED" "actor_type s' = actor_type s" using c Inr by (simp_all add: runs_started_def)
    then show "starts n user s (act_then ?c (publishStartCnf h im))"
      using exact by (auto simp: starts_def Inr p publishStartCnf_started)
  qed
qed

lemma act_then_nothing: "act_then (Inr (s, [])) f = f s"
  by (cases "f s") (auto split: prod.split)

lemma publish_to_children:
  assumes "\<And>c. \<not> publish_checked (f c)"
  shows "act_each (\<lambda>c. actor_publish h im (f (snd c))) cs s = Inr (s, map (\<lambda>c. NetPublish (f (snd c))) cs)"
  by (rule publish_each_unchecked) (simp add: assms)

text \<open>
  C29: how an actor becomes started. When a start request reaches an actor without children, or the last
  missing start confirmation of its children arrives, the actor starts: whatever its public start callbacks
  do, the start never ends in an error, and if it returns, the actor is STARTED and its StartCnf and then its
  PrivStartCnf are the last two things it broadcast. If moreover no callback listens or unlistens for the
  actor's own StartCnf (anything else is allowed) and the loop's fuel is the length of the list, the start
  returns, each public start callback has run once, in the order of the handles, every publish of theirs is
  broadcast, every listen and unlisten has reached the port or, for the actor's own StopCnf, the list of
  stop callbacks, and nothing else of the actor has changed. A start request that reaches an actor with
  children is passed on to each of them once, in the order of the hash map, and an earlier confirmation is
  only counted. The actor is a constructed one: it knows its own two type ids, and its start callbacks are
  sorted by handle, as \<^verbatim>\<open>std::map\<close> keeps them.
\<close>

theorem start_sequence:
  assumes "iterates im" and "knows_own_types s" and "public_ok (publicStartCallbackList s)"
  shows "(if children s = [] then starts n user s (on_StartReq n h im user s)
     else \<exists>cs. mset cs = mset (children s) \<and>
       on_StartReq n h im user s = Inr (s, map (\<lambda>c. NetPublish (StartReq (snd c))) cs)) \<and>
    (if childrenCnfCount s + 1 = length (children s)
     then starts n user (s\<lparr>childrenCnfCount := 0\<rparr>) (on_PrivStartCnf n h im user s)
     else on_PrivStartCnf n h im user s = Inr (s\<lparr>childrenCnfCount := childrenCnfCount s + 1\<rparr>, []))"
proof -
  have pub: "act_each (\<lambda>c. actor_publish h im (StartReq (snd c))) cs s =
      Inr (s, map (\<lambda>c. NetPublish (StartReq (snd c))) cs)" for cs
    by (rule publish_to_children) (simp add: publish_checked_def)
  have "on_StartReq n h im user s = (if children s = []
      then act_then (call_start_callbacks n h im user (SetState STARTED s)) (publishStartCnf h im)
      else Inr (s, map (\<lambda>c. NetPublish (StartReq (snd c))) (child_order im (children s))))"
    using iterates_children(2) [OF assms(1), of "[]"] by (simp add: on_StartReq_def pub act_then_nothing del: act_then_simps(2)) (simp add: act_then_simps(2))
  moreover have "starts n user s (act_then (call_start_callbacks n h im user (SetState STARTED s)) (publishStartCnf h im))"
    "starts n user (s\<lparr>childrenCnfCount := 0\<rparr>)
      (act_then (call_start_callbacks n h im user (SetState STARTED (s\<lparr>childrenCnfCount := 0\<rparr>))) (publishStartCnf h im))"
    using assms(2,3) by (auto intro!: start_actor simp: knows_own_types_def)
  ultimately show ?thesis
    using iterates_children(1) [OF assms(1), of "children s"] by (auto simp: on_PrivStartCnf_def Let_def)
qed

text \<open>
  An actor like \<^verbatim>\<open>LeafNode\<close> of \<^verbatim>\<open>test/start_stop\<close>, whose start callback publishes
  and listens.
\<close>

definition leaf_user :: "(nat, nat, nat) user" where
  "leaf_user cb = [UPublish (User cb), UListen (User (cb + 100)) (int cb) (cb + 1)]"

definition demo_user :: "(nat, nat, nat) user" where
  "demo_user cb = [UPublish (User cb)]"

definition demo_leaf :: "(nat, nat, nat) actor" where
  "demo_leaf = fst (life_cycle_ctor (actor_ctor ''A'' 4))\<lparr>publicStartCallbackList := [(1, 70), (3, 80)],
     publicStopCallbackList := [(2, 72)]\<rparr>"

lemma demo_leaf_facts [simp]:
  "actor_type demo_leaf = 4" "actor_name demo_leaf = ''A''" "children demo_leaf = []"
  "publicStartCallbackList demo_leaf = [(1, 70), (3, 80)]" "publicStopCallbackList demo_leaf = [(2, 72)]"
  "childrenCnfCount demo_leaf = 0" "knows_own_types demo_leaf"
  by (simp_all add: demo_leaf_def knows_own_types_def life_cycle_ctor_def actor_ctor_def SetState_def core_listen_def
      newCallBackHandle_def Let_def)

lemma start_sequence_witness:
  "\<exists>s. on_StartReq 2 onErrorFunc (newest_first ''M'') leaf_user demo_leaf =
     Inr (s, [NetPublish (User 70), PortListen (User 170) 70 (UserCb 71), NetPublish (User 80),
       PortListen (User 180) 80 (UserCb 81), NetPublish (StartCnf 4), NetPublish (PrivStartCnf 4)]) \<and>
     astate s = STARTED"
proof -
  have "starts 2 leaf_user demo_leaf (on_StartReq 2 onErrorFunc (newest_first ''M'') leaf_user demo_leaf)"
    using start_sequence [OF newest_first_iterates, of demo_leaf 2 leaf_user onErrorFunc "''M''"]
    by (simp add: public_ok_def)
  moreover have "\<forall>cb. \<forall>op \<in> set (leaf_user cb). spares_start_list 4 op" by (simp add: leaf_user_def)
  ultimately show ?thesis by (auto simp: starts_def script_effects_def leaf_user_def)
qed

section \<open>Differences between actors with and without children\<close>

lemma call_one_stop_callback:
  assumes "publicStopCallbackList s = [(k, cb)]" and "user cb = [UPublish m]"
  shows "call_stop_callbacks (Suc n) h im user s = act_each (exec_user_op h im) [UPublish m] s"
proof -
  have "next_public (Some k) [(k, cb)] = None" by (simp add: next_public_def)
  then have "call_public n h im user (StopCnf (actor_type s)) publicStopCallbackList (Some k) s = Inr (s, [])"
    using assms(1) by (cases n) simp_all
  then show ?thesis
    using assms
    by (auto simp: call_stop_callbacks_def next_public_def run_user_def act_then_def dest!: actor_publish_state
        split: sum.splits)
qed

text \<open>
  Lemma: whether a public stop callback may publish depends on the actor having children. The same callback,
  publishing one message of the application, succeeds in a started actor without children, which runs its
  callbacks before it enters STOPPED, and ends in error 5 in a started actor whose last child confirms its
  stop, because that one enters STOPPED first.
\<close>

theorem stop_callback_publish_depends_on_children:
  assumes "obeys_contract h" and "astate s = STARTED" and "publicStopCallbackList s = [(k, cb)]"
    and "user cb = [UPublish (User u)]" and im: "iterates im"
  shows "(children s = [] \<longrightarrow> on_StopReq (Suc n) h im user s = Inr (SetState A_STOPPED s,
      [NetPublish (User u), NetPublish (StopCnf (actor_type s)), NetPublish (PrivStopCnf (actor_type s))])) \<and>
    (length (children s) = childrenCnfCount s + 1 \<longrightarrow>
      on_PrivStopCnf (Suc n) h im user s = Inl (Error (err_publish (actor_name s) (type_name im (User u)) A_STOPPED)))"
proof -
  let ?t = "SetState A_STOPPED (s\<lparr>childrenCnfCount := 0\<rparr>)"
  have "call_stop_callbacks (Suc n) h im user s = Inr (s, [NetPublish (User u)])"
    using call_one_stop_callback [of s k cb user "User u" n h im] assms(2-4) by (simp add: publish_started)
  then have "children s = [] \<Longrightarrow> on_StopReq (Suc n) h im user s = Inr (SetState A_STOPPED s,
      [NetPublish (User u), NetPublish (StopCnf (actor_type s)), NetPublish (PrivStopCnf (actor_type s))])"
    using iterates_children(2) [OF im, of "[]"]
    by (simp add: on_StopReq_def publishStopCnf_def actor_publish_def publish_checked_def)
  moreover have "call_stop_callbacks (Suc n) h im user ?t =
      Inl (Error (err_publish (actor_name s) (type_name im (User u)) A_STOPPED))"
    using call_one_stop_callback [of ?t k cb user "User u" n h im] assms(3,4) obeys_contractD [OF assms(1)]
    by (simp add: actor_publish_def publish_checked_def)
  ultimately show ?thesis by (simp add: on_PrivStopCnf_def Let_def)
qed

lemma stop_callback_publish_depends_on_children_witness:
  "on_PrivStopCnf 1 onErrorFunc (newest_first ''M'') demo_user (demo_leaf\<lparr>astate := STARTED, children := [(1, 5)]\<rparr>) =
    Inl (Error (err_publish ''A'' ''M'' A_STOPPED))"
  using stop_callback_publish_depends_on_children
    [of onErrorFunc "demo_leaf\<lparr>astate := STARTED, children := [(1, 5)]\<rparr>" 2 72 demo_user 72 "newest_first ''M''" 0]
  by (simp add: demo_user_def) (simp add: newest_first_def)

text \<open>
  Lemma: a public start callback that unlistens itself is undefined behaviour. The comment on
  \<^verbatim>\<open>listen\<close> with a given handle recommends it for callbacks that unlisten themselves;
  for the actor's own StartCnf the element is erased from the map the handler is iterating.
\<close>

theorem self_unlisten_is_undefined:
  assumes "publicStartCallbackList s = (k, cb) # rest" and "UUnlisten (StartCnf (actor_type s)) k \<in> set (user cb)"
    and "children s = []" and im: "iterates im"
  shows "on_StartReq (Suc n) h im user s = Inl Undefined"
proof -
  let ?t = "SetState STARTED s"
  have "next_public None (publicStartCallbackList ?t) = Some (k, cb)"
    using assms(1) by (simp add: next_public_def)
  then have "call_start_callbacks (Suc n) h im user ?t = Inl Undefined"
    using assms(2) by (simp add: call_start_callbacks_def)
  then show ?thesis using assms(3) iterates_children(2) [OF im, of "[]"] by (simp add: on_StartReq_def)
qed

lemma self_unlisten_is_undefined_witness:
  "on_StartReq 1 onErrorFunc (newest_first []) (\<lambda>cb. [UUnlisten (StartCnf 4) 1]) demo_leaf = Inl Undefined"
  using self_unlisten_is_undefined [of demo_leaf 1 70 "[(3, 80)]" "\<lambda>cb. [UUnlisten (StartCnf 4) 1]" "newest_first []"]
  by simp

end
