(* ===== verification/Life_Cycle_System.thy ===== *)
theory Life_Cycle_System
  imports Actor_Object_Properties
begin

text \<open>
  A running system of actors, \<^verbatim>\<open>rapi_core\<close> as a whole above the level of threads:
  actors with the handlers of \<^verbatim>\<open>Actor_Object\<close>, their ports and the network.

  Actors are numbered from 0, the root. The state of a port is its callback table and the list of events
  waiting in it; a message type registered in a port's table is registered at the network
  (\<^verbatim>\<open>Port_Properties\<close>). A step is either the handling of one event by one actor, or
  one effect of a handler that has run: a broadcast puts the message into every port that listens for it,
  under the network's mutex. The effects of a handler are executed one at a time, interleaved with the
  steps of all other actors, before the actor handles its next event; the actor's own fields are not
  visible to others, so running the rest of the handler first makes no difference. Messages here carry no
  data. Actors other than the root are those created by \<^verbatim>\<open>newChild\<close> in constructors.
\<close>

record ('a, 'u, 'cb) system =
  actors :: "nat \<Rightarrow> ('a, 'u, 'cb) actor"
  tables :: "nat \<Rightarrow> (('a, 'u) msg_type, 'cb callback) callback_table"
  inbox :: "nat \<Rightarrow> ('a, 'u) msg_type list"
  outbox :: "nat \<Rightarrow> ('a, 'u, 'cb) effect list"
  core_running :: bool

section \<open>Construction\<close>

fun newChildren ::
  "'a list \<Rightarrow> ('a, 'u, 'cb) actor \<Rightarrow> ('a, 'u, 'cb) actor \<times> ('a, 'u, 'cb) effect list" where
  "newChildren [] s = (s, [])"
| "newChildren (c # cs) s =
     (let (h, s1, e1) = newChild c s; (s2, e2) = newChildren cs s1 in (s2, e1 @ e2))"

text \<open>An actor of type \<open>ty\<close> whose constructor creates children of the types \<open>cs\<close>.\<close>

definition make_actor ::
  "string \<Rightarrow> 'a \<Rightarrow> 'a list \<Rightarrow> ('a, 'u, 'cb) actor \<times> ('a, 'u, 'cb) effect list" where
  "make_actor name ty cs =
     (let (s1, e1) = newChildren cs (actor_ctor name ty); (s2, e2) = life_cycle_ctor s1 in (s2, e1 @ e2))"

text \<open>\<^verbatim>\<open>Core::init\<close> creates the root and listens on it.\<close>

definition make_root ::
  "string \<Rightarrow> 'a \<Rightarrow> 'a list \<Rightarrow> ('a, 'u, 'cb) actor \<times> ('a, 'u, 'cb) effect list" where
  "make_root name ty cs =
     (let (s1, e1) = make_actor name ty cs; (s2, e2) = core_init_listens s1 in (s2, e1 @ e2))"

definition apply_listen ::
  "('a, 'u, 'cb) effect \<Rightarrow> (('a, 'u) msg_type, 'cb callback) callback_table \<Rightarrow>
     (('a, 'u) msg_type, 'cb callback) callback_table" where
  "apply_listen e t = (case e of
      PortListen m h cb \<Rightarrow> table_add m h cb t
    | PortUnlisten m h \<Rightarrow> (case t m of None \<Rightarrow> t | Some v \<Rightarrow> t(m \<mapsto> fst (vector_remove h v)))
    | _ \<Rightarrow> t)"

definition apply_listens ::
  "('a, 'u, 'cb) effect list \<Rightarrow> (('a, 'u) msg_type, 'cb callback) callback_table" where
  "apply_listens es = fold apply_listen es Map.empty"

text \<open>
  The system after \<^verbatim>\<open>Core::init\<close> and the wait for idle at the beginning of
  \<^verbatim>\<open>Core::run\<close>, when all listens have been executed, given for every actor its
  name, its type and the types of its children.
\<close>

definition system_init ::
  "(nat \<Rightarrow> string) \<Rightarrow> (nat \<Rightarrow> 'a) \<Rightarrow> (nat \<Rightarrow> 'a list) \<Rightarrow> ('a, 'u, 'cb) system" where
  "system_init nm ty cs =
     (let made = (\<lambda>i. if i = 0 then make_root (nm i) (ty i) (cs i) else make_actor (nm i) (ty i) (cs i))
      in \<lparr>actors = (\<lambda>i. fst (made i)), tables = (\<lambda>i. apply_listens (snd (made i))),
          inbox = (\<lambda>i. []), outbox = (\<lambda>i. []), core_running = True\<rparr>)"

section \<open>Steps\<close>

definition broadcast :: "('a, 'u) msg_type \<Rightarrow> ('a, 'u, 'cb) system \<Rightarrow> ('a, 'u, 'cb) system" where
  "broadcast m s =
     s\<lparr>inbox := (\<lambda>j. if tables s j m \<noteq> None then inbox s j @ [m] else inbox s j)\<rparr>"

definition apply_effect ::
  "nat \<Rightarrow> ('a, 'u, 'cb) effect \<Rightarrow> ('a, 'u, 'cb) system \<Rightarrow> ('a, 'u, 'cb) system" where
  "apply_effect i e s = (case e of
      NetPublish m \<Rightarrow> broadcast m s
    | CoreStopped \<Rightarrow> s\<lparr>core_running := False\<rparr>
    | _ \<Rightarrow> s\<lparr>tables := (tables s)(i := apply_listen e (tables s i))\<rparr>)"

datatype sys_action = Handle nat | Effect nat

text \<open>
  The port calls the callbacks of a message in the order in which the implementation iterates over
  them, which is some order of the table's list.
\<close>

definition ordered_calls ::
  "('a, 'u, 'cb) implementation \<Rightarrow> ('a, 'u) msg_type \<Rightarrow> (('a, 'u) msg_type, 'cb callback) callback_table \<Rightarrow>
     'cb callback list" where
  "ordered_calls im m t = (case t m of None \<Rightarrow> [] | Some v \<Rightarrow> map snd (call_order im v))"

lemma ordered_calls_mset: "iterates im \<Longrightarrow> mset (ordered_calls im m t) = mset (table_calls m t)"
  by (simp add: ordered_calls_def table_calls_def vector_calls_def iterates_def split: option.split)

text \<open>Where there is at most one callback, there is one order.\<close>

lemma ordered_calls_single:
  assumes "iterates im" and "table_calls m t = xs" and "length xs \<le> 1"
  shows "ordered_calls im m t = xs"
proof -
  have m: "mset (ordered_calls im m t) = mset xs" using ordered_calls_mset [OF assms(1)] assms(2) by simp
  show ?thesis
  proof (cases xs)
    case (Cons x ys)
    then show ?thesis using m assms(3) by (cases ys) simp_all
  qed (use m in simp)
qed

text \<open>\<open>N\<close> actors; \<open>fuel\<close>, \<open>h\<close>, \<open>im\<close> and \<open>user\<close> are handed to the handlers.\<close>

definition sys_exec ::
  "nat \<Rightarrow> nat \<Rightarrow> handler \<Rightarrow> ('a, 'u, 'cb) implementation \<Rightarrow> ('a, 'u, 'cb) user \<Rightarrow> sys_action \<Rightarrow> ('a, 'u, 'cb) system \<Rightarrow>
     (fault + ('a, 'u, 'cb) system) option" where
  "sys_exec N fuel h im user a s =
     (case a of
        Handle i \<Rightarrow>
          (if i < N \<and> outbox s i = [] then
             (case inbox s i of
                [] \<Rightarrow> None
              | m # ms \<Rightarrow>
                  Some (case act_each (run_callback fuel h im user) (ordered_calls im m (tables s i)) (actors s i) of
                     Inl x \<Rightarrow> Inl x
                   | Inr (t, es) \<Rightarrow> Inr (s\<lparr>actors := (actors s)(i := t), inbox := (inbox s)(i := ms),
                                          outbox := (outbox s)(i := es)\<rparr>)))
           else None)
      | Effect i \<Rightarrow>
          (if i < N then
             (case outbox s i of
                [] \<Rightarrow> None
              | e # es \<Rightarrow> Some (Inr (apply_effect i e (s\<lparr>outbox := (outbox s)(i := es)\<rparr>))))
           else None))"

fun sys_run ::
  "nat \<Rightarrow> nat \<Rightarrow> handler \<Rightarrow> ('a, 'u, 'cb) implementation \<Rightarrow> ('a, 'u, 'cb) user \<Rightarrow> sys_action list \<Rightarrow> ('a, 'u, 'cb) system \<Rightarrow>
     (fault + ('a, 'u, 'cb) system) option" where
  "sys_run N fuel h im user [] s = Some (Inr s)"
| "sys_run N fuel h im user (a # as) s =
     (case sys_exec N fuel h im user a s of
        None \<Rightarrow> None
      | Some (Inl x) \<Rightarrow> Some (Inl x)
      | Some (Inr t) \<Rightarrow> sys_run N fuel h im user as t)"

section \<open>What construction leaves behind\<close>

definition listens_of :: "('a, 'u) msg_type \<Rightarrow> ('a, 'u, 'cb) effect list \<Rightarrow> 'cb callback list" where
  "listens_of m es = concat (map (\<lambda>e. case e of PortListen m' h cb \<Rightarrow> if m' = m then [cb] else [] | _ \<Rightarrow> []) es)"

fun listen_handle :: "('a, 'u, 'cb) effect \<Rightarrow> handle option" where
  "listen_handle (PortListen m h cb) = Some h"
| "listen_handle e = None"

lemma listens_of_simps [simp]:
  "listens_of m [] = []" "listens_of m (es @ fs) = listens_of m es @ listens_of m fs"
  "listens_of m (PortListen m' h cb # es) = (if m' = m then [cb] else []) @ listens_of m es"
  by (simp_all add: listens_of_def)

text \<open>Listens with distinct handles, in order, give exactly their callbacks.\<close>

lemma update_fresh: "h \<notin> fst ` set v \<Longrightarrow> AList.update h c v = v @ [(h, c)]"
  by (induction v) auto

lemma apply_listens_calls:
  assumes "\<forall>e \<in> set es. listen_handle e \<noteq> None" and "distinct (map listen_handle es)"
  shows "table_calls m (apply_listens es) = listens_of m es \<and>
    (apply_listens es m \<noteq> None \<longleftrightarrow> listens_of m es \<noteq> []) \<and>
    (\<forall>m v h cb. apply_listens es m = Some v \<and> (h, cb) \<in> set v \<longrightarrow> Some h \<in> set (map listen_handle es))"
  using assms
proof (induction es arbitrary: m rule: rev_induct)
  case Nil
  then show ?case by (simp add: apply_listens_def table_calls_def)
next
  case (snoc e es)
  then obtain m' h cb where e: "e = PortListen m' h cb"
    by (cases e) auto
  have p: "\<forall>e \<in> set es. listen_handle e \<noteq> None" "distinct (map listen_handle es)"
    using snoc.prems by auto
  have ih: "\<And>m. table_calls m (apply_listens es) = listens_of m es"
    "\<And>m. apply_listens es m \<noteq> None \<longleftrightarrow> listens_of m es \<noteq> []"
    "\<And>m v h cb. apply_listens es m = Some v \<Longrightarrow> (h, cb) \<in> set v \<Longrightarrow> Some h \<in> set (map listen_handle es)"
    using snoc.IH [OF p] by blast+
  let ?t = "apply_listens es"
  let ?v = "case ?t m' of None \<Rightarrow> [] | Some v \<Rightarrow> v"
  have "Some k \<in> set (map listen_handle es)" if "k \<in> fst ` set ?v" for k
    using that ih(3) [of m' _ k] by (cases "?t m'") auto
  moreover have "Some h \<notin> set (map listen_handle es)" using snoc.prems(2) by (simp add: e)
  ultimately have "h \<notin> fst ` set ?v" by blast
  then have t: "apply_listens (es @ [e]) = ?t(m' \<mapsto> ?v @ [(h, cb)])"
    by (simp add: apply_listens_def apply_listen_def e table_add_def vector_add_def update_fresh)
  have v: "map snd ?v = listens_of m' es"
    using ih(1) [of m'] by (simp add: table_calls_def vector_calls_def split: option.splits)
  have "table_calls m (?t(m' \<mapsto> ?v @ [(h, cb)])) = listens_of m (es @ [e])"
  proof (cases "m = m'")
    case True
    then show ?thesis using v by (simp add: table_calls_def vector_calls_def e)
  next
    case False
    then show ?thesis using ih(1) [of m] by (simp add: table_calls_def e)
  qed
  moreover have "(?t(m' \<mapsto> ?v @ [(h, cb)])) m \<noteq> None \<longleftrightarrow> listens_of m (es @ [e]) \<noteq> []"
    using ih(2) [of m] by (auto simp: e)
  moreover have "Some k \<in> set (map listen_handle (es @ [e]))"
    if "(?t(m' \<mapsto> ?v @ [(h, cb)])) m = Some v" "(k, c) \<in> set v" for m v k c
    using that ih(3) [of m _ k c] by (auto simp: e split: if_splits option.splits)
  ultimately show ?case unfolding t by blast
qed

fun expected_calls :: "bool \<Rightarrow> 'a \<Rightarrow> 'a list \<Rightarrow> ('a, 'u) msg_type \<Rightarrow> 'cb callback list" where
  "expected_calls root ty cs (StartReq x) = (if x = ty then [OnStartReq] else [])"
| "expected_calls root ty cs (StopReq x) = (if x = ty then [OnStopReq] else [])"
| "expected_calls root ty cs (PrivStartCnf x) = replicate (count_list cs x) OnChildStartCnf"
| "expected_calls root ty cs (PrivStopCnf x) =
     replicate (count_list cs x) OnChildStopCnf @ (if root \<and> x = ty then [CoreOnStopCnf] else [])"
| "expected_calls root ty cs Stop = (if root then [CoreOnStop] else [])"
| "expected_calls root ty cs m = []"

lemma core_listen_eq:
  "core_listen m cb s = (s\<lparr>portHandleCounter := portHandleCounter s + 1\<rparr>,
     [PortListen m (portHandleCounter s + 1) cb])"
  by (simp add: core_listen_def newCallBackHandle_def Let_def)

lemma newChild_eq:
  "newChild c s = (childHandleCounter s + 1,
     s\<lparr>childHandleCounter := childHandleCounter s + 1,
       children := children s @ [(childHandleCounter s + 1, c)],
       portHandleCounter := portHandleCounter s + 2\<rparr>,
     [PortListen (PrivStartCnf c) (portHandleCounter s + 1) OnChildStartCnf,
      PortListen (PrivStopCnf c) (portHandleCounter s + 2) OnChildStopCnf])"
  by (simp add: newChild_def core_listen_eq Let_def)

lemma newChildren_eq:
  "\<exists>hs es. newChildren cs s = (s\<lparr>childHandleCounter := childHandleCounter s + length cs,
      children := children s @ zip hs cs, portHandleCounter := portHandleCounter s + 2 * int (length cs)\<rparr>, es) \<and>
    length hs = length cs \<and>
    map listen_handle es = map Some [portHandleCounter s + 1..portHandleCounter s + 2 * int (length cs)] \<and>
    (\<forall>m. listens_of m es = (case m of PrivStartCnf x \<Rightarrow> replicate (count_list cs x) OnChildStartCnf
       | PrivStopCnf x \<Rightarrow> replicate (count_list cs x) OnChildStopCnf | _ \<Rightarrow> []))"
proof (induction cs arbitrary: s)
  case Nil
  show ?case by (intro exI [of _ "[]"]) (simp split: msg_type.split)
next
  case (Cons c cs)
  let ?s1 = "fst (snd (newChild c s))"
  from Cons [of ?s1] obtain hs es where
    n: "newChildren cs ?s1 = (?s1\<lparr>childHandleCounter := childHandleCounter ?s1 + length cs,
      children := children ?s1 @ zip hs cs, portHandleCounter := portHandleCounter ?s1 + 2 * int (length cs)\<rparr>, es)"
    and l: "length hs = length cs"
    and h: "map listen_handle es = map Some [portHandleCounter ?s1 + 1..portHandleCounter ?s1 + 2 * int (length cs)]"
    and c: "\<forall>m. listens_of m es = (case m of PrivStartCnf x \<Rightarrow> replicate (count_list cs x) OnChildStartCnf
       | PrivStopCnf x \<Rightarrow> replicate (count_list cs x) OnChildStopCnf | _ \<Rightarrow> [])" by blast
  have u: "[k + 1..k + 2 * int (length (c # cs))] = (k + 1) # (k + 2) # [k + 2 + 1..k + 2 + 2 * int (length cs)]" for k
  proof -
    have "[k + 1..k + 2 + 2 * int (length cs)] = (k + 1) # [k + 2..k + 2 + 2 * int (length cs)]"
      by (subst upto_rec1) (simp_all add: add.assoc)
    also have "[k + 2..k + 2 + 2 * int (length cs)] = (k + 2) # [k + 2 + 1..k + 2 + 2 * int (length cs)]"
      by (rule upto_rec1) simp
    finally show ?thesis by (simp add: algebra_simps)
  qed
  let ?es = "snd (snd (newChild c s)) @ es"
  have "newChildren (c # cs) s = (s\<lparr>childHandleCounter := childHandleCounter s + length (c # cs),
      children := children s @ zip ((childHandleCounter s + 1) # hs) (c # cs),
      portHandleCounter := portHandleCounter s + 2 * int (length (c # cs))\<rparr>, ?es)"
    using n by (simp add: newChild_eq)
  moreover have "map listen_handle ?es =
      map Some [portHandleCounter s + 1..portHandleCounter s + 2 * int (length (c # cs))]"
    unfolding u using h by (simp add: newChild_eq)
  moreover have "\<forall>m. listens_of m ?es = (case m of PrivStartCnf x \<Rightarrow> replicate (count_list (c # cs) x) OnChildStartCnf
       | PrivStopCnf x \<Rightarrow> replicate (count_list (c # cs) x) OnChildStopCnf | _ \<Rightarrow> [])"
    using c by (auto simp: newChild_eq split: msg_type.split)
  ultimately show ?case using l
    by (intro exI [of _ "(childHandleCounter s + 1) # hs"] exI [of _ ?es]) simp
qed

text \<open>What matters of an actor for the life cycle, right after its construction.\<close>

definition fresh_actor :: "'a \<Rightarrow> 'a list \<Rightarrow> ('a, 'u, 'cb) actor \<Rightarrow> bool" where
  "fresh_actor ty cs s \<longleftrightarrow> actor_type s = ty \<and> map snd (children s) = cs \<and> astate s = CTOR_FINISHED \<and>
     childrenCnfCount s = 0 \<and> publicStartCallbackList s = [] \<and> publicStopCallbackList s = []"

lemma upto_two: "0 \<le> k \<Longrightarrow> [1..k + 2] = [1..k] @ [k + 1, k + 2]" for k :: int
proof -
  assume k: "0 \<le> k"
  then have "[1..k + 2] = [1..k + 1] @ [k + 2]" using upto_rec2 [of 1 "k + 2"] by (simp add: algebra_simps)
  also have "[1..k + 1] = [1..k] @ [k + 1]" using k upto_rec2 [of 1 "k + 1"] by simp
  finally show ?thesis by simp
qed

definition made_ok :: "bool \<Rightarrow> 'a \<Rightarrow> 'a list \<Rightarrow> ('a, 'u, 'cb) actor \<Rightarrow> ('a, 'u, 'cb) effect list \<Rightarrow> bool" where
  "made_ok root ty cs s es \<longleftrightarrow> map listen_handle es = map Some [1..portHandleCounter s] \<and>
     0 \<le> portHandleCounter s \<and> (\<forall>m. listens_of m es = expected_calls root ty cs m) \<and> fresh_actor ty cs s"

lemma make_actor_ok:
  assumes "make_actor nm ty cs = (s, es)"
  shows "made_ok False ty cs s es"
proof -
  let ?s = "actor_ctor nm ty :: ('a, 'b, 'c) actor"
  obtain hs fs where n: "newChildren cs ?s = (?s\<lparr>childHandleCounter := childHandleCounter ?s + length cs,
      children := children ?s @ zip hs cs, portHandleCounter := portHandleCounter ?s + 2 * int (length cs)\<rparr>, fs)"
    and l: "length hs = length cs"
    and h: "map listen_handle fs = map Some [portHandleCounter ?s + 1..portHandleCounter ?s + 2 * int (length cs)]"
    and c: "\<forall>m. listens_of m fs = (case m of PrivStartCnf x \<Rightarrow> replicate (count_list cs x) OnChildStartCnf
       | PrivStopCnf x \<Rightarrow> replicate (count_list cs x) OnChildStopCnf | _ \<Rightarrow> [])"
    using newChildren_eq by blast
  let ?k = "2 * int (length cs)"
  have s: "s = ?s\<lparr>childHandleCounter := length cs, children := zip hs cs, portHandleCounter := ?k + 2,
      startCnfTypeId := type_id (StartCnf ty), stopCnfTypeId := type_id (StopCnf ty), astate := CTOR_FINISHED\<rparr>"
    and es: "es = fs @ [PortListen (StartReq ty) (?k + 1) OnStartReq, PortListen (StopReq ty) (?k + 2) OnStopReq]"
    using assms n by (auto simp: make_actor_def life_cycle_ctor_def SetState_def core_listen_eq actor_ctor_def Let_def)
  have "map listen_handle es = map Some [1..?k + 2]"
    unfolding es using h upto_two [of ?k] by (simp add: actor_ctor_def)
  moreover have "listens_of m es = expected_calls False ty cs m" for m
    unfolding es using c by (cases m) simp_all
  ultimately show ?thesis
    using l by (simp add: made_ok_def s fresh_actor_def actor_ctor_def)
qed

lemma make_root_ok:
  assumes "make_root nm ty cs = (s, es)"
  shows "made_ok True ty cs s es"
proof -
  obtain t fs where m: "make_actor nm ty cs = (t, fs)" and
    s: "s = t\<lparr>portHandleCounter := portHandleCounter t + 2\<rparr>"
    and es: "es = fs @ [PortListen Stop (portHandleCounter t + 1) CoreOnStop,
      PortListen (PrivStopCnf (actor_type t)) (portHandleCounter t + 2) CoreOnStopCnf]"
    using assms by (auto simp: make_root_def core_init_listens_def core_listen_eq Let_def split: prod.splits)
  have ok: "made_ok False ty cs t fs" by (rule make_actor_ok [OF m])
  have "listens_of m es = expected_calls True ty cs m" for m
    unfolding es using ok by (cases m) (auto simp: made_ok_def fresh_actor_def)
  moreover have "map listen_handle es = map Some [1..portHandleCounter s]"
    unfolding es s using ok upto_two [of "portHandleCounter t"] by (simp add: made_ok_def)
  ultimately show ?thesis using ok by (simp add: made_ok_def s fresh_actor_def)
qed

lemma listens_some: "map listen_handle es = map Some ks \<Longrightarrow> \<forall>e \<in> set es. listen_handle e \<noteq> None"
  by (metis in_set_conv_nth length_map nth_map option.simps(3))

lemma made_table:
  assumes "made_ok root ty cs s es"
  shows "table_calls m (apply_listens es) = expected_calls root ty cs m"
    "apply_listens es m \<noteq> None \<longleftrightarrow> table_calls m (apply_listens es) \<noteq> []"
proof -
  have h: "map listen_handle es = map Some [1..portHandleCounter s]"
    and l: "listens_of m es = expected_calls root ty cs m"
    using assms by (simp_all add: made_ok_def)
  have d: "distinct (map listen_handle es)" unfolding h by (simp add: distinct_map)
  show "table_calls m (apply_listens es) = expected_calls root ty cs m"
    "apply_listens es m \<noteq> None \<longleftrightarrow> table_calls m (apply_listens es) \<noteq> []"
    using apply_listens_calls [OF listens_some [OF h] d, of m] l by auto
qed

lemma system_init_facts:
  fixes nm :: "nat \<Rightarrow> string" and ty :: "nat \<Rightarrow> 'a" and cs :: "nat \<Rightarrow> 'a list" and m :: "('a, 'u) msg_type"
  defines "s \<equiv> system_init nm ty cs :: ('a, 'u, 'cb) system"
  shows "fresh_actor (ty i) (cs i) (actors s i)"
    "table_calls m (tables s i) = expected_calls (i = 0) (ty i) (cs i) m"
    "tables s i m \<noteq> None \<longleftrightarrow> table_calls m (tables s i) \<noteq> []"
proof -
  obtain t es where "(if i = 0 then make_root (nm i) (ty i) (cs i) else make_actor (nm i) (ty i) (cs i)) = (t, es)"
    and t: "actors s i = t" and es: "tables s i = apply_listens es"
    by (cases "if i = 0 then make_root (nm i) (ty i) (cs i)
        else make_actor (nm i) (ty i) (cs i) :: ('a, 'u, 'cb) actor \<times> ('a, 'u, 'cb) effect list")
      (simp add: s_def system_init_def Let_def)
  then have ok: "made_ok (i = 0) (ty i) (cs i) t es"
    using make_root_ok make_actor_ok by (cases "i = 0") fastforce+
  then show "fresh_actor (ty i) (cs i) (actors s i)" by (simp add: t made_ok_def)
  show "table_calls m (tables s i) = expected_calls (i = 0) (ty i) (cs i) m"
    "tables s i m \<noteq> None \<longleftrightarrow> table_calls m (tables s i) \<noteq> []"
    using made_table [OF ok] by (simp_all add: es)
qed

end
