(* ===== verification/Life_Cycle_Protocol.thy ===== *)
theory Life_Cycle_Protocol
  imports Life_Cycle_System
begin

text \<open>
  The start and the stop of a tree of actors as protocols: the request travels down the tree, the
  confirmations travel up. The two phases are the same protocol with different messages and states, so
  everything is stated for a \<open>phase\<close>.

  Actors are numbered so that a parent has a smaller number than its children, and have pairwise different
  types; the type of actor \<open>i\<close> is \<open>i\<close>. The progress of a phase is described by two sets, the
  actors that have handled their request (\<open>H\<close>) and the actors whose confirmation has been handled
  (\<open>K\<close>); \<open>phase_inv\<close> says that these determine everything else: the states and counters of
  all actors and which messages are on their way.
\<close>

section \<open>Trees and phases\<close>

definition kids :: "nat \<Rightarrow> (nat \<Rightarrow> nat) \<Rightarrow> nat \<Rightarrow> nat list" where
  "kids N par i = filter (\<lambda>c. 0 < c \<and> par c = i) [0..<N]"

definition tree_ok :: "nat \<Rightarrow> (nat \<Rightarrow> nat) \<Rightarrow> bool" where
  "tree_ok N par \<longleftrightarrow> 0 < N \<and> (\<forall>c < N. 0 < c \<longrightarrow> par c < c)"

lemma set_kids [simp]: "c \<in> set (kids N par i) \<longleftrightarrow> 0 < c \<and> c < N \<and> par c = i"
  by (auto simp: kids_def)

lemma kids_distinct [simp]: "distinct (kids N par i)"
  by (simp add: kids_def)

datatype phase = Starting | Stopping

fun req_msg :: "phase \<Rightarrow> 'a \<Rightarrow> ('a, 'u) msg_type" where
  "req_msg Starting a = StartReq a"
| "req_msg Stopping a = StopReq a"

fun cnf_msg :: "phase \<Rightarrow> 'a \<Rightarrow> ('a, 'u) msg_type" where
  "cnf_msg Starting a = PrivStartCnf a"
| "cnf_msg Stopping a = PrivStopCnf a"

fun pub_msg :: "phase \<Rightarrow> 'a \<Rightarrow> ('a, 'u) msg_type" where
  "pub_msg Starting a = StartCnf a"
| "pub_msg Stopping a = StopCnf a"

fun phase_before :: "phase \<Rightarrow> actor_state" where
  "phase_before Starting = CTOR_FINISHED"
| "phase_before Stopping = STARTED"

fun phase_after :: "phase \<Rightarrow> actor_state" where
  "phase_after Starting = STARTED"
| "phase_after Stopping = A_STOPPED"

lemma phase_msgs [simp]:
  "req_msg ph a = req_msg ph b \<longleftrightarrow> a = b" "cnf_msg ph a = cnf_msg ph b \<longleftrightarrow> a = b"
  "req_msg ph a \<noteq> cnf_msg ph b" "cnf_msg ph a \<noteq> req_msg ph b"
  "pub_msg ph a \<noteq> req_msg ph b" "pub_msg ph a \<noteq> cnf_msg ph b"
  "req_msg ph b \<noteq> pub_msg ph a" "cnf_msg ph b \<noteq> pub_msg ph a"
  by (cases ph; simp)+

text \<open>The confirmation of the root is listened for only in the stop phase, by the core.\<close>

definition tracked :: "phase \<Rightarrow> nat \<Rightarrow> bool" where
  "tracked ph a \<longleftrightarrow> a \<noteq> 0 \<or> ph = Stopping"

section \<open>The handlers on actors without application callbacks\<close>

definition life_actor ::
  "nat \<Rightarrow> nat list \<Rightarrow> actor_state \<Rightarrow> nat \<Rightarrow> (nat, 'u, 'cb) actor \<Rightarrow> bool" where
  "life_actor i cs st k s \<longleftrightarrow> actor_type s = i \<and> map snd (children s) = cs \<and> astate s = st \<and>
     childrenCnfCount s = k \<and> publicStartCallbackList s = [] \<and> publicStopCallbackList s = []"

lemma call_public_empty: "sel s = [] \<Longrightarrow> call_public n h im user m sel prev s = Inr (s, [])"
  by (cases n) (simp_all add: next_public_def)

lemma publish_requests:
  "act_each (\<lambda>c. actor_publish h im (req_msg ph (snd c))) cs s =
     Inr (s, map (\<lambda>c. NetPublish (req_msg ph c)) (map snd cs))"
proof -
  have "\<forall>c \<in> set cs. \<not> publish_checked (req_msg ph (snd c))"
    by (cases ph) (simp_all add: publish_checked_def)
  from publish_each_unchecked [OF this] show ?thesis by (simp add: comp_def)
qed

definition req_callback :: "phase \<Rightarrow> 'cb callback" where
  "req_callback ph = (case ph of Starting \<Rightarrow> OnStartReq | Stopping \<Rightarrow> OnStopReq)"

definition cnf_callback :: "phase \<Rightarrow> 'cb callback" where
  "cnf_callback ph = (case ph of Starting \<Rightarrow> OnChildStartCnf | Stopping \<Rightarrow> OnChildStopCnf)"

lemma handle_request:
  assumes "life_actor i cs st k s" and im: "iterates im"
  shows "\<exists>t ks. mset ks = mset cs \<and> run_callback n h im user (req_callback ph) s = Inr (t,
      if cs = [] then [NetPublish (pub_msg ph i), NetPublish (cnf_msg ph i)]
      else map (\<lambda>c. NetPublish (req_msg ph c)) ks) \<and>
    life_actor i cs (if cs = [] then phase_after ph else st) k t"
proof -
  let ?ks = "map snd (child_order im (children s))"
  have "children s = [] \<longleftrightarrow> cs = []" using assms by (auto simp: life_actor_def)
  moreover have "mset ?ks = mset cs"
    using iterates_children(1) [OF im, of "children s"] assms(1) by (auto simp: life_actor_def)
  ultimately show ?thesis
    using assms publish_requests [of h im ph "child_order im (children s)" s] iterates_children(2) [OF im, of "children s"]
    by (intro exI [of _ "if cs = [] then SetState (phase_after ph) s else s"] exI [of _ ?ks])
      (cases ph; auto simp: req_callback_def on_StartReq_def on_StopReq_def call_start_callbacks_def
        call_stop_callbacks_def call_public_empty publishStartCnf_def publishStopCnf_def
        actor_publish_def publish_checked_def life_actor_def)
qed

lemma handle_confirmation:
  assumes "life_actor i cs st k s"
  shows "\<exists>t. run_callback n h im user (cnf_callback ph) s = Inr (t,
      if k + 1 = length cs then [NetPublish (pub_msg ph i), NetPublish (cnf_msg ph i)] else []) \<and>
    (if k + 1 = length cs then life_actor i cs (phase_after ph) 0 t else life_actor i cs st (k + 1) t)"
proof -
  have "length (children s) = length cs" using assms by (auto simp: life_actor_def)
  then show ?thesis
    using assms
    by (cases ph) (auto simp: cnf_callback_def on_PrivStartCnf_def on_PrivStopCnf_def call_start_callbacks_def
        call_stop_callbacks_def call_public_empty publishStartCnf_def publishStopCnf_def
        actor_publish_def publish_checked_def life_actor_def Let_def)
qed

section \<open>Who listens\<close>

definition life_tables ::
  "nat \<Rightarrow> (nat \<Rightarrow> nat) \<Rightarrow> (nat, 'u, 'cb) system \<Rightarrow> bool" where
  "life_tables N par s \<longleftrightarrow> (\<forall>i m. table_calls m (tables s i) = expected_calls (i = 0) i (kids N par i) m \<and>
     (tables s i m \<noteq> None \<longleftrightarrow> table_calls m (tables s i) \<noteq> []))"

lemma life_tables_init: "life_tables N par (system_init nm (\<lambda>i. i) (kids N par))"
  unfolding life_tables_def using system_init_facts(2,3) by blast

lemma count_list_distinct: "distinct xs \<Longrightarrow> count_list xs x = (if x \<in> set xs then 1 else 0)"
  by (induction xs) auto

lemma kids_count [simp]: "count_list (kids N par i) c = (if 0 < c \<and> c < N \<and> par c = i then 1 else 0)"
  by (simp add: count_list_distinct)

lemma req_calls:
  "life_tables N par s \<Longrightarrow> table_calls (req_msg ph a) (tables s i) = (if a = i then [req_callback ph] else [])"
  by (cases ph) (simp_all add: life_tables_def req_callback_def)

lemma cnf_calls:
  "life_tables N par s \<Longrightarrow> table_calls (cnf_msg ph a) (tables s i) =
     (if 0 < a \<and> a < N \<and> par a = i then [cnf_callback ph] else []) @
     (if a = 0 \<and> i = 0 \<and> ph = Stopping then [CoreOnStopCnf] else [])"
  by (cases ph) (auto simp: life_tables_def cnf_callback_def)

lemma listeners:
  assumes "life_tables N par s"
  shows "tables s i (req_msg ph a) \<noteq> None \<longleftrightarrow> a = i"
    "tables s i (cnf_msg ph a) \<noteq> None \<longleftrightarrow>
       0 < a \<and> a < N \<and> par a = i \<or> a = 0 \<and> i = 0 \<and> ph = Stopping"
    "tables s i (pub_msg ph a) = None"
proof -
  have t: "tables s i m \<noteq> None \<longleftrightarrow> table_calls m (tables s i) \<noteq> []" for m
    using assms by (simp add: life_tables_def)
  show "tables s i (req_msg ph a) \<noteq> None \<longleftrightarrow> a = i" unfolding t req_calls [OF assms] by simp
  show "tables s i (cnf_msg ph a) \<noteq> None \<longleftrightarrow>
       0 < a \<and> a < N \<and> par a = i \<or> a = 0 \<and> i = 0 \<and> ph = Stopping"
    unfolding t cnf_calls [OF assms] by auto
  have "table_calls (pub_msg ph a) (tables s i) = []"
    using assms by (cases ph) (simp_all add: life_tables_def)
  then show "tables s i (pub_msg ph a) = None" using t by blast
qed

section \<open>The invariant of a phase\<close>

definition issued :: "nat \<Rightarrow> (nat \<Rightarrow> nat) \<Rightarrow> nat set \<Rightarrow> nat set" where
  "issued N par H = {a. a < N \<and> (a = 0 \<or> par a \<in> H)}"

definition complete :: "nat \<Rightarrow> (nat \<Rightarrow> nat) \<Rightarrow> nat set \<Rightarrow> nat set \<Rightarrow> nat \<Rightarrow> bool" where
  "complete N par H K a \<longleftrightarrow> (if kids N par a = [] then a \<in> H else set (kids N par a) \<subseteq> K)"

definition counted :: "nat \<Rightarrow> (nat \<Rightarrow> nat) \<Rightarrow> nat set \<Rightarrow> nat \<Rightarrow> nat" where
  "counted N par K a =
     (if set (kids N par a) \<subseteq> K then 0 else card (set (kids N par a) \<inter> K))"

text \<open>How often a message is on its way: waiting in a port or still to be published.\<close>

definition flight :: "nat \<Rightarrow> (nat, 'u) msg_type \<Rightarrow> (nat, 'u, 'cb) system \<Rightarrow> nat" where
  "flight N m s = (\<Sum>i<N. count_list (inbox s i) m + count_list (outbox s i) (NetPublish m))"

definition phase_inv ::
  "nat \<Rightarrow> (nat \<Rightarrow> nat) \<Rightarrow> phase \<Rightarrow> nat set \<Rightarrow> nat set \<Rightarrow> (nat, 'u, 'cb) system \<Rightarrow> bool" where
  "phase_inv N par ph H K s \<longleftrightarrow>
     H \<subseteq> issued N par H \<and> K \<subseteq> {a. a < N \<and> tracked ph a \<and> complete N par H K a} \<and>
     life_tables N par s \<and>
     (\<forall>i < N. life_actor i (kids N par i)
        (if complete N par H K i then phase_after ph else phase_before ph) (counted N par K i) (actors s i)) \<and>
     (\<forall>i < N. \<forall>m \<in> set (inbox s i). tables s i m \<noteq> None \<and> (\<exists>a < N. m = req_msg ph a \<or> m = cnf_msg ph a)) \<and>
     (\<forall>i < N. \<forall>e \<in> set (outbox s i). e = CoreStopped \<or>
        (\<exists>a < N. e = NetPublish (req_msg ph a) \<or> e = NetPublish (cnf_msg ph a) \<or> e = NetPublish (pub_msg ph a))) \<and>
     (\<forall>a < N. flight N (req_msg ph a) s = (if a \<in> issued N par H - H then 1 else 0)) \<and>
     (\<forall>a < N. tracked ph a \<longrightarrow>
        flight N (cnf_msg ph a) s = (if complete N par H K a \<and> a \<notin> K then 1 else 0)) \<and>
     (\<not> core_running s \<or> (\<exists>i < N. CoreStopped \<in> set (outbox s i)) \<longleftrightarrow> 0 \<in> K)"

section \<open>Messages on their way\<close>

lemma sum_upd_nat:
  fixes f :: "nat \<Rightarrow> nat"
  assumes "i < N"
  shows "(\<Sum>j<N. if j = i then y else f j) + f i = (\<Sum>j<N. f j) + y"
proof -
  have "(\<Sum>j<N. f j) = f i + (\<Sum>j\<in>{..<N} - {i}. f j)"
    using assms by (simp add: sum.remove)
  moreover have "(\<Sum>j<N. if j = i then y else f j) = y + (\<Sum>j\<in>{..<N} - {i}. f j)"
    using assms by (simp add: sum.remove)
  ultimately show ?thesis by simp
qed

lemma flight_handle:
  assumes "i < N" and "inbox s i = m # ms" and "outbox s i = []"
  shows "flight N x (s\<lparr>actors := t, inbox := (inbox s)(i := ms), outbox := (outbox s)(i := es)\<rparr>) + (if x = m then 1 else 0) =
    flight N x s + count_list es (NetPublish x)"
proof -
  let ?f = "\<lambda>j. count_list (inbox s j) x + count_list (outbox s j) (NetPublish x)"
  let ?y = "count_list ms x + count_list es (NetPublish x)"
  have "flight N x (s\<lparr>actors := t, inbox := (inbox s)(i := ms), outbox := (outbox s)(i := es)\<rparr>) =
      (\<Sum>j<N. if j = i then ?y else ?f j)"
    unfolding flight_def by (intro sum.cong) auto
  then have "flight N x (s\<lparr>actors := t, inbox := (inbox s)(i := ms), outbox := (outbox s)(i := es)\<rparr>) + ?f i =
      flight N x s + ?y"
    using sum_upd_nat [OF assms(1), of ?y ?f] unfolding flight_def by linarith
  then show ?thesis using assms(2,3) by (auto split: if_splits)
qed

lemma flight_pop_effect:
  assumes "i < N" and "outbox s i = e # es"
  shows "flight N x (s\<lparr>outbox := (outbox s)(i := es)\<rparr>) + (if e = NetPublish x then 1 else 0) = flight N x s"
proof -
  let ?f = "\<lambda>j. count_list (inbox s j) x + count_list (outbox s j) (NetPublish x)"
  let ?y = "count_list (inbox s i) x + count_list es (NetPublish x)"
  have "flight N x (s\<lparr>outbox := (outbox s)(i := es)\<rparr>) = (\<Sum>j<N. if j = i then ?y else ?f j)"
    unfolding flight_def by (intro sum.cong) auto
  then have "flight N x (s\<lparr>outbox := (outbox s)(i := es)\<rparr>) + ?f i = flight N x s + ?y"
    using sum_upd_nat [OF assms(1), of ?y ?f] unfolding flight_def by linarith
  then show ?thesis using assms(2) by (auto split: if_splits)
qed

lemma flight_broadcast:
  "flight N x (broadcast m s) = flight N x s + (if x = m then card {j. j < N \<and> tables s j m \<noteq> None} else 0)"
proof -
  have "flight N x (broadcast m s) =
      (\<Sum>j<N. (count_list (inbox s j) x + count_list (outbox s j) (NetPublish x)) +
        (if x = m \<and> tables s j m \<noteq> None then 1 else 0))"
    unfolding flight_def broadcast_def by (intro sum.cong) auto
  also have "\<dots> = flight N x s + (\<Sum>j<N. if x = m \<and> tables s j m \<noteq> None then 1 else 0)"
    by (simp add: sum.distrib flight_def)
  also have "(\<Sum>j<N. if x = m \<and> tables s j m \<noteq> None then 1 else (0 :: nat)) =
      (if x = m then card {j. j < N \<and> tables s j m \<noteq> None} else 0)"
    by (simp add: sum.If_cases Int_def lessThan_def)
  finally show ?thesis .
qed

lemma flight_pos: "i < N \<Longrightarrow> m \<in> set (inbox s i) \<Longrightarrow> 0 < flight N m s"
proof -
  assume i: "i < N" and m: "m \<in> set (inbox s i)"
  have "0 < count_list (inbox s i) m" using m count_list_0_iff [of "inbox s i" m] by blast
  also have "\<dots> \<le> flight N m s"
    unfolding flight_def using i member_le_sum [of i "{..<N}"
      "\<lambda>i. count_list (inbox s i) m + count_list (outbox s i) (NetPublish m)"] by simp
  finally show ?thesis .
qed

lemma flight_out_pos: "i < N \<Longrightarrow> NetPublish m \<in> set (outbox s i) \<Longrightarrow> 0 < flight N m s"
proof -
  assume i: "i < N" and m: "NetPublish m \<in> set (outbox s i)"
  have "0 < count_list (outbox s i) (NetPublish m)"
    using m count_list_0_iff [of "outbox s i" "NetPublish m"] by blast
  also have "\<dots> \<le> flight N m s"
    unfolding flight_def using i member_le_sum [of i "{..<N}"
      "\<lambda>i. count_list (inbox s i) m + count_list (outbox s i) (NetPublish m)"] by simp
  finally show ?thesis .
qed

lemma listener_count:
  assumes "life_tables N par s" and "tree_ok N par"
  shows "a < N \<Longrightarrow> card {j. j < N \<and> tables s j (req_msg ph a) \<noteq> None} = 1"
    "a < N \<Longrightarrow> tracked ph a \<Longrightarrow> card {j. j < N \<and> tables s j (cnf_msg ph a) \<noteq> None} = 1"
    "card {j. j < N \<and> tables s j (pub_msg ph a) \<noteq> None} = 0"
    "\<not> tracked ph a \<Longrightarrow> card {j. j < N \<and> tables s j (cnf_msg ph a) \<noteq> None} = 0"
proof -
  have "a < N \<Longrightarrow> {j. j < N \<and> tables s j (req_msg ph a) \<noteq> None} = {a}"
    unfolding listeners [OF assms(1)] by auto
  then show "a < N \<Longrightarrow> card {j. j < N \<and> tables s j (req_msg ph a) \<noteq> None} = 1" by simp
  have "{j. j < N \<and> tables s j (cnf_msg ph a) \<noteq> None} = {if a = 0 then 0 else par a}"
    if a: "a < N" "tracked ph a"
  proof -
    have "0 < a \<Longrightarrow> par a < N" using a(1) assms(2) by (force simp: tree_ok_def)
    then show ?thesis
      unfolding listeners [OF assms(1)] using a by (auto simp: tracked_def)
  qed
  then show "a < N \<Longrightarrow> tracked ph a \<Longrightarrow> card {j. j < N \<and> tables s j (cnf_msg ph a) \<noteq> None} = 1"
    by simp
  show "card {j. j < N \<and> tables s j (pub_msg ph a) \<noteq> None} = 0"
    using listeners(3) [OF assms(1)] by simp
  show "\<not> tracked ph a \<Longrightarrow> card {j. j < N \<and> tables s j (cnf_msg ph a) \<noteq> None} = 0"
    unfolding listeners [OF assms(1)] by (auto simp: tracked_def)
qed

section \<open>The sets of handled messages\<close>

lemma complete_requested:
  assumes "tree_ok N par" and "H \<subseteq> issued N par H" and "K \<subseteq> {a. a < N \<and> tracked ph a \<and> complete N par H K a}"
  shows "a < N \<Longrightarrow> complete N par H K a \<Longrightarrow> a \<in> H"
proof (induction "N - a" arbitrary: a rule: less_induct)
  case less
  show ?case
  proof (cases "kids N par a")
    case Nil
    with less.prems show ?thesis by (simp add: complete_def)
  next
    case (Cons c cs)
    then have c: "0 < c" "c < N" "par c = a" using set_kids [of c N par a] by auto
    then have "c \<in> K" using less.prems(2) Cons by (auto simp: complete_def)
    then have "complete N par H K c" using assms(3) by blast
    moreover have "a < c" using assms(1) c by (auto simp: tree_ok_def)
    ultimately have "c \<in> H" using less.hyps [of c] c(2) by simp
    then have "c \<in> issued N par H" using assms(2) by blast
    then show ?thesis using c by (auto simp: issued_def)
  qed
qed

lemma complete_mono: "H \<subseteq> H' \<Longrightarrow> K \<subseteq> K' \<Longrightarrow> complete N par H K a \<Longrightarrow> complete N par H' K' a"
  unfolding complete_def by (metis order_trans subsetD)

lemma phase_invD:
  assumes "phase_inv N par ph H K s"
  shows "H \<subseteq> issued N par H" "K \<subseteq> {a. a < N \<and> tracked ph a \<and> complete N par H K a}" "life_tables N par s"
    "\<forall>i < N. life_actor i (kids N par i)
        (if complete N par H K i then phase_after ph else phase_before ph) (counted N par K i) (actors s i)"
    "\<forall>i < N. \<forall>m \<in> set (inbox s i). tables s i m \<noteq> None \<and> (\<exists>a < N. m = req_msg ph a \<or> m = cnf_msg ph a)"
    "\<forall>i < N. \<forall>e \<in> set (outbox s i). e = CoreStopped \<or>
        (\<exists>a < N. e = NetPublish (req_msg ph a) \<or> e = NetPublish (cnf_msg ph a) \<or> e = NetPublish (pub_msg ph a))"
    "\<forall>a < N. flight N (req_msg ph a) s = (if a \<in> issued N par H - H then 1 else 0)"
    "\<forall>a < N. tracked ph a \<longrightarrow>
        flight N (cnf_msg ph a) s = (if complete N par H K a \<and> a \<notin> K then 1 else 0)"
    "\<not> core_running s \<or> (\<exists>i < N. CoreStopped \<in> set (outbox s i)) \<longleftrightarrow> 0 \<in> K"
  using assms unfolding phase_inv_def by - (elim conjE, assumption)+

lemma apply_effect_simps [simp]:
  "actors (broadcast m s) = actors s" "tables (broadcast m s) = tables s"
  "outbox (broadcast m s) = outbox s" "core_running (broadcast m s) = core_running s"
  "inbox (broadcast m s) i = (if tables s i m \<noteq> None then inbox s i @ [m] else inbox s i)"
  by (simp_all add: broadcast_def)

text \<open>
  An effect moves its message to the ports that listen for it, which is one port for the messages that
  are tracked, and none for the others.
\<close>

lemma effect_flight:
  assumes tree: "tree_ok N par" and lt: "life_tables N par s" and i: "i < N" and e: "outbox s i = e # es"
    and k: "e = CoreStopped \<or> (\<exists>a < N. e = NetPublish (req_msg ph a) \<or> e = NetPublish (cnf_msg ph a) \<or>
      e = NetPublish (pub_msg ph a))"
  defines "t \<equiv> apply_effect i e (s\<lparr>outbox := (outbox s)(i := es)\<rparr>)"
  shows "flight N (req_msg ph a) t = flight N (req_msg ph a) s"
    "tracked ph a \<Longrightarrow> flight N (cnf_msg ph a) t = flight N (cnf_msg ph a) s"
proof -
  let ?s = "s\<lparr>outbox := (outbox s)(i := es)\<rparr>"
  note pop = flight_pop_effect [OF i e]
  have lt': "life_tables N par ?s" using lt by (simp add: life_tables_def)
  note cnt = listener_count [OF lt' tree]
  from k consider (core) "e = CoreStopped"
    | (req) b where "b < N" "e = NetPublish (req_msg ph b)"
    | (cnf) b where "b < N" "e = NetPublish (cnf_msg ph b)"
    | (pub) b where "b < N" "e = NetPublish (pub_msg ph b)" by blast
  then have "flight N (req_msg ph a) t = flight N (req_msg ph a) s \<and>
      (tracked ph a \<longrightarrow> flight N (cnf_msg ph a) t = flight N (cnf_msg ph a) s)"
  proof cases
    case core
    then have t: "t = ?s\<lparr>core_running := False\<rparr>" by (simp add: t_def apply_effect_def)
    have "flight N x t = flight N x ?s" for x by (simp add: flight_def t)
    then show ?thesis using pop core by simp
  next
    case (req b)
    then have t: "t = broadcast (req_msg ph b) ?s" by (simp add: t_def apply_effect_def)
    show ?thesis unfolding t flight_broadcast
      using req cnt(1) [of b ph] pop [of "req_msg ph a"] pop [of "cnf_msg ph a"] by auto
  next
    case (cnf b)
    then have t: "t = broadcast (cnf_msg ph b) ?s" by (simp add: t_def apply_effect_def)
    show ?thesis unfolding t flight_broadcast
      using cnf cnt(2) [of b ph] pop [of "req_msg ph a"] pop [of "cnf_msg ph a"] by auto
  next
    case (pub b)
    then have t: "t = broadcast (pub_msg ph b) ?s" by (simp add: t_def apply_effect_def)
    show ?thesis unfolding t flight_broadcast
      using pub pop [of "req_msg ph a"] pop [of "cnf_msg ph a"] by auto
  qed
  then show "flight N (req_msg ph a) t = flight N (req_msg ph a) s"
    "tracked ph a \<Longrightarrow> flight N (cnf_msg ph a) t = flight N (cnf_msg ph a) s" by simp_all
qed

text \<open>An effect does not change what has been handled.\<close>

lemma effect_keeps_inv:
  assumes tree: "tree_ok N par" and inv: "phase_inv N par ph H K s" and i: "i < N" and e: "outbox s i = e # es"
  shows "phase_inv N par ph H K (apply_effect i e (s\<lparr>outbox := (outbox s)(i := es)\<rparr>))"
proof -
  let ?s = "s\<lparr>outbox := (outbox s)(i := es)\<rparr>"
  let ?t = "apply_effect i e ?s"
  note d = phase_invD [OF inv]
  have ein: "e \<in> set (outbox s i)" using e by simp
  have k: "e = CoreStopped \<or> (\<exists>a < N. e = NetPublish (req_msg ph a) \<or> e = NetPublish (cnf_msg ph a) \<or>
      e = NetPublish (pub_msg ph a))" using d(6) i ein by blast
  have tab: "tables ?t = tables s" and act: "actors ?t = actors s"
    and out: "outbox ?t = (outbox s)(i := es)"
    using k by (auto simp: apply_effect_def)
  have lt: "life_tables N par ?t" using d(3) by (simp add: life_tables_def tab)
  note fl = effect_flight [OF tree d(3) i e k]
  have inb: "tables ?t j m \<noteq> None \<and> (\<exists>a < N. m = req_msg ph a \<or> m = cnf_msg ph a)"
    if j: "j < N" and m: "m \<in> set (inbox ?t j)" for j m
  proof (cases "m \<in> set (inbox s j)")
    case True
    then show ?thesis using d(5) j tab by simp
  next
    case False
    then obtain x where x: "e = NetPublish x" "m = x" "tables s j x \<noteq> None"
      using m k by (auto simp: apply_effect_def split: if_splits)
    then show ?thesis using k listeners(3) [OF d(3)] tab by auto
  qed
  have outs: "f = CoreStopped \<or> (\<exists>a < N. f = NetPublish (req_msg ph a) \<or> f = NetPublish (cnf_msg ph a) \<or>
      f = NetPublish (pub_msg ph a))" if "j < N" "f \<in> set (outbox ?t j)" for j f
    using d(6) that e unfolding out by (metis fun_upd_apply list.set_intros(2))
  have "(\<not> core_running ?t \<or> (\<exists>j < N. CoreStopped \<in> set (outbox ?t j))) =
      (\<not> core_running s \<or> (\<exists>j < N. CoreStopped \<in> set (outbox s j)))"
  proof (cases "e = CoreStopped")
    case True
    then show ?thesis using i ein by (auto simp: apply_effect_def)
  next
    case False
    then have "core_running ?t = core_running s" using k by (auto simp: apply_effect_def)
    moreover have "(CoreStopped \<in> set (outbox ?t j)) = (CoreStopped \<in> set (outbox s j))" for j
      unfolding out using False e by simp
    ultimately show ?thesis by simp
  qed
  with d(9) have core: "\<not> core_running ?t \<or> (\<exists>j < N. CoreStopped \<in> set (outbox ?t j)) \<longleftrightarrow> 0 \<in> K"
    by simp
  show ?thesis
    unfolding phase_inv_def
  proof (intro conjI)
    show "\<forall>i < N. life_actor i (kids N par i)
        (if complete N par H K i then phase_after ph else phase_before ph) (counted N par K i) (actors ?t i)"
      using d(4) by (simp only: act)
    show "\<forall>a < N. flight N (req_msg ph a) ?t = (if a \<in> issued N par H - H then 1 else 0)"
      using d(7) by (simp only: fl)
    show "\<forall>a < N. tracked ph a \<longrightarrow> flight N (cnf_msg ph a) ?t = (if complete N par H K a \<and> a \<notin> K then 1 else 0)"
      using d(8) fl(2) by simp
  qed (use d(1,2) lt inb outs core in blast)+
qed

text \<open>Handling a message: what has to be checked of the new sets, the actor and its effects.\<close>

lemma handle_inv_intro:
  assumes inv: "phase_inv N par ph H K s" and i: "i < N" and ib: "inbox s i = m # ms" and ob: "outbox s i = []"
    and sets: "H' \<subseteq> issued N par H'" "K' \<subseteq> {a. a < N \<and> tracked ph a \<and> complete N par H' K' a}"
    and actor: "life_actor i (kids N par i)
        (if complete N par H' K' i then phase_after ph else phase_before ph) (counted N par K' i) t"
    and others: "\<And>j. j < N \<Longrightarrow> j \<noteq> i \<Longrightarrow> complete N par H' K' j = complete N par H K j \<and>
        counted N par K' j = counted N par K j"
    and eff: "\<forall>e \<in> set es. e = CoreStopped \<or>
        (\<exists>a < N. e = NetPublish (req_msg ph a) \<or> e = NetPublish (cnf_msg ph a) \<or> e = NetPublish (pub_msg ph a))"
    and req: "\<And>a. a < N \<Longrightarrow> (if a \<in> issued N par H - H then 1 else 0) + count_list es (NetPublish (req_msg ph a)) =
        (if a \<in> issued N par H' - H' then 1 else 0) + (if req_msg ph a = m then 1 else (0 :: nat))"
    and cnf: "\<And>a. a < N \<Longrightarrow> tracked ph a \<Longrightarrow>
        (if complete N par H K a \<and> a \<notin> K then 1 else 0) + count_list es (NetPublish (cnf_msg ph a)) =
        (if complete N par H' K' a \<and> a \<notin> K' then 1 else 0) + (if cnf_msg ph a = m then 1 else (0 :: nat))"
    and core: "CoreStopped \<in> set es \<or> 0 \<in> K \<longleftrightarrow> 0 \<in> K'"
  shows "phase_inv N par ph H' K'
    (s\<lparr>actors := (actors s)(i := t), inbox := (inbox s)(i := ms), outbox := (outbox s)(i := es)\<rparr>)"
proof -
  let ?t = "s\<lparr>actors := (actors s)(i := t), inbox := (inbox s)(i := ms), outbox := (outbox s)(i := es)\<rparr>"
  note d = phase_invD [OF inv]
  note fl = flight_handle [OF i ib ob, where t = "(actors s)(i := t)" and es = es]
  have lt: "life_tables N par ?t" using d(3) by (simp add: life_tables_def)
  have act: "\<forall>j < N. life_actor j (kids N par j)
      (if complete N par H' K' j then phase_after ph else phase_before ph) (counted N par K' j) (actors ?t j)"
    using d(4) actor others by simp
  have inb: "\<forall>j < N. \<forall>m \<in> set (inbox ?t j). tables ?t j m \<noteq> None \<and> (\<exists>a < N. m = req_msg ph a \<or> m = cnf_msg ph a)"
    using d(5) ib by simp
  have out: "\<forall>j < N. \<forall>e \<in> set (outbox ?t j). e = CoreStopped \<or>
      (\<exists>a < N. e = NetPublish (req_msg ph a) \<or> e = NetPublish (cnf_msg ph a) \<or> e = NetPublish (pub_msg ph a))"
    using d(6) eff by simp
  have fr: "\<forall>a < N. flight N (req_msg ph a) ?t = (if a \<in> issued N par H' - H' then 1 else 0)"
  proof (intro allI impI)
    fix a assume a: "a < N"
    show "flight N (req_msg ph a) ?t = (if a \<in> issued N par H' - H' then 1 else 0)"
      using fl [of "req_msg ph a"] d(7) [rule_format, OF a] req [OF a] by linarith
  qed
  have fc: "\<forall>a < N. tracked ph a \<longrightarrow> flight N (cnf_msg ph a) ?t = (if complete N par H' K' a \<and> a \<notin> K' then 1 else 0)"
  proof (intro allI impI)
    fix a assume a: "a < N" "tracked ph a"
    show "flight N (cnf_msg ph a) ?t = (if complete N par H' K' a \<and> a \<notin> K' then 1 else 0)"
      using fl [of "cnf_msg ph a"] d(8) [rule_format, OF a] cnf [OF a] by linarith
  qed
  have "(\<exists>j < N. CoreStopped \<in> set (outbox ?t j)) \<longleftrightarrow>
      CoreStopped \<in> set es \<or> (\<exists>j < N. CoreStopped \<in> set (outbox s j))"
  proof -
    have "CoreStopped \<in> set (outbox ?t j) \<longleftrightarrow>
        (if j = i then CoreStopped \<in> set es else CoreStopped \<in> set (outbox s j))" for j by simp
    moreover have "CoreStopped \<notin> set (outbox s i)" using ob by simp
    ultimately show ?thesis using i by metis
  qed
  then have cr: "\<not> core_running ?t \<or> (\<exists>j < N. CoreStopped \<in> set (outbox ?t j)) \<longleftrightarrow> 0 \<in> K'"
    using d(9) core by auto
  show ?thesis
    unfolding phase_inv_def using sets lt act inb out fr fc cr by (intro conjI)
qed

lemma count_list_requests:
  "count_list (map (\<lambda>c. NetPublish (req_msg ph c)) cs) (NetPublish (req_msg ph a)) = count_list cs a"
  "count_list (map (\<lambda>c. NetPublish (req_msg ph c)) cs) (NetPublish (cnf_msg ph a)) = 0"
  by (induction cs) simp_all

lemma handle_request_keeps:
  assumes tree: "tree_ok N par" and inv: "phase_inv N par ph H K s" and i: "i < N"
    and ib: "inbox s i = req_msg ph a # ms" and ob: "outbox s i = []" and a: "a < N" and im: "iterates im"
  shows "\<exists>t es. act_each (run_callback n h im user) (ordered_calls im (req_msg ph a) (tables s i)) (actors s i) = Inr (t, es) \<and>
    phase_inv N par ph (insert i H) K
      (s\<lparr>actors := (actors s)(i := t), inbox := (inbox s)(i := ms), outbox := (outbox s)(i := es)\<rparr>) \<and>
    i \<notin> H \<and> length es \<le> N + 1"
proof -
  note d = phase_invD [OF inv]
  have "tables s i (req_msg ph a) \<noteq> None" using d(5) i ib by simp
  then have ai: "a = i" using listeners(1) [OF d(3)] by blast
  have "0 < flight N (req_msg ph a) s" using flight_pos [OF i, of _ s] ib by simp
  then have ii: "i \<in> issued N par H" "i \<notin> H" using d(7) a ai by (auto split: if_splits)
  have nc: "\<not> complete N par H K i" using complete_requested [OF tree d(1,2) i] ii(2) by blast
  let ?cs = "kids N par i"
  have la0: "life_actor i ?cs (phase_before ph) (counted N par K i) (actors s i)"
    using d(4) [rule_format, OF i] nc by simp
  obtain t ks where ks: "mset ks = mset ?cs" and t: "run_callback n h im user (req_callback ph) (actors s i) = Inr (t,
      if ?cs = [] then [NetPublish (pub_msg ph i), NetPublish (cnf_msg ph i)]
      else map (\<lambda>c. NetPublish (req_msg ph c)) ks)"
    and la: "life_actor i ?cs (if ?cs = [] then phase_after ph else phase_before ph) (counted N par K i) t"
    using handle_request [OF la0 im, of n h user ph] by blast
  have ks': "set ks = set ?cs" "distinct ks" "length ks = length ?cs"
    using ks kids_distinct mset_eq_setD mset_eq_imp_distinct_iff mset_eq_length by metis+
  let ?es = "if ?cs = [] then [NetPublish (pub_msg ph i), NetPublish (cnf_msg ph i)]
      else map (\<lambda>c. NetPublish (req_msg ph c)) ks"
  have comp: "complete N par (insert i H) K j = (if j = i \<and> ?cs = [] then True else complete N par H K j)" for j
    by (auto simp: complete_def)
  have iss: "issued N par (insert i H) = issued N par H \<union> set ?cs"
    by (auto simp: issued_def)
  have fresh: "c \<notin> issued N par H \<and> c \<notin> H \<and> c \<noteq> i" if "c \<in> set ?cs" for c
    using that ii(2) d(1) tree by (auto simp: issued_def tree_ok_def)
  have iK: "i \<notin> K" using nc d(2) by blast
  have "phase_inv N par ph (insert i H) K
      (s\<lparr>actors := (actors s)(i := t), inbox := (inbox s)(i := ms), outbox := (outbox s)(i := ?es)\<rparr>)"
  proof (rule handle_inv_intro [OF inv i ib ob])
    show "insert i H \<subseteq> issued N par (insert i H)" using d(1) ii(1) unfolding iss by blast
    show "K \<subseteq> {a. a < N \<and> tracked ph a \<and> complete N par (insert i H) K a}"
      using d(2) by (auto simp: comp)
    show "life_actor i ?cs (if complete N par (insert i H) K i then phase_after ph else phase_before ph)
        (counted N par K i) t" using la nc by (cases "?cs = []") (simp_all add: comp)
    show "\<forall>e \<in> set ?es. e = CoreStopped \<or> (\<exists>a < N. e = NetPublish (req_msg ph a) \<or>
        e = NetPublish (cnf_msg ph a) \<or> e = NetPublish (pub_msg ph a))" using i ks'(1) by auto
    show "CoreStopped \<in> set ?es \<or> 0 \<in> K \<longleftrightarrow> 0 \<in> K" by auto
    show "complete N par (insert i H) K j = complete N par H K j \<and> counted N par K j = counted N par K j"
      if "j < N" "j \<noteq> i" for j using that by (simp add: comp)
    show "(if b \<in> issued N par H - H then 1 else 0) + count_list ?es (NetPublish (req_msg ph b)) =
        (if b \<in> issued N par (insert i H) - insert i H then 1 else 0) +
        (if req_msg ph b = req_msg ph a then 1 else (0 :: nat))" if "b < N" for b
    proof -
      have "count_list ?es (NetPublish (req_msg ph b)) = (if b \<in> set ?cs then 1 else 0)"
        using count_list_distinct [OF ks'(2), of b]
        by (cases "?cs = []") (simp_all add: count_list_requests ks'(1) del: kids_count set_kids)
      then show ?thesis
        using ii ai fresh [of b] unfolding iss by (auto simp del: kids_count set_kids)
    qed
    show "(if complete N par H K b \<and> b \<notin> K then 1 else 0) + count_list ?es (NetPublish (cnf_msg ph b)) =
        (if complete N par (insert i H) K b \<and> b \<notin> K then 1 else 0) +
        (if cnf_msg ph b = req_msg ph a then 1 else (0 :: nat))" if "b < N" "tracked ph b" for b
      using nc iK by (auto simp: comp count_list_requests)
  qed
  moreover have "length ?cs \<le> N" by (simp add: kids_def) (metis diff_zero length_filter_le length_upt)
  moreover have "ordered_calls im (req_msg ph a) (tables s i) = [req_callback ph]"
    using req_calls [OF d(3), of ph a i] ai by (intro ordered_calls_single [OF im]) simp_all
  ultimately show ?thesis
    using t ii(2) i ks'(3) by (intro exI [of _ t] exI [of _ ?es]) (simp add: act_then_def)
qed

lemma handle_confirmation_keeps:
  assumes tree: "tree_ok N par" and inv: "phase_inv N par ph H K s" and i: "i < N"
    and ib: "inbox s i = cnf_msg ph a # ms" and ob: "outbox s i = []" and a: "a < N" and im: "iterates im"
  shows "\<exists>t es. act_each (run_callback n h im user) (ordered_calls im (cnf_msg ph a) (tables s i)) (actors s i) = Inr (t, es) \<and>
    phase_inv N par ph H (insert a K)
      (s\<lparr>actors := (actors s)(i := t), inbox := (inbox s)(i := ms), outbox := (outbox s)(i := es)\<rparr>) \<and>
    a \<notin> K \<and> length es \<le> N + 1"
proof -
  note d = phase_invD [OF inv]
  have "tables s i (cnf_msg ph a) \<noteq> None" using d(5) i ib by simp
  then have li: "0 < a \<and> a < N \<and> par a = i \<or> a = 0 \<and> i = 0 \<and> ph = Stopping"
    using listeners(2) [OF d(3)] by blast
  then have tr: "tracked ph a" by (auto simp: tracked_def)
  have "0 < flight N (cnf_msg ph a) s" using flight_pos [OF i, of _ s] ib by simp
  then have ca: "complete N par H K a" "a \<notin> K" using d(8) [rule_format, OF a tr] by (auto split: if_splits)
  let ?cs = "kids N par i"
  let ?K = "insert a K"
  have comp: "complete N par H ?K j = complete N par H K j \<and> counted N par ?K j = counted N par K j"
    if "a \<notin> set (kids N par j)" for j
    using that by (simp add: complete_def counted_def subset_insert del: set_kids)
  have subK: "?K \<subseteq> {a. a < N \<and> tracked ph a \<and> complete N par H ?K a}"
    using d(2) tr a ca(1) complete_mono [of H H K ?K N par] by blast
  have go: ?thesis if sel: "table_calls (cnf_msg ph a) (tables s i) = [cb]"
    and run: "run_callback n h im user cb (actors s i) = Inr (t, es)"
    and la: "life_actor i ?cs (if complete N par H ?K i then phase_after ph else phase_before ph) (counted N par ?K i) t"
    and eff: "es = (if a = 0 then [CoreStopped] else if set ?cs \<subseteq> ?K
       then [NetPublish (pub_msg ph i), NetPublish (cnf_msg ph i)] else [])"
    for cb t es
  proof -
    have "phase_inv N par ph H ?K
      (s\<lparr>actors := (actors s)(i := t), inbox := (inbox s)(i := ms), outbox := (outbox s)(i := es)\<rparr>)"
    proof (rule handle_inv_intro [OF inv i ib ob d(1) subK la])
      show "complete N par H ?K j = complete N par H K j \<and> counted N par ?K j = counted N par K j"
        if "j < N" "j \<noteq> i" for j using that li by (intro comp) auto
      show "\<forall>e \<in> set es. e = CoreStopped \<or> (\<exists>a < N. e = NetPublish (req_msg ph a) \<or>
        e = NetPublish (cnf_msg ph a) \<or> e = NetPublish (pub_msg ph a))" using i by (auto simp: eff)
      show "CoreStopped \<in> set es \<or> 0 \<in> K \<longleftrightarrow> 0 \<in> ?K" by (auto simp: eff)
      show "(if b \<in> issued N par H - H then 1 else 0) + count_list es (NetPublish (req_msg ph b)) =
        (if b \<in> issued N par H - H then 1 else 0) + (if req_msg ph b = cnf_msg ph a then 1 else (0 :: nat))" for b
        by (simp add: eff)
      show "(if complete N par H K b \<and> b \<notin> K then 1 else 0) + count_list es (NetPublish (cnf_msg ph b)) =
        (if complete N par H ?K b \<and> b \<notin> ?K then 1 else 0) +
        (if cnf_msg ph b = cnf_msg ph a then 1 else (0 :: nat))" if b: "b < N" "tracked ph b" for b
      proof (cases "a \<in> set (kids N par b)")
        case False
        then have c: "complete N par H ?K b = complete N par H K b" using comp by blast
        have "count_list es (NetPublish (cnf_msg ph b)) = 0"
        proof (cases "a = 0")
          case False
          then have "b \<noteq> i" using li \<open>a \<notin> set (kids N par b)\<close> by auto
          then show ?thesis by (simp add: eff)
        qed (simp add: eff)
        then show ?thesis using c ca by auto
      next
        case True
        then have bi: "b = i" "0 < a" "par a = i" using li by auto
        have ne: "?cs \<noteq> []" using True unfolding bi(1) by (metis empty_iff list.set(1))
        have "a \<noteq> i" using bi a tree by (auto simp: tree_ok_def)
        have nc: "\<not> complete N par H K i" using True ca(2) bi(1) ne by (auto simp: complete_def)
        then have "i \<notin> K" using d(2) by blast
        moreover have "complete N par H ?K i \<longleftrightarrow> set ?cs \<subseteq> ?K" using ne by (simp add: complete_def)
        ultimately show ?thesis using nc bi \<open>a \<noteq> i\<close> by (auto simp: eff)
      qed
    qed
    moreover have "length es \<le> N + 1" using i by (auto simp: eff)
    moreover have "ordered_calls im (cnf_msg ph a) (tables s i) = [cb]" by (rule ordered_calls_single [OF im sel]) simp
    ultimately show ?thesis
      using run ca(2) by (intro exI [of _ t] exI [of _ es]) (simp add: act_then_def)
  qed
  have la0: "life_actor i ?cs (if complete N par H K i then phase_after ph else phase_before ph)
      (counted N par K i) (actors s i)" using d(4) i by blast
  show ?thesis
  proof (cases "a = 0")
    case True
    then have r: "i = 0" "ph = Stopping" using li by auto
    have calls: "table_calls (cnf_msg ph a) (tables s i) = [CoreOnStopCnf]"
      using cnf_calls [OF d(3), of ph a i] True r by simp
    have run: "run_callback n h im user CoreOnStopCnf (actors s i) = Inr (actors s i, [CoreStopped])"
      by simp
    have "a \<notin> set ?cs" using True by simp
    then have la: "life_actor i ?cs (if complete N par H ?K i then phase_after ph else phase_before ph)
        (counted N par ?K i) (actors s i)" using la0 comp [of i] by simp
    show ?thesis by (rule go [OF calls run la]) (simp add: True)
  next
    case False
    then have ak: "a \<in> set ?cs" using li by auto
    then have ne: "?cs \<noteq> []" by (metis empty_iff list.set(1))
    have nc: "\<not> set ?cs \<subseteq> K" using ak ca(2) by blast
    then have nci: "\<not> complete N par H K i" using ne by (simp add: complete_def)
    have cc: "counted N par K i = card (set ?cs \<inter> K)" using nc by (simp add: counted_def del: set_kids)
    have ins: "set ?cs \<inter> ?K = insert a (set ?cs \<inter> K)" using ak by blast
    have card: "card (set ?cs \<inter> ?K) = card (set ?cs \<inter> K) + 1"
      unfolding ins using ca(2) by simp
    have len: "length ?cs = card (set ?cs)" by (metis distinct_card kids_distinct)
    have full: "card (set ?cs \<inter> K) + 1 = length ?cs \<longleftrightarrow> set ?cs \<subseteq> ?K"
      unfolding card [symmetric] len
      by (metis List.finite_set card_subset_eq inf.absorb_iff1 inf.cobounded1)
    obtain t where t: "run_callback n h im user (cnf_callback ph) (actors s i) = Inr (t,
        if counted N par K i + 1 = length ?cs then [NetPublish (pub_msg ph i), NetPublish (cnf_msg ph i)] else [])"
      and lt: "if counted N par K i + 1 = length ?cs then life_actor i ?cs (phase_after ph) 0 t
        else life_actor i ?cs (phase_before ph) (counted N par K i + 1) t"
      using handle_confirmation [of i ?cs "phase_before ph" "counted N par K i" "actors s i" n h im user ph] la0 nci
      by auto
    have calls: "table_calls (cnf_msg ph a) (tables s i) = [cnf_callback ph]"
      using cnf_calls [OF d(3), of ph a i] False li by simp
    have ci: "complete N par H ?K i \<longleftrightarrow> set ?cs \<subseteq> ?K" using ne by (simp add: complete_def)
    have ki: "counted N par ?K i = (if set ?cs \<subseteq> ?K then 0 else counted N par K i + 1)"
      unfolding cc card [symmetric] by (simp add: counted_def del: set_kids)
    show ?thesis
    proof (rule go [OF calls t])
      show "life_actor i ?cs (if complete N par H ?K i then phase_after ph else phase_before ph) (counted N par ?K i) t"
        using lt unfolding ci ki by (simp only: cc full split: if_split_asm) simp_all
    qed (simp only: cc full False if_False)
  qed
qed

end
