(* ===== verification/Life_Cycle_Progress.thy ===== *)
theory Life_Cycle_Progress
  imports Life_Cycle_Protocol
begin

text \<open>
  Every step of a start or a stop makes progress, an idle system has finished its phase, and how the two
  phases begin: \<^verbatim>\<open>Core::run\<close> publishes the start request of the root, and the message
  \<^verbatim>\<open>Stop\<close> becomes its stop request.
\<close>


section \<open>Every step makes progress\<close>

definition sys_idle :: "nat \<Rightarrow> ('a, 'u, 'cb) system \<Rightarrow> bool" where
  "sys_idle N s \<longleftrightarrow> (\<forall>i < N. inbox s i = [] \<and> outbox s i = [])"

definition outbox_size :: "nat \<Rightarrow> ('a, 'u, 'cb) system \<Rightarrow> nat" where
  "outbox_size N s = (\<Sum>i<N. length (outbox s i))"

definition work :: "nat \<Rightarrow> nat set \<Rightarrow> nat set \<Rightarrow> ('a, 'u, 'cb) system \<Rightarrow> nat" where
  "work N H K s = (2 * N - card H - card K) * (N + 2) + outbox_size N s"

lemma outbox_size_upd:
  assumes "i < N" and "outbox t = (outbox s)(i := es)"
  shows "outbox_size N t + length (outbox s i) = outbox_size N s + length es"
proof -
  have "(\<Sum>j<N. length (outbox t j)) = (\<Sum>j<N. if j = i then length es else length (outbox s j))"
    unfolding assms(2) by (intro sum.cong) auto
  then show ?thesis
    using sum_upd_nat [OF assms(1), of "length es" "\<lambda>j. length (outbox s j)"] unfolding outbox_size_def by linarith
qed

lemma phase_inv_bounds:
  assumes "phase_inv N par ph H K s"
  shows "H \<subseteq> {..<N}" "K \<subseteq> {..<N}"
  using phase_invD(1,2) [OF assms] by (auto simp: issued_def)

lemma work_handle:
  assumes "X \<subseteq> {..<N}" "H \<subseteq> {..<N}" "insert a X \<subseteq> {..<N}" "a \<notin> X" "k \<le> N + 1"
  shows "(2 * N - card (insert a X) - card H) * (N + 2) + (n + k) < (2 * N - card X - card H) * (N + 2) + n"
proof -
  have fin: "finite X" using assms(1) finite_subset by blast
  have "card (insert a X) \<le> N" "card H \<le> N"
    using card_mono [of "{..<N}"] assms(2,3) by fastforce+
  moreover have "card (insert a X) = card X + 1" using fin assms(4) by simp
  ultimately have "2 * N - card X - card H = (2 * N - card (insert a X) - card H) + 1" by linarith
  then have "(2 * N - card X - card H) * (N + 2) = (2 * N - card (insert a X) - card H) * (N + 2) + (N + 2)"
    by simp
  then show ?thesis using assms(5) by linarith
qed

lemma sys_step:
  assumes tree: "tree_ok N par" and inv: "phase_inv N par ph H K s" and im: "iterates im"
    and ex: "sys_exec N n h im user x s = Some r"
  shows "\<exists>t H' K'. r = Inr t \<and> phase_inv N par ph H' K' t \<and> work N H' K' t < work N H K s"
proof (cases x)
  case (Effect i)
  then obtain e es where i: "i < N" and ob: "outbox s i = e # es"
    and r: "r = Inr (apply_effect i e (s\<lparr>outbox := (outbox s)(i := es)\<rparr>))"
    using ex by (auto simp: sys_exec_def split: if_splits list.splits)
  let ?t = "apply_effect i e (s\<lparr>outbox := (outbox s)(i := es)\<rparr>)"
  have "outbox ?t = (outbox s)(i := es)"
    by (cases e) (simp_all add: apply_effect_def)
  then have "outbox_size N ?t + length (outbox s i) = outbox_size N s + length es"
    by (rule outbox_size_upd [OF i])
  then have "work N H K ?t < work N H K s" using ob by (simp add: work_def)
  then show ?thesis using effect_keeps_inv [OF tree inv i ob] r by blast
next
  case (Handle i)
  then obtain m ms where i: "i < N" and ob: "outbox s i = []" and ib: "inbox s i = m # ms"
    and r: "r = (case act_each (run_callback n h im user) (ordered_calls im m (tables s i)) (actors s i) of
       Inl x \<Rightarrow> Inl x
     | Inr (t, es) \<Rightarrow> Inr (s\<lparr>actors := (actors s)(i := t), inbox := (inbox s)(i := ms), outbox := (outbox s)(i := es)\<rparr>))"
    using ex by (auto simp: sys_exec_def split: if_splits list.splits)
  let ?t = "\<lambda>t es. s\<lparr>actors := (actors s)(i := t), inbox := (inbox s)(i := ms), outbox := (outbox s)(i := es)\<rparr>"
  have size: "outbox_size N (?t t es) = outbox_size N s + length es" for t es
    using outbox_size_upd [OF i, of "?t t es" s es] ob by simp
  obtain a where a: "a < N" "m = req_msg ph a \<or> m = cnf_msg ph a"
    using phase_invD(5) [OF inv] i ib by fastforce
  note b = phase_inv_bounds [OF inv]
  from a(2) show ?thesis
  proof
    assume m: "m = req_msg ph a"
    obtain t es where c: "act_each (run_callback n h im user) (ordered_calls im m (tables s i)) (actors s i) = Inr (t, es)"
      and p: "phase_inv N par ph (insert i H) K (?t t es)" "i \<notin> H" "length es \<le> N + 1"
      using handle_request_keeps [OF tree inv i ib [unfolded m] ob a(1) im, of n h user] m by blast
    have "work N (insert i H) K (?t t es) < work N H K s"
      unfolding work_def size by (rule work_handle [OF b(1) b(2) phase_inv_bounds(1) [OF p(1)] p(2) p(3)])
    then show ?thesis using r c p(1) by auto
  next
    assume m: "m = cnf_msg ph a"
    obtain t es where c: "act_each (run_callback n h im user) (ordered_calls im m (tables s i)) (actors s i) = Inr (t, es)"
      and p: "phase_inv N par ph H (insert a K) (?t t es)" "a \<notin> K" "length es \<le> N + 1"
      using handle_confirmation_keeps [OF tree inv i ib [unfolded m] ob a(1) im, of n h user] m by blast
    have "work N H (insert a K) (?t t es) < work N H K s"
      unfolding work_def size diff_commute [of "2 * N" "card H"]
      by (rule work_handle [OF b(2) b(1) phase_inv_bounds(2) [OF p(1)] p(2) p(3)])
    then show ?thesis using r c p(1) by auto
  qed
qed

lemma sys_run_inv:
  assumes "tree_ok N par" and "phase_inv N par ph H K s" and im: "iterates im" and "sys_run N n h im user as s = Some r"
  shows "\<exists>t H' K'. r = Inr t \<and> phase_inv N par ph H' K' t \<and> work N H' K' t + length as \<le> work N H K s"
  using assms(2,4)
proof (induction as arbitrary: s H K)
  case Nil
  then show ?case by auto
next
  case (Cons a as)
  then obtain r1 where e: "sys_exec N n h im user a s = Some r1" by (auto split: option.splits)
  from sys_step [OF assms(1) Cons.prems(1) im e] obtain t H' K' where
    t: "r1 = Inr t" "phase_inv N par ph H' K' t" "work N H' K' t < work N H K s" by blast
  with Cons.prems(2) e have "sys_run N n h im user as t = Some r" by simp
  from Cons.IH [OF t(2) this] t(3) show ?case by fastforce
qed

lemma sys_idle_stuck: "sys_idle N s \<longleftrightarrow> (\<forall>a. sys_exec N n h im user a s = None)"
proof
  assume i: "sys_idle N s"
  show "\<forall>a. sys_exec N n h im user a s = None"
  proof
    fix a show "sys_exec N n h im user a s = None"
      using i by (cases a) (simp_all add: sys_exec_def sys_idle_def)
  qed
next
  assume st: "\<forall>a. sys_exec N n h im user a s = None"
  have "inbox s i = [] \<and> outbox s i = []" if "i < N" for i
    using st [rule_format, of "Handle i"] st [rule_format, of "Effect i"] that
    by (auto simp: sys_exec_def split: list.splits if_splits)
  then show "sys_idle N s" by (simp add: sys_idle_def)
qed

section \<open>What an idle system has done\<close>

lemma idle_done:
  assumes tree: "tree_ok N par" and inv: "phase_inv N par ph H K s" and idle: "sys_idle N s" and a: "a < N"
  shows "a \<in> H \<and> complete N par H K a \<and> (tracked ph a \<longrightarrow> a \<in> K)"
proof -
  note d = phase_invD [OF inv]
  have fl: "flight N m s = 0" for m using idle by (simp add: flight_def sys_idle_def)
  have iss: "a \<in> issued N par H \<Longrightarrow> a < N \<Longrightarrow> a \<in> H" for a using d(7) fl by (metis DiffI zero_neq_one)
  have H: "a < N \<Longrightarrow> a \<in> H" for a
  proof (induction a rule: less_induct)
    case (less a)
    have "par a \<in> H" if "a \<noteq> 0"
    proof (rule less.IH)
      show "par a < a" using that tree less.prems by (simp add: tree_ok_def)
      then show "par a < N" using less.prems by simp
    qed
    then show ?case using less.prems by (intro iss) (simp_all add: issued_def, blast)
  qed
  have "a < N \<Longrightarrow> complete N par H K a \<and> (tracked ph a \<longrightarrow> a \<in> K)"
  proof (induction "N - a" arbitrary: a rule: less_induct)
    case less
    have "c \<in> K" if "c \<in> set (kids N par a)" for c
    proof -
      have "c < N" "a < c" using that tree by (auto simp: tree_ok_def)
      then show ?thesis using less.hyps [of c] by (auto simp: tracked_def)
    qed
    then have c: "complete N par H K a" using H less.prems by (auto simp: complete_def)
    moreover have "tracked ph a \<Longrightarrow> a \<in> K" using d(8) fl c less.prems by (metis zero_neq_one)
    ultimately show ?case by blast
  qed
  then show ?thesis using H a by blast
qed

lemma idle_all_after:
  assumes "tree_ok N par" and "phase_inv N par ph H K s" and "sys_idle N s" and "i < N"
  shows "life_actor i (kids N par i) (phase_after ph) 0 (actors s i)"
proof -
  have c: "a < N \<Longrightarrow> complete N par H K a \<and> (a \<noteq> 0 \<longrightarrow> a \<in> K)" for a
    using idle_done [OF assms(1-3)] by (auto simp: tracked_def)
  then have "set (kids N par i) \<subseteq> K" by auto
  then have "counted N par K i = 0" by (simp add: counted_def del: set_kids)
  then show ?thesis using phase_invD(4) [OF assms(2)] c assms(4) by fastforce
qed

text \<open>A parent has reached the end of the phase only when its children have.\<close>

lemma children_first:
  assumes inv: "phase_inv N par ph H K s" and i: "i < N" and c: "c \<in> set (kids N par i)"
    and st: "astate (actors s i) = phase_after ph"
  shows "astate (actors s c) = phase_after ph"
proof -
  note d = phase_invD [OF inv]
  have "phase_before ph \<noteq> phase_after ph" by (cases ph) simp_all
  then have "complete N par H K i" using d(4) i st by (auto simp: life_actor_def split: if_splits)
  moreover have "kids N par i \<noteq> []" using c by (metis empty_iff list.set(1))
  ultimately have "c \<in> K" using c by (auto simp: complete_def)
  then have "complete N par H K c" "c < N" using d(2) by auto
  then show ?thesis using d(4) by (simp add: life_actor_def)
qed

lemma complete_root_all:
  assumes tree: "tree_ok N par" and inv: "phase_inv N par ph H K s" and r: "complete N par H K 0" and i: "i < N"
  shows "complete N par H K i"
  using i
proof (induction i rule: less_induct)
  case (less i)
  show ?case
  proof (cases "i = 0")
    case False
    then have p: "par i < i" using tree less.prems by (simp add: tree_ok_def)
    then have "complete N par H K (par i)" using less by simp
    moreover have k: "i \<in> set (kids N par (par i))" using False less.prems by simp
    then have "kids N par (par i) \<noteq> []" by (metis empty_iff list.set(1))
    ultimately have "i \<in> K" using k unfolding complete_def by (metis subsetD)
    then show ?thesis using phase_invD(2) [OF inv] by blast
  qed (simp add: r)
qed

section \<open>How the phases begin\<close>

text \<open>\<^verbatim>\<open>Core::run\<close> publishes the start request of the root, the handler of
  \<^verbatim>\<open>Stop\<close> its stop request.\<close>

definition system_starting :: "nat \<Rightarrow> (nat \<Rightarrow> nat) \<Rightarrow> (nat \<Rightarrow> string) \<Rightarrow> (nat, 'u, 'cb) system" where
  "system_starting N par nm = broadcast (StartReq 0) (system_init nm (\<lambda>i. i) (kids N par))"

lemma flight_requested:
  assumes "tree_ok N par" and "life_tables N par s" and "\<forall>i < N. inbox s i = [] \<and> outbox s i = []"
  shows "flight N m (broadcast (req_msg ph 0) s) = (if m = req_msg ph 0 then 1 else 0)"
proof -
  have "flight N m s = 0" using assms(3) by (simp add: flight_def)
  moreover have "0 < N" using assms(1) by (simp add: tree_ok_def)
  ultimately show ?thesis
    unfolding flight_broadcast using listener_count(1) [OF assms(2,1), of 0 ph] by simp
qed

lemma phase_begin:
  assumes tree: "tree_ok N par" and lt: "life_tables N par s" and idle: "sys_idle N s"
    and act: "\<forall>i < N. life_actor i (kids N par i) (phase_before ph) 0 (actors s i)" and run: "core_running s"
  shows "phase_inv N par ph {} {} (broadcast (req_msg ph 0) s)"
proof -
  let ?s = "broadcast (req_msg ph 0) s"
  have e: "\<forall>i < N. inbox s i = [] \<and> outbox s i = []" using idle by (simp add: sys_idle_def)
  have N: "0 < N" using tree by (simp add: tree_ok_def)
  have iss: "issued N par {} = {0}" using N by (auto simp: issued_def)
  have nc: "\<not> complete N par {} {} i" for i by (simp add: complete_def)
  have ct: "counted N par {} i = 0" for i by (simp add: counted_def)
  note fl = flight_requested [OF tree lt e, of _ ph]
  have lt': "life_tables N par ?s" using lt by (simp add: life_tables_def)
  show ?thesis
    unfolding phase_inv_def
  proof (intro conjI)
    show "\<forall>i < N. life_actor i (kids N par i)
        (if complete N par {} {} i then phase_after ph else phase_before ph) (counted N par {} i) (actors ?s i)"
      using act by (simp add: nc ct)
    show "\<forall>i < N. \<forall>m \<in> set (inbox ?s i). tables ?s i m \<noteq> None \<and> (\<exists>a < N. m = req_msg ph a \<or> m = cnf_msg ph a)"
      using e N by auto
    show "\<forall>i < N. \<forall>x \<in> set (outbox ?s i). x = CoreStopped \<or>
        (\<exists>a < N. x = NetPublish (req_msg ph a) \<or> x = NetPublish (cnf_msg ph a) \<or> x = NetPublish (pub_msg ph a))"
      using e by simp
    show "\<forall>a < N. flight N (req_msg ph a) ?s = (if a \<in> issued N par {} - {} then 1 else 0)"
      by (simp add: fl iss)
    show "\<forall>a < N. tracked ph a \<longrightarrow>
        flight N (cnf_msg ph a) ?s = (if complete N par {} {} a \<and> a \<notin> {} then 1 else 0)"
      by (simp add: fl nc)
    show "\<not> core_running ?s \<or> (\<exists>i < N. CoreStopped \<in> set (outbox ?s i)) \<longleftrightarrow> 0 \<in> {}"
      using e run by simp
  qed (use lt' in simp_all)
qed

lemma start_begin:
  assumes "tree_ok N par"
  shows "phase_inv N par Starting {} {} (system_starting N par nm)"
proof -
  let ?s = "system_init nm (\<lambda>i. i) (kids N par)"
  have i: "sys_idle N ?s" "core_running ?s" by (simp_all add: sys_idle_def system_init_def Let_def)
  have "\<forall>i < N. life_actor i (kids N par i) (phase_before Starting) 0 (actors ?s i)"
    using system_init_facts(1) [where nm = nm and ty = "\<lambda>i. i" and cs = "kids N par"] by (auto simp: fresh_actor_def life_actor_def)
  from phase_begin [OF assms life_tables_init i(1) this i(2)] show ?thesis
    by (simp add: system_starting_def)
qed

text \<open>After the start, the system is ready to stop.\<close>

lemma stop_begin:
  assumes tree: "tree_ok N par" and inv: "phase_inv N par Starting H K s" and idle: "sys_idle N s"
  shows "phase_inv N par Stopping {} {} (broadcast (StopReq 0) s)"
proof -
  note d = phase_invD [OF inv]
  have "0 \<notin> K" using d(2) by (auto simp: tracked_def)
  then have run: "core_running s" using d(9) by blast
  have "\<forall>i < N. life_actor i (kids N par i) (phase_before Stopping) 0 (actors s i)"
    using idle_all_after [OF tree inv idle] by simp
  from phase_begin [OF tree d(3) idle this run] show ?thesis by simp
qed

section \<open>The stop message\<close>

lemma stop_message_handled:
  assumes tree: "tree_ok N par" and lt: "life_tables N par s" and idle: "sys_idle N s"
    and act: "actor_type (actors s 0) = 0" and im: "iterates im"
  defines "s1 \<equiv> (broadcast Stop s)\<lparr>inbox := inbox s, outbox := (outbox s)(0 := [NetPublish (StopReq 0)])\<rparr>"
  shows "sys_exec N n h im user x (broadcast Stop s) = Some r \<Longrightarrow> r = Inr s1"
    "sys_exec N n h im user x s1 = Some r \<Longrightarrow> r = Inr (broadcast (StopReq 0) s)"
    "sys_exec N n h im user (Handle 0) (broadcast Stop s) \<noteq> None"
    "sys_exec N n h im user (Effect 0) s1 \<noteq> None"
proof -
  have N: "0 < N" using tree by (simp add: tree_ok_def)
  have e: "inbox s i = []" "outbox s i = []" if "i < N" for i using idle that by (simp_all add: sys_idle_def)
  have calls: "table_calls Stop (tables s i) = (if i = 0 then [CoreOnStop] else [])" for i
    using lt by (simp add: life_tables_def)
  have ord: "ordered_calls im Stop (tables s 0) = [CoreOnStop]"
    using calls [of 0] by (intro ordered_calls_single [OF im]) simp_all
  have tab: "tables s i Stop \<noteq> None \<longleftrightarrow> i = 0" for i
    using lt calls [of i] by (simp add: life_tables_def)
  have ib: "inbox (broadcast Stop s) = (inbox s)(0 := [Stop])"
    using e(1) [OF N] tab by (auto simp: broadcast_def fun_eq_iff)
  have handled: "sys_exec N n h im user (Handle 0) (broadcast Stop s) = Some (Inr s1)"
  proof -
    have "sys_exec N n h im user (Handle 0) (broadcast Stop s) = Some (Inr ((broadcast Stop s)\<lparr>
        actors := actors s, inbox := (inbox s)(0 := []), outbox := (outbox s)(0 := [NetPublish (StopReq 0)])\<rparr>))"
      using N e [OF N] ord act
      by (simp add: sys_exec_def ib act_then_def del: apply_effect_simps(5))
    moreover have "(inbox s)(0 := []) = inbox s" using e(1) [OF N] by auto
    ultimately show ?thesis by (simp add: s1_def broadcast_def)
  qed
  then show "sys_exec N n h im user (Handle 0) (broadcast Stop s) \<noteq> None" by simp
  show "r = Inr s1" if x: "sys_exec N n h im user x (broadcast Stop s) = Some r"
  proof (cases x)
    case (Handle i)
    then have "i = 0" using x e ib by (auto simp: sys_exec_def split: if_splits list.splits)
    then show ?thesis using x handled Handle by simp
  next
    case (Effect i)
    then show ?thesis using x e by (auto simp: sys_exec_def split: if_splits)
  qed
  have sent: "sys_exec N n h im user (Effect 0) s1 = Some (Inr (broadcast (StopReq 0) s))"
  proof -
    have "(outbox s)(0 := []) = outbox s" using e(2) [OF N] by auto
    then have "s1\<lparr>outbox := (outbox s1)(0 := [])\<rparr> = s" by (simp add: s1_def broadcast_def)
    moreover have "outbox s1 0 = [NetPublish (StopReq 0)]" by (simp add: s1_def)
    ultimately show ?thesis using N by (simp add: sys_exec_def apply_effect_def)
  qed
  then show "sys_exec N n h im user (Effect 0) s1 \<noteq> None" by simp
  show "r = Inr (broadcast (StopReq 0) s)" if x: "sys_exec N n h im user x s1 = Some r"
  proof (cases x)
    case (Handle i)
    then show ?thesis using x e by (auto simp: sys_exec_def s1_def split: if_splits)
  next
    case (Effect i)
    then have "i = 0" using x e by (auto simp: sys_exec_def s1_def split: if_splits)
    then show ?thesis using x sent Effect by simp
  qed
qed

text \<open>A run from the stop message on has at most the first step, or is a run from the stop request on.\<close>

lemma stop_message_run:
  assumes tree: "tree_ok N par" and lt: "life_tables N par s" and idle: "sys_idle N s"
    and act: "actor_type (actors s 0) = 0" and im: "iterates im"
    and run: "sys_run N n h im user bs (broadcast Stop s) = Some r"
  shows "\<exists>u. r = Inr u \<and> actors u = actors s \<and> core_running u = core_running s \<and> length bs \<le> 1 \<and>
      (\<exists>x. sys_exec N n h im user x u \<noteq> None) \<or>
    (\<exists>cs. length bs = length cs + 2 \<and> sys_run N n h im user cs (broadcast (StopReq 0) s) = Some r)"
proof -
  note st = stop_message_handled [OF tree lt idle act im, of n h user]
  let ?s1 = "(broadcast Stop s)\<lparr>inbox := inbox s, outbox := (outbox s)(0 := [NetPublish (StopReq 0)])\<rparr>"
  consider "bs = []" | x where "bs = [x]" | x y cs where "bs = x # y # cs"
    by (metis list.exhaust)
  then show ?thesis
  proof cases
    case 1
    then have "r = Inr (broadcast Stop s)" using run by simp
    then show ?thesis using 1 st(3) by (intro disjI1 exI [of _ "broadcast Stop s"]) (simp, blast)
  next
    case (2 x)
    then obtain r1 where "sys_exec N n h im user x (broadcast Stop s) = Some r1"
      using run by (auto split: option.splits)
    then have "r = Inr ?s1" using run 2 st(1) by fastforce
    then show ?thesis using 2 st(4) by auto
  next
    case (3 x y cs)
    then obtain r1 where x: "sys_exec N n h im user x (broadcast Stop s) = Some r1"
      using run by (auto split: option.splits)
    then have r1: "r1 = Inr ?s1" by (rule st(1))
    then have "sys_run N n h im user (y # cs) ?s1 = Some r" using run 3 x by simp
    moreover then obtain r2 where y: "sys_exec N n h im user y ?s1 = Some r2"
      by (auto split: option.splits)
    then have "r2 = Inr (broadcast (StopReq 0) s)" by (rule st(2))
    ultimately have "sys_run N n h im user cs (broadcast (StopReq 0) s) = Some r" using y by simp
    then show ?thesis using 3 by auto
  qed
qed

lemma start_work: "work N {} {} (system_starting N par nm) = 2 * N * (N + 2)"
  by (simp add: work_def outbox_size_def system_starting_def system_init_def Let_def)

end
