(* ===== verification/Life_Cycle_Sample.thy ===== *)
theory Life_Cycle_Sample
  imports Life_Cycle_Progress
begin

text \<open>
  Small systems on which runs are evaluated: for the witnesses of the properties, and for the runs that
  show what the restrictions of the properties are worth.
\<close>

section \<open>A sample system\<close>

text \<open>A root with one child, the steps of its start and of its stop.\<close>

definition sample_run :: "nat \<Rightarrow> sys_action list \<Rightarrow> (nat, nat, nat) system \<Rightarrow> (fault + (nat, nat, nat) system) option" where
  "sample_run N = sys_run N 1 (\<lambda>e. False) (newest_first ''message'') (\<lambda>c. [])"

abbreviation sample_start :: "(nat, nat, nat) system" where
  "sample_start \<equiv> system_starting 2 (\<lambda>_. 0) (\<lambda>_. ''actor'')"

definition start_steps :: "sys_action list" where
  "start_steps = [Handle 0, Effect 0, Handle 1, Effect 1, Effect 1, Handle 0, Effect 0, Effect 0]"

definition stop_steps :: "sys_action list" where
  "stop_steps = [Handle 0, Effect 0, Handle 0, Effect 0, Handle 1, Effect 1, Effect 1, Handle 0, Effect 0,
     Effect 0, Handle 0, Effect 0]"

lemma sample_tree: "tree_ok 2 (\<lambda>_. 0)"
  by (simp add: tree_ok_def)

text \<open>
  To evaluate a run, the functions of the state are tabulated after every step; only the actors below
  \<open>N\<close> matter.
\<close>

definition agree :: "nat \<Rightarrow> ('a, 'u, 'cb) system \<Rightarrow> ('a, 'u, 'cb) system \<Rightarrow> bool" where
  "agree N s t \<longleftrightarrow> core_running s = core_running t \<and> (\<forall>i < N. actors s i = actors t i \<and>
     tables s i = tables t i \<and> inbox s i = inbox t i \<and> outbox s i = outbox t i)"

definition tabulate_state :: "nat \<Rightarrow> ('a, 'u, 'cb) system \<Rightarrow> ('a, 'u, 'cb) system" where
  "tabulate_state N s = (let as = map (actors s) [0..<N]; ts = map (tables s) [0..<N];
       is = map (inbox s) [0..<N]; os = map (outbox s) [0..<N]
     in \<lparr>actors = (!) as, tables = (!) ts, inbox = (!) is, outbox = (!) os, core_running = core_running s\<rparr>)"

fun run_tabulated :: "nat \<Rightarrow> sys_action list \<Rightarrow> (nat, nat, nat) system \<Rightarrow> (nat, nat, nat) system option" where
  "run_tabulated N [] s = Some s"
| "run_tabulated N (a # as) s =
     (case sys_exec N 1 (\<lambda>e. False) (newest_first ''message'') (\<lambda>c. []) a s of
        Some (Inr t) \<Rightarrow> run_tabulated N as (tabulate_state N t)
      | _ \<Rightarrow> None)"

lemma agree_tabulate: "agree N s t \<Longrightarrow> agree N s (tabulate_state N t)"
  by (simp add: agree_def tabulate_state_def Let_def)

lemma agree_broadcast: "agree N s t \<Longrightarrow> agree N (broadcast m s) (broadcast m t)"
  by (simp add: agree_def)

lemma agree_exec:
  assumes "agree N s t" and "sys_exec N n h im user x t = Some (Inr t')"
  shows "\<exists>s'. sys_exec N n h im user x s = Some (Inr s') \<and> agree N s' t'"
proof (cases x)
  case (Handle i)
  then have i: "i < N" using assms(2) by (simp add: sys_exec_def split: if_splits)
  then show ?thesis using assms Handle
    by (auto simp: sys_exec_def agree_def split: if_splits list.splits sum.splits)
next
  case (Effect i)
  then have i: "i < N" using assms(2) by (simp add: sys_exec_def split: if_splits)
  obtain e es where o: "outbox t i = e # es" "outbox s i = e # es"
    using i assms Effect by (auto simp: sys_exec_def agree_def split: list.splits)
  have "agree N (s\<lparr>outbox := (outbox s)(i := es)\<rparr>) (t\<lparr>outbox := (outbox t)(i := es)\<rparr>)"
    using assms(1) by (simp add: agree_def)
  then have "agree N (apply_effect i e (s\<lparr>outbox := (outbox s)(i := es)\<rparr>))
      (apply_effect i e (t\<lparr>outbox := (outbox t)(i := es)\<rparr>))"
    using i by (cases e) (simp_all add: apply_effect_def agree_def)
  then show ?thesis using assms(2) Effect i o by (auto simp: sys_exec_def)
qed

lemma run_tabulated_agrees:
  "agree N s t \<Longrightarrow> run_tabulated N as t = Some t' \<Longrightarrow>
   \<exists>s'. sample_run N as s = Some (Inr s') \<and> agree N s' t'"
proof (induction as arbitrary: s t)
  case Nil
  then show ?case by (simp add: sample_run_def)
next
  case (Cons a as)
  then obtain u where u: "sys_exec N 1 (\<lambda>e. False) (newest_first ''message'') (\<lambda>c. []) a t = Some (Inr u)"
    "run_tabulated N as (tabulate_state N u) = Some t'"
    by (auto split: option.splits sum.splits)
  from agree_exec [OF Cons.prems(1) u(1)] obtain s' where
    s: "sys_exec N 1 (\<lambda>e. False) (newest_first ''message'') (\<lambda>c. []) a s = Some (Inr s')" "agree N s' u" by blast
  from Cons.IH [OF agree_tabulate [OF s(2)] u(2)] s(1) show ?case by (simp add: sample_run_def)
qed

text \<open>Two runs, with a message broadcast in between; only what \<open>P\<close> and \<open>Q\<close> see is kept.\<close>

definition evaluates ::
  "nat \<Rightarrow> sys_action list \<Rightarrow> ((nat, nat, nat) system \<Rightarrow> bool) \<Rightarrow> sys_action list \<Rightarrow>
     ((nat, nat, nat) system \<Rightarrow> bool) \<Rightarrow> (nat, nat, nat) system \<Rightarrow> bool" where
  "evaluates N as P bs Q s = (case run_tabulated N as (tabulate_state N s) of
      None \<Rightarrow> False
    | Some t \<Rightarrow> P t \<and> (case run_tabulated N bs (tabulate_state N (broadcast Stop t)) of
        None \<Rightarrow> False | Some u \<Rightarrow> Q u))"

lemma agree_refl: "agree N s s"
  by (simp add: agree_def)

lemma evaluates_runs:
  assumes "evaluates N as P bs Q s"
  shows "\<exists>t u. sample_run N as s = Some (Inr t) \<and> sample_run N bs (broadcast Stop t) = Some (Inr u) \<and>
    (\<exists>t' u'. agree N t t' \<and> P t' \<and> agree N u u' \<and> Q u')"
proof -
  obtain t' u' where t: "run_tabulated N as (tabulate_state N s) = Some t'" "P t'"
    "run_tabulated N bs (tabulate_state N (broadcast Stop t')) = Some u'" "Q u'"
    using assms by (auto simp: evaluates_def split: option.splits)
  from run_tabulated_agrees [OF agree_tabulate [OF agree_refl] t(1)] obtain t where
    a: "sample_run N as s = Some (Inr t)" "agree N t t'" by blast
  from run_tabulated_agrees [OF agree_tabulate [OF agree_broadcast [OF a(2)]] t(3)] obtain u where
    "sample_run N bs (broadcast Stop t) = Some (Inr u)" "agree N u u'" by blast
  then show ?thesis using a t by blast
qed

lemma evaluates_run:
  assumes "case run_tabulated N as (tabulate_state N s) of None \<Rightarrow> False | Some t \<Rightarrow> P t"
  shows "\<exists>t t'. sample_run N as s = Some (Inr t) \<and> agree N t t' \<and> P t'"
proof -
  obtain t' where t: "run_tabulated N as (tabulate_state N s) = Some t'" "P t'"
    using assms by (auto split: option.splits)
  from run_tabulated_agrees [OF agree_tabulate [OF agree_refl] t(1)] t(2) show ?thesis by blast
qed

lemma sample_evaluates:
  "evaluates 2 start_steps
     (\<lambda>t. inbox t 0 = [] \<and> outbox t 0 = [] \<and> inbox t 1 = [] \<and> outbox t 1 = [] \<and> astate (actors t 0) = STARTED)
     stop_steps
     (\<lambda>u. inbox u 0 = [] \<and> outbox u 0 = [] \<and> inbox u 1 = [] \<and> outbox u 1 = [] \<and> \<not> core_running u) sample_start"
  by code_simp

lemma sys_idle_two: "sys_idle 2 t \<longleftrightarrow> inbox t 0 = [] \<and> outbox t 0 = [] \<and> inbox t 1 = [] \<and> outbox t 1 = []"
  by (auto simp: sys_idle_def less_2_cases_iff)

lemma sample_stopped:
  "\<exists>t u. sample_run 2 start_steps sample_start = Some (Inr t) \<and> sys_idle 2 t \<and> astate (actors t 0) = STARTED \<and>
     sample_run 2 stop_steps (broadcast Stop t) = Some (Inr u) \<and> sys_idle 2 u \<and> \<not> core_running u"
proof -
  have P: "\<exists>x y. P x y \<Longrightarrow> (\<And>x y. P x y \<Longrightarrow> Q x y) \<Longrightarrow> \<exists>x y. Q x y" for P Q :: "'x \<Rightarrow> 'y \<Rightarrow> bool" by blast
  show ?thesis
    by (rule P [OF evaluates_runs [OF sample_evaluates]]) (auto simp: sys_idle_two agree_def)
qed

end
