(* ===== verification/Life_Cycle_Properties.thy ===== *)
theory Life_Cycle_Properties
  imports Life_Cycle_Sample
begin

text \<open>
  Start and stop of a tree of actors: both terminate, never fault, and end with every actor started or
  stopped; a parent confirms after its children, and \<^verbatim>\<open>Core::run\<close> is told to return only when all
  actors have stopped. The last section shows what two restrictions are worth: children of the same type,
  and a stop request that arrives while the children are still starting.
\<close>

text \<open>
  C8: Starting a system: in whatever order the hash maps of children and callbacks are iterated, every
  sequence of steps from the start request of the root is free of errors and
  has at most 2 N (N + 2) steps; as long as some message or effect is pending a step is possible; and when
  nothing is pending every actor is \<^verbatim>\<open>STARTED\<close>.
\<close>

theorem start_completes:
  assumes "tree_ok N par" and im: "iterates im" and "sys_run N n h im user as (system_starting N par nm) = Some r"
  shows "\<exists>t. r = Inr t \<and> length as \<le> 2 * N * (N + 2) \<and>
    (if sys_idle N t then \<forall>i < N. astate (actors t i) = STARTED
     else \<exists>x. sys_exec N n h im user x t \<noteq> None)"
proof -
  obtain t H K where t: "r = Inr t" "phase_inv N par Starting H K t"
    "work N H K t + length as \<le> 2 * N * (N + 2)"
    using sys_run_inv [OF assms(1) start_begin [OF assms(1)] im assms(3)] unfolding start_work by blast
  have "\<exists>x. sys_exec N n h im user x t \<noteq> None" if "\<not> sys_idle N t"
    using that sys_idle_stuck [of N t n h im user] by blast
  moreover have "astate (actors t i) = STARTED" if "sys_idle N t" "i < N" for i
    using idle_all_after [OF assms(1) t(2) that] by (simp add: life_actor_def)
  ultimately show ?thesis using t(1,3) by auto
qed

lemma start_completes_witness:
  "\<exists>t. sample_run 2 start_steps sample_start = Some (Inr t) \<and> (\<forall>i < 2. astate (actors t i) = STARTED)"
proof -
  obtain t where t: "sample_run 2 start_steps sample_start = Some (Inr t)" "sys_idle 2 t"
    using sample_stopped by blast
  from start_completes [OF sample_tree newest_first_iterates t(1) [unfolded sample_run_def]] t show ?thesis by auto
qed

text \<open>
  Lemma: Children start first: at every moment of the start, an actor is \<^verbatim>\<open>STARTED\<close> only if
  all its children are.
\<close>

theorem children_start_first:
  assumes "tree_ok N par" and im: "iterates im" and "sys_run N n h im user as (system_starting N par nm) = Some (Inr t)"
    and "i < N" and "astate (actors t i) = STARTED" and "c \<in> set (kids N par i)"
  shows "astate (actors t c) = STARTED"
proof -
  obtain H K where "phase_inv N par Starting H K t"
    using sys_run_inv [OF assms(1) start_begin [OF assms(1)] im assms(3)] by blast
  from children_first [OF this assms(4,6)] assms(5) show ?thesis by simp
qed

lemma children_start_first_witness:
  "\<exists>t. sample_run 2 start_steps sample_start = Some (Inr t) \<and> astate (actors t 0) = STARTED \<and>
     astate (actors t 1) = STARTED"
proof -
  obtain t where t: "sample_run 2 start_steps sample_start = Some (Inr t)" "astate (actors t 0) = STARTED"
    using sample_stopped by blast
  from children_start_first [OF sample_tree newest_first_iterates t(1) [unfolded sample_run_def] _ t(2), of 1] t show ?thesis by simp
qed

lemma stop_run_facts:
  assumes tree: "tree_ok N par" and im: "iterates im" and start: "sys_run N n h im user as (system_starting N par nm) = Some (Inr t)"
    and idle: "sys_idle N t" and run: "sys_run N n h im user bs (broadcast Stop t) = Some r"
  shows "\<exists>u. r = Inr u \<and> (core_running u \<and> length bs \<le> 1 \<and> (\<exists>x. sys_exec N n h im user x u \<noteq> None) \<or>
    (\<exists>H K. phase_inv N par Stopping H K u \<and> length bs \<le> 2 * N * (N + 2) + 2))"
proof -
  obtain H K where t: "phase_inv N par Starting H K t"
    using sys_run_inv [OF tree start_begin [OF tree] im start] by blast
  have N: "0 < N" using tree by (simp add: tree_ok_def)
  note bg = stop_begin [OF tree t idle]
  have "actor_type (actors t 0) = 0" using idle_all_after [OF tree t idle N] by (simp add: life_actor_def)
  from stop_message_run [OF tree phase_invD(3) [OF t] idle this im run] show ?thesis
  proof (elim disjE exE conjE)
    fix u x assume u: "r = Inr u" "core_running u = core_running t" "length bs \<le> 1"
      "sys_exec N n h im user x u \<noteq> None"
    have "core_running t" using phase_invD(9) [OF bg] by simp
    then show ?thesis using u by blast
  next
    fix cs assume l: "length bs = length cs + 2"
      and r: "sys_run N n h im user cs (broadcast (StopReq 0) t) = Some r"
    have "outbox_size N (broadcast (StopReq 0) t) = 0"
      using idle by (simp add: outbox_size_def sys_idle_def)
    then have "work N {} {} (broadcast (StopReq 0) t) = 2 * N * (N + 2)" by (simp add: work_def)
    then show ?thesis using sys_run_inv [OF tree bg im r] l by fastforce
  qed
qed

text \<open>
  C9: Stopping a started system: in whatever order the hash maps are iterated, every sequence of steps
  from the message \<^verbatim>\<open>Stop\<close> on is free
  of errors and has at most 2 N (N + 2) + 2 steps; as long as something is pending a step is possible; and
  when nothing is pending every actor is \<^verbatim>\<open>STOPPED\<close> and \<^verbatim>\<open>Core::run\<close> has been told.
\<close>

theorem stop_completes:
  assumes "tree_ok N par" and im: "iterates im" and "sys_run N n h im user as (system_starting N par nm) = Some (Inr t)"
    and "sys_idle N t" and "sys_run N n h im user bs (broadcast Stop t) = Some r"
  shows "\<exists>u. r = Inr u \<and> length bs \<le> 2 * N * (N + 2) + 2 \<and>
    (if sys_idle N u then (\<forall>i < N. astate (actors u i) = A_STOPPED) \<and> \<not> core_running u
     else \<exists>x. sys_exec N n h im user x u \<noteq> None)"
proof -
  obtain u where r: "r = Inr u" and c: "length bs \<le> 1 \<and> (\<exists>x. sys_exec N n h im user x u \<noteq> None) \<or>
      (\<exists>H K. phase_inv N par Stopping H K u \<and> length bs \<le> 2 * N * (N + 2) + 2)"
    using stop_run_facts [OF assms] by blast
  have stuck: "\<exists>x. sys_exec N n h im user x u \<noteq> None" if "\<not> sys_idle N u"
    using that sys_idle_stuck [of N u n h im user] by blast
  from c show ?thesis
  proof (elim disjE exE conjE)
    fix x assume "length bs \<le> 1" "sys_exec N n h im user x u \<noteq> None"
    then show ?thesis using r sys_idle_stuck [of N u n h im user] by auto
  next
    fix H K assume inv: "phase_inv N par Stopping H K u" and l: "length bs \<le> 2 * N * (N + 2) + 2"
    have "(\<forall>i < N. astate (actors u i) = A_STOPPED) \<and> \<not> core_running u" if "sys_idle N u"
    proof
      show "\<forall>i < N. astate (actors u i) = A_STOPPED"
        using idle_all_after [OF assms(1) inv that] by (simp add: life_actor_def)
      have "0 < N" using assms(1) by (simp add: tree_ok_def)
      then have "0 \<in> K" using idle_done [OF assms(1) inv that, of 0] by (simp add: tracked_def)
      then show "\<not> core_running u" using phase_invD(9) [OF inv] that by (auto simp: sys_idle_def)
    qed
    then show ?thesis using r l stuck by simp
  qed
qed

lemma stop_completes_witness:
  "\<exists>t u. sample_run 2 start_steps sample_start = Some (Inr t) \<and>
     sample_run 2 stop_steps (broadcast Stop t) = Some (Inr u) \<and>
     (\<forall>i < 2. astate (actors u i) = A_STOPPED) \<and> \<not> core_running u"
proof -
  obtain t u where t: "sample_run 2 start_steps sample_start = Some (Inr t)" "sys_idle 2 t"
    "sample_run 2 stop_steps (broadcast Stop t) = Some (Inr u)" "sys_idle 2 u"
    using sample_stopped by blast
  from stop_completes [OF sample_tree newest_first_iterates t(1) [unfolded sample_run_def] t(2) t(3) [unfolded sample_run_def]] t
  show ?thesis by auto
qed

text \<open>
  C10: \<^verbatim>\<open>Core::run\<close> is told to return only after every actor has stopped, in every order of
  the steps of a stop and of the hash maps.
\<close>

theorem core_stops_last:
  assumes "tree_ok N par" and im: "iterates im" and "sys_run N n h im user as (system_starting N par nm) = Some (Inr t)"
    and "sys_idle N t" and "sys_run N n h im user bs (broadcast Stop t) = Some (Inr u)"
    and "\<not> core_running u" and "i < N"
  shows "astate (actors u i) = A_STOPPED"
proof -
  obtain H K where inv: "phase_inv N par Stopping H K u"
    using stop_run_facts [OF assms(1-5)] assms(6) by blast
  have "0 \<in> K" using phase_invD(9) [OF inv] assms(6) by blast
  then have "complete N par H K 0" using phase_invD(2) [OF inv] by blast
  then have "complete N par H K i" using complete_root_all [OF assms(1) inv _ assms(7)] by blast
  then show ?thesis using phase_invD(4) [OF inv] assms(7) by (simp add: life_actor_def)
qed

lemma core_stops_last_witness:
  "\<exists>t u. sample_run 2 start_steps sample_start = Some (Inr t) \<and>
     sample_run 2 stop_steps (broadcast Stop t) = Some (Inr u) \<and>
     \<not> core_running u \<and> astate (actors u 1) = A_STOPPED"
proof -
  obtain t u where t: "sample_run 2 start_steps sample_start = Some (Inr t)" "sys_idle 2 t"
    "sample_run 2 stop_steps (broadcast Stop t) = Some (Inr u)" "\<not> core_running u"
    using sample_stopped by blast
  from core_stops_last [OF sample_tree newest_first_iterates t(1) [unfolded sample_run_def] t(2) t(3) [unfolded sample_run_def] t(4), of 1] t
  show ?thesis by auto
qed

section \<open>What the restrictions are worth\<close>

text \<open>
  Lemma: The two phases share the counter \<^verbatim>\<open>childrenCnfCount_\<close>: when \<^verbatim>\<open>Stop\<close>
  arrives after the first of two children has confirmed its start, the root counts that confirmation
  together with the first stop confirmation, declares itself \<^verbatim>\<open>STOPPED\<close> and lets
  \<^verbatim>\<open>Core::run\<close> return, although the second child has not even handled its start request.
\<close>

theorem stop_while_starting_ends_early:
  "\<exists>t u. sample_run 3 [Handle 0, Effect 0, Effect 0, Handle 1, Effect 1, Effect 1, Handle 0]
       (system_starting 3 (\<lambda>_. 0) (\<lambda>_. ''actor'')) = Some (Inr t) \<and>
     sample_run 3 [Handle 0, Effect 0, Handle 0, Effect 0, Effect 0, Handle 1, Effect 1, Effect 1, Handle 0,
       Effect 0, Effect 0, Handle 0, Effect 0] (broadcast Stop t) = Some (Inr u) \<and>
     \<not> core_running u \<and> astate (actors u 0) = A_STOPPED \<and> astate (actors u 2) = CTOR_FINISHED"
proof -
  have "evaluates 3 [Handle 0, Effect 0, Effect 0, Handle 1, Effect 1, Effect 1, Handle 0] (\<lambda>t. True)
      [Handle 0, Effect 0, Handle 0, Effect 0, Effect 0, Handle 1, Effect 1, Effect 1, Handle 0,
       Effect 0, Effect 0, Handle 0, Effect 0]
      (\<lambda>u. \<not> core_running u \<and> astate (actors u 0) = A_STOPPED \<and> astate (actors u 2) = CTOR_FINISHED)
      (system_starting 3 (\<lambda>_. 0) (\<lambda>_. ''actor''))"
    by code_simp
  from evaluates_runs [OF this] show ?thesis by (elim exE conjE) (auto simp: agree_def)
qed

text \<open>
  Lemma: Types must be different: a root with two children of the same type listens twice for the one
  confirmation message of that type, so the confirmation of the first child counts for both and the root is
  \<^verbatim>\<open>STARTED\<close> while the second child is not.
\<close>

theorem same_type_children_start_early:
  "\<exists>t. sample_run 3 [Handle 0, Effect 0, Effect 0, Handle 1, Effect 1, Effect 1, Handle 0]
       (broadcast (StartReq 0) (system_init (\<lambda>_. ''actor'') (\<lambda>i. if i = 0 then 0 else 1)
          (\<lambda>i. if i = 0 then [1, 1] else []))) = Some (Inr t) \<and>
     astate (actors t 0) = STARTED \<and> astate (actors t 2) = CTOR_FINISHED"
proof -
  have "(case run_tabulated 3 [Handle 0, Effect 0, Effect 0, Handle 1, Effect 1, Effect 1, Handle 0]
      (tabulate_state 3 (broadcast (StartReq 0) (system_init (\<lambda>_. ''actor'') (\<lambda>i. if i = 0 then 0 else 1)
          (\<lambda>i. if i = 0 then [1, 1] else [])))) of None \<Rightarrow> False
      | Some t \<Rightarrow> astate (actors t 0) = STARTED \<and> astate (actors t 2) = CTOR_FINISHED)"
    by code_simp
  from evaluates_run [OF this] show ?thesis by (elim exE conjE) (auto simp: agree_def)
qed


text \<open>
  Two \<^verbatim>\<open>Stop\<close> messages make the root confirm its stop twice: the core has been told to
  stop, and the callback of the core is about to be called a second time. What this does to
  \<^verbatim>\<open>Core::run\<close> is shown in \<^verbatim>\<open>Core_Run\<close>.
\<close>

definition two_stops_steps :: "sys_action list" where
  "two_stops_steps = [Handle 0, Effect 0, Handle 0, Effect 0, Handle 0, Effect 0, Handle 0, Effect 0,
     Handle 1, Effect 1, Effect 1, Handle 1, Effect 1, Effect 1, Handle 0, Effect 0, Effect 0,
     Handle 0, Effect 0, Effect 0, Handle 0, Effect 0, Handle 0]"

lemma two_stops_two_confirmations:
  "\<exists>t u. sample_run 2 start_steps sample_start = Some (Inr t) \<and>
     sample_run 2 two_stops_steps (broadcast Stop (broadcast Stop t)) = Some (Inr u) \<and>
     \<not> core_running u \<and> outbox u 0 = [CoreStopped]"
proof -
  have e: "case run_tabulated 2 start_steps (tabulate_state 2 sample_start) of None \<Rightarrow> False
     | Some t \<Rightarrow> (case run_tabulated 2 two_stops_steps (tabulate_state 2 (broadcast Stop (broadcast Stop t))) of
         None \<Rightarrow> False | Some u \<Rightarrow> \<not> core_running u \<and> outbox u 0 = [CoreStopped])"
    by code_simp
  then obtain t' u' where t': "run_tabulated 2 start_steps (tabulate_state 2 sample_start) = Some t'"
    and u': "run_tabulated 2 two_stops_steps (tabulate_state 2 (broadcast Stop (broadcast Stop t'))) = Some u'"
      "\<not> core_running u'" "outbox u' 0 = [CoreStopped]"
    by (auto split: option.splits)
  from run_tabulated_agrees [OF agree_tabulate [OF agree_refl] t'] obtain t where
    t: "sample_run 2 start_steps sample_start = Some (Inr t)" "agree 2 t t'" by blast
  from run_tabulated_agrees [OF agree_tabulate [OF agree_broadcast [OF agree_broadcast [OF t(2)]]] u'(1)] obtain u where
    "sample_run 2 two_stops_steps (broadcast Stop (broadcast Stop t)) = Some (Inr u)" "agree 2 u u'" by blast
  with t u' show ?thesis by (auto simp: agree_def)
qed

end
