(* ===== verification/Network_Broadcast.thy ===== *)
theory Network_Broadcast
  imports Callback_Store Core_Messages
begin

text \<open>
  The network, \<^verbatim>\<open>rapi_core/include/core/network.hpp\<close>: a table from message types
  to the callbacks of the ports that listen for them. The only callback a port registers hands the event
  to \<^verbatim>\<open>Port::schedule\<close> of that port, so a registered callback is the identity
  \<open>'p\<close> of a port, and \<^verbatim>\<open>publish\<close> returns the ports it hands the event
  to. Both operations hold \<^verbatim>\<open>callbacksMutex_\<close> for their whole critical part, so
  each is one step of the system.
\<close>

record ('m, 'p) network =
  nw_handleCounter :: handle
  nw_callbacks :: "('m, 'p) callback_table"

definition network_init :: "('m, 'p) network" where
  "network_init = \<lparr>nw_handleCounter = 0, nw_callbacks = Map.empty\<rparr>"

definition nw_newHandle :: "('m, 'p) network \<Rightarrow> (handle \<times> ('m, 'p) network) option" where
  "nw_newHandle nw =
     (case next_handle (nw_handleCounter nw) of
        None \<Rightarrow> None
      | Some handle \<Rightarrow> Some (handle, nw\<lparr>nw_handleCounter := handle\<rparr>))"

definition nw_listen_handle :: "'m \<Rightarrow> handle \<Rightarrow> 'p \<Rightarrow> ('m, 'p) network \<Rightarrow> ('m, 'p) network" where
  "nw_listen_handle m h p nw = nw\<lparr>nw_callbacks := table_add m h p (nw_callbacks nw)\<rparr>"

definition nw_listen :: "'m \<Rightarrow> 'p \<Rightarrow> ('m, 'p) network \<Rightarrow> (handle \<times> ('m, 'p) network) option" where
  "nw_listen m p nw =
     (case nw_newHandle nw of
        None \<Rightarrow> None
      | Some (h, nw') \<Rightarrow> Some (h, nw_listen_handle m h p nw'))"

definition nw_publish :: "'m \<Rightarrow> ('m, 'p) network \<Rightarrow> 'p list" where
  "nw_publish m nw =
     (case nw_callbacks nw m of
        None \<Rightarrow> []
      | Some v \<Rightarrow> vector_calls v)"

section \<open>Handles are fresh\<close>

definition network_ok :: "('m, 'p) network \<Rightarrow> bool" where
  "network_ok nw \<longleftrightarrow> table_ok (nw_callbacks nw) \<and>
     (\<forall>m h. table_lookup (nw_callbacks nw) m h \<noteq> None \<longrightarrow> h \<le> nw_handleCounter nw)"

lemma network_init_ok [simp]: "network_ok network_init"
  by (simp add: network_ok_def network_init_def)

lemma nw_listen_eq:
  "nw_listen m p nw = (if nw_handleCounter nw < handle_max
     then Some (nw_handleCounter nw + 1, nw\<lparr>nw_handleCounter := nw_handleCounter nw + 1,
       nw_callbacks := table_add m (nw_handleCounter nw + 1) p (nw_callbacks nw)\<rparr>)
     else None)"
  by (simp add: nw_listen_def nw_newHandle_def nw_listen_handle_def next_handle_def)

lemma nw_listen_ok: "network_ok nw \<Longrightarrow> nw_listen m p nw = Some (h, nw') \<Longrightarrow> network_ok nw'"
  by (force simp: network_ok_def nw_listen_eq table_lookup_add split: if_splits)

lemma nw_publish_calls: "nw_publish m nw = table_calls m (nw_callbacks nw)"
  by (simp add: nw_publish_def table_calls_def)

lemma nw_listen_publish:
  assumes "network_ok nw" and "nw_listen m p nw = Some (h, nw')"
  shows "mset (nw_publish m' nw') =
    (if m' = m then add_mset p (mset (nw_publish m' nw)) else mset (nw_publish m' nw))"
proof -
  have "table_lookup (nw_callbacks nw) m (nw_handleCounter nw + 1) = None"
    using assms(1) by (force simp: network_ok_def)
  then show ?thesis
    using assms
    by (auto simp: nw_publish_calls nw_listen_eq table_calls_add_fresh network_ok_def split: if_splits)
qed

section \<open>Registrations\<close>

fun nw_listens :: "('m \<times> 'p) list \<Rightarrow> ('m, 'p) network \<Rightarrow> ('m, 'p) network option" where
  "nw_listens [] nw = Some nw"
| "nw_listens ((m, p) # rs) nw =
     (case nw_listen m p nw of None \<Rightarrow> None | Some (h, nw') \<Rightarrow> nw_listens rs nw')"

lemma nw_listens_ok: "network_ok nw \<Longrightarrow> nw_listens rs nw = Some nw' \<Longrightarrow> network_ok nw'"
  by (induction rs nw rule: nw_listens.induct) (auto simp: nw_listen_ok split: option.splits)

text \<open>Registrations are defined as long as the counter does not overflow.\<close>

lemma nw_listens_counter:
  "nw_listens rs nw = Some nw' \<Longrightarrow> nw_handleCounter nw' = nw_handleCounter nw + int (length rs)"
  by (induction rs nw rule: nw_listens.induct) (auto simp: nw_listen_eq split: option.splits if_splits)

lemma nw_listens_undefined:
  "nw_listens rs nw = None \<Longrightarrow> handle_max < nw_handleCounter nw + int (length rs)"
proof (induction rs nw rule: nw_listens.induct)
  case (2 m p rs nw)
  show ?case
  proof (cases "nw_listen m p nw")
    case None
    then show ?thesis by (simp add: nw_listen_eq split: if_splits)
  next
    case (Some x)
    obtain h u where x: "x = (h, u)" by (cases x)
    have "handle_max < nw_handleCounter u + int (length rs)"
      using 2(1) [OF Some x [symmetric]] 2(2) Some x by simp
    moreover have "nw_handleCounter u = nw_handleCounter nw + 1"
      using Some x by (auto simp: nw_listen_eq split: if_splits)
    ultimately show ?thesis by simp
  qed
qed simp

lemma nw_listens_publish:
  "network_ok nw \<Longrightarrow> nw_listens rs nw = Some nw' \<Longrightarrow> mset (nw_publish m nw') =
     mset (nw_publish m nw) + mset (map snd (filter (\<lambda>r. fst r = m) rs))"
proof (induction rs nw rule: nw_listens.induct)
  case (2 m' p rs nw)
  then obtain h u where u: "nw_listen m' p nw = Some (h, u)" "nw_listens rs u = Some nw'"
    by (auto split: option.splits)
  show ?case
    using 2(1) [OF u(1) refl nw_listen_ok [OF 2(2) u(1)] u(2)] nw_listen_publish [OF 2(2) u(1)] by auto
qed simp

text \<open>
  C27: a broadcast reaches every registration once. After any sequence of registrations, publishing a
  message type hands the event to exactly the ports registered for that type, each as often as it was
  registered, and to no other port. A sequence of registrations is defined unless it is longer than the
  largest value of the network's handle counter, a 32 bit integer.
\<close>

theorem publish_reaches_each_registration:
  "case nw_listens rs network_init of
     None \<Rightarrow> handle_max < int (length rs)
   | Some nw \<Rightarrow> mset (nw_publish m nw) = mset (map snd (filter (\<lambda>r. fst r = m) rs))"
proof (cases "nw_listens rs (network_init :: ('a, 'b) network)")
  case None
  then show ?thesis using nw_listens_undefined [OF None] by (simp add: network_init_def)
next
  case (Some nw)
  have "nw_publish m network_init = ([] :: 'b list)" by (simp add: nw_publish_def network_init_def)
  then show ?thesis using nw_listens_publish [OF network_init_ok Some, of m] by (simp add: Some)
qed

text \<open>
  Lemma: the handles a network returns are all different, so no registration replaces another one.
\<close>

theorem network_handles_fresh:
  assumes "nw_listens rs network_init = Some nw" and "nw_listen m p nw = Some (h, nw')"
  shows "h = int (length rs) + 1 \<and> table_lookup (nw_callbacks nw) m' h = None"
proof -
  have c: "nw_handleCounter nw = int (length rs)"
    using nw_listens_counter [OF assms(1)] by (simp add: network_init_def)
  have h: "h = nw_handleCounter nw + 1" using assms(2) by (simp add: nw_listen_eq split: if_splits)
  have "table_lookup (nw_callbacks nw) m' h \<noteq> None \<Longrightarrow> h \<le> nw_handleCounter nw"
    using nw_listens_ok [OF network_init_ok assms(1)] unfolding network_ok_def by blast
  then have "table_lookup (nw_callbacks nw) m' h = None" using h by (metis less_add_one not_le)
  then show ?thesis using c h by simp
qed

lemma network_handles_fresh_witness:
  "\<exists>nw. nw_listens [(True, 5 :: nat)] network_init = Some nw \<and> table_lookup (nw_callbacks nw) True 2 = None"
proof -
  obtain nw where nw: "nw_listens [(True, 5 :: nat)] network_init = Some nw" "nw_handleCounter nw = 1"
    by (simp add: nw_listen_eq network_init_def handle_max_def)
  then obtain nw' where "nw_listen True 6 nw = Some (2, nw')" by (simp add: nw_listen_eq handle_max_def)
  from network_handles_fresh [OF nw(1) this] nw(1) show ?thesis by blast
qed

end
