(* ===== verification/Yaml_Tree.thy ===== *)
theory Yaml_Tree
  imports Core_Errors
begin

text \<open>
  The configuration reader, \<^verbatim>\<open>common/cxx/config_cxx\<close>: the node tree of
  \<^verbatim>\<open>yaml_wrapper.hpp\<close> and how \<^verbatim>\<open>YamlWrapper::parse\<close> builds it from the
  events of libyaml. libyaml itself is not in the repository: a document is the list of events its parser
  delivers; a parser that fails does so when the list is exhausted.

  A position in the tree (\<^verbatim>\<open>YamlNode* current\<close>) is the path of child indices that leads to it
  from the root, so the parent of a node is the path without its last index, and the root, the empty path,
  is its own parent as in the code.
\<close>

section \<open>Strings\<close>

text \<open>\<^verbatim>\<open>std::to_string\<close> of a size.\<close>

fun to_string :: "nat \<Rightarrow> string" where
  "to_string n = (if 10 \<le> n then to_string (n div 10) else []) @ [char_of (n mod 10 + 48)]"

declare to_string.simps [simp del]

text \<open>The characters a \<^verbatim>\<open>const char*\<close> stands for, given the bytes it points to.\<close>

definition c_string :: "string \<Rightarrow> string" where
  "c_string s = takeWhile (\<lambda>c. c \<noteq> CHR 0x00) s"

lemma c_string_idem [simp]: "c_string (c_string s) = c_string s"
  unfolding c_string_def takeWhile_eq_all_conv by (auto dest: set_takeWhileD)

section \<open>Nodes\<close>

datatype node_type = VALUE | SEQUENCE | MAPPING | DOC

datatype yaml_node =
  YamlNode (getType: node_type) (getKey: string) (getValue: string) (node_children: "yaml_node list")

definition YamlDoc :: yaml_node where
  "YamlDoc = YamlNode DOC [] ''YamlDocValue'' []"

definition YamlMapping :: "string \<Rightarrow> yaml_node" where
  "YamlMapping name = YamlNode MAPPING name ''YamlMappingValue'' []"

definition YamlSequence :: "string \<Rightarrow> yaml_node" where
  "YamlSequence name = YamlNode SEQUENCE name ''YamlSequenceValue'' []"

definition YamlValue :: "string \<Rightarrow> string \<Rightarrow> yaml_node" where
  "YamlValue name val = YamlNode VALUE name val []"

definition add_child :: "yaml_node \<Rightarrow> yaml_node \<Rightarrow> yaml_node" where
  "add_child c n = YamlNode (getType n) (getKey n) (getValue n) (node_children n @ [c])"

fun node_at :: "nat list \<Rightarrow> yaml_node \<Rightarrow> yaml_node" where
  "node_at [] n = n"
| "node_at (i # p) n = node_at p (node_children n ! i)"

fun append_at :: "nat list \<Rightarrow> yaml_node \<Rightarrow> yaml_node \<Rightarrow> yaml_node" where
  "append_at [] c n = add_child c n"
| "append_at (i # p) c n = YamlNode (getType n) (getKey n) (getValue n)
     ((node_children n)[i := append_at p c (node_children n ! i)])"

text \<open>The paths that point into the tree.\<close>

fun path_ok :: "nat list \<Rightarrow> yaml_node \<Rightarrow> bool" where
  "path_ok [] n \<longleftrightarrow> True"
| "path_ok (i # p) n \<longleftrightarrow> i < length (node_children n) \<and> path_ok p (node_children n ! i)"

lemma add_child_simps [simp]:
  "getType (add_child c n) = getType n" "getKey (add_child c n) = getKey n"
  "getValue (add_child c n) = getValue n" "node_children (add_child c n) = node_children n @ [c]"
  by (simp_all add: add_child_def)

lemma new_node_simps [simp]:
  "getType (YamlMapping k) = MAPPING" "getType (YamlSequence k) = SEQUENCE" "getType (YamlValue k v) = VALUE"
  "getType YamlDoc = DOC" "getKey (YamlMapping k) = k" "getKey (YamlSequence k) = k" "getKey (YamlValue k v) = k"
  "getValue (YamlValue k v) = v" "getValue (YamlMapping k) = ''YamlMappingValue''"
  "getValue (YamlSequence k) = ''YamlSequenceValue''"
  "node_children (YamlMapping k) = []" "node_children (YamlSequence k) = []" "node_children (YamlValue k v) = []"
  "node_children YamlDoc = []"
  by (simp_all add: YamlMapping_def YamlSequence_def YamlValue_def YamlDoc_def)

lemma append_at_root: "getType (append_at p c n) = getType n" "getKey (append_at p c n) = getKey n"
  "getValue (append_at p c n) = getValue n"
  by (cases p; simp)+

lemma node_at_append: "path_ok p n \<Longrightarrow> node_at p (append_at p c n) = add_child c (node_at p n)"
  by (induction p arbitrary: n) simp_all

lemma path_ok_append: "path_ok p n \<Longrightarrow> path_ok p (append_at p c n)"
  by (induction p arbitrary: n) simp_all

text \<open>The child just added, and adding to it.\<close>

lemma new_child_path:
  assumes "path_ok p n" and "i = length (node_children (node_at p n))"
  shows "path_ok (p @ [i]) (append_at p c n)" "node_at (p @ [i]) (append_at p c n) = c"
    "append_at (p @ [i]) d (append_at p c n) = append_at p (add_child d c) n"
  using assms by (induction p arbitrary: n) (auto simp: add_child_def)

section \<open>Events\<close>

text \<open>
  \<open>OtherEvent\<close> stands for the events that the code ignores: aliases and the delimiters of
  stream and document other than the end of the stream.
\<close>

datatype yaml_event =
    SEQUENCE_START
  | SEQUENCE_END
  | MAPPING_START
  | MAPPING_END
  | SCALAR string
  | STREAM_END
  | ALIAS
  | OtherEvent

record parser_state =
  doc_root :: yaml_node
  current :: "nat list"
  prevWasKey :: bool
  keyName :: string

abbreviation current_node :: "parser_state \<Rightarrow> yaml_node" where
  "current_node st \<equiv> node_at (current st) (doc_root st)"

text \<open>The three branches that choose the name of a new node.\<close>

definition child_name :: "parser_state \<Rightarrow> string" where
  "child_name st =
     (if \<not> prevWasKey st \<and> getType (current_node st) = SEQUENCE
      then to_string (length (node_children (current_node st)))
      else if \<not> prevWasKey st then [] else keyName st)"

definition start_node :: "(string \<Rightarrow> yaml_node) \<Rightarrow> parser_state \<Rightarrow> parser_state" where
  "start_node mk st =
     st\<lparr>doc_root := append_at (current st) (mk (child_name st)) (doc_root st),
        current := current st @ [length (node_children (current_node st))],
        prevWasKey := False\<rparr>"

definition end_node :: "parser_state \<Rightarrow> parser_state" where
  "end_node st = st\<lparr>current := butlast (current st)\<rparr>"

definition scalar :: "string \<Rightarrow> parser_state \<Rightarrow> parser_state" where
  "scalar v st =
     (let value = c_string v
      in if \<not> prevWasKey st \<and> getType (current_node st) = SEQUENCE
         then st\<lparr>doc_root := append_at (current st)
                   (YamlValue (to_string (length (node_children (current_node st)))) value) (doc_root st)\<rparr>
         else if \<not> prevWasKey st then st\<lparr>prevWasKey := True, keyName := value\<rparr>
         else st\<lparr>doc_root := append_at (current st) (YamlValue (keyName st) value) (doc_root st),
                 prevWasKey := False\<rparr>)"

fun parse_event :: "yaml_event \<Rightarrow> parser_state \<Rightarrow> parser_state" where
  "parse_event SEQUENCE_START st = start_node YamlSequence st"
| "parse_event SEQUENCE_END st = end_node st"
| "parse_event MAPPING_START st = start_node YamlMapping st"
| "parse_event MAPPING_END st = end_node st"
| "parse_event (SCALAR v) st = scalar v st"
| "parse_event STREAM_END st = st"
| "parse_event ALIAS st = st"
| "parse_event OtherEvent st = st"

definition err_parser :: error where
  "err_parser = mk_error 1 ''parser error''"

fun parse_loop :: "handler \<Rightarrow> yaml_event list \<Rightarrow> parser_state \<Rightarrow> error + bool \<times> yaml_node" where
  "parse_loop h [] st = report h err_parser (Inr (False, doc_root st))"
| "parse_loop h (e # es) st =
     (let st' = parse_event e st
      in if e = STREAM_END then Inr (True, doc_root st') else parse_loop h es st')"

definition parse :: "handler \<Rightarrow> yaml_event list \<Rightarrow> yaml_node \<Rightarrow> error + bool \<times> yaml_node" where
  "parse h es root = parse_loop h es \<lparr>doc_root = root, current = [], prevWasKey = False, keyName = []\<rparr>"

lemma parse_loop_append:
  "STREAM_END \<notin> set es \<Longrightarrow> parse_loop h (es @ fs) st = parse_loop h fs (fold parse_event es st)"
  by (induction es arbitrary: st) (auto simp: Let_def)

section \<open>Documents\<close>

text \<open>A document as its author means it, the events libyaml delivers for it, and the tree it should give.\<close>

datatype yaml_doc = YScalar string | YSeq "yaml_doc list" | YMap "(string \<times> yaml_doc) list"

fun doc_events :: "yaml_doc \<Rightarrow> yaml_event list" where
  "doc_events (YScalar v) = [SCALAR v]"
| "doc_events (YSeq ds) = SEQUENCE_START # concat (map doc_events ds) @ [SEQUENCE_END]"
| "doc_events (YMap kds) =
     MAPPING_START # concat (map (\<lambda>(k, d). SCALAR k # doc_events d) kds) @ [MAPPING_END]"

definition stream_events :: "yaml_doc \<Rightarrow> yaml_event list" where
  "stream_events d = [OtherEvent, OtherEvent] @ doc_events d @ [OtherEvent, STREAM_END]"

lemma size_enumerate: "(i, d) \<in> set (enumerate k ds) \<Longrightarrow> size d < Suc (size_list size ds)"
  by (metis enumerate_eq_zip in_set_zipE le_imp_less_Suc order_refl size_list_estimation')

function doc_node :: "string \<Rightarrow> yaml_doc \<Rightarrow> yaml_node" where
  "doc_node nm (YScalar v) = YamlValue nm (c_string v)"
| "doc_node nm (YSeq ds) =
     YamlNode SEQUENCE nm ''YamlSequenceValue'' (map (\<lambda>(i, d). doc_node (to_string i) d) (enumerate 0 ds))"
| "doc_node nm (YMap kds) =
     YamlNode MAPPING nm ''YamlMappingValue'' (map (\<lambda>(k, d). doc_node (c_string k) d) kds)"
  by pat_completeness auto
termination
proof (relation "measure (\<lambda>(nm, d). size d)", goal_cases)
  case (2 nm ds z x y)
  then show ?case using size_enumerate [of x y 0 ds] by simp
next
  case (3 nm kds z x y)
  then have "size (snd z) < Suc (size_list (size_prod (\<lambda>x. 0) size) kds)"
    by (induction kds) auto
  then show ?case using 3(2) by (cases z) simp
qed simp

end
