(* ===== verification/Yaml_Parse.thy ===== *)
theory Yaml_Parse
  imports Yaml_Tree
begin

text \<open>
  What \<^verbatim>\<open>YamlWrapper::parse\<close> makes of the events of a document: the node tree of the
  document, below the node that was current. Scalars as documents of their own are left out, they are taken
  for a key; the lemma on the events of a value (\<open>doc_parsed\<close>) says when that does not happen.
\<close>

lemma add_children: "fold add_child cs n = YamlNode (getType n) (getKey n) (getValue n) (node_children n @ cs)"
  by (induction cs arbitrary: n) (simp_all add: add_child_def)

lemma append_children:
  assumes "path_ok p n" and "i = length (node_children (node_at p n))"
  shows "fold (append_at (p @ [i])) cs (append_at p c n) = append_at p (fold add_child cs c) n"
  using assms by (induction cs arbitrary: c) (simp_all add: new_child_path)

lemma fold_append_at:
  "path_ok p n \<Longrightarrow> path_ok p (fold (append_at p) cs n) \<and>
     node_at p (fold (append_at p) cs n) = fold add_child cs (node_at p n)"
  by (induction cs arbitrary: n) (simp_all add: node_at_append path_ok_append)

text \<open>The parser as a function of the state's parts.\<close>

definition st :: "yaml_node \<Rightarrow> nat list \<Rightarrow> bool \<Rightarrow> string \<Rightarrow> parser_state" where
  "st r p b k = \<lparr>doc_root = r, current = p, prevWasKey = b, keyName = k\<rparr>"

lemma st_sel [simp]: "doc_root (st r p b k) = r" "current (st r p b k) = p" "prevWasKey (st r p b k) = b"
  "keyName (st r p b k) = k"
  by (simp_all add: st_def)

definition name_at :: "yaml_node \<Rightarrow> nat list \<Rightarrow> bool \<Rightarrow> string \<Rightarrow> string" where
  "name_at r p b k = (if b then k else if getType (node_at p r) = SEQUENCE
     then to_string (length (node_children (node_at p r))) else [])"

lemma child_name_st: "child_name (st r p b k) = name_at r p b k"
  by (simp add: child_name_def name_at_def)

lemma start_node_st:
  "start_node mk (st r p b k) =
     st (append_at p (mk (name_at r p b k)) r) (p @ [length (node_children (node_at p r))]) False k"
  unfolding start_node_def child_name_st st_sel by (simp add: st_def)

lemma end_node_st: "end_node (st r p b k) = st r (butlast p) b k"
  by (simp add: end_node_def st_def)

lemma scalar_st:
  "scalar v (st r p b k) =
     (if b \<or> getType (node_at p r) = SEQUENCE then st (append_at p (YamlValue (name_at r p b k) (c_string v)) r) p False k
      else st r p True (c_string v))"
  unfolding scalar_def Let_def st_sel name_at_def by (simp add: st_def)

definition is_scalar :: "yaml_doc \<Rightarrow> bool" where
  "is_scalar d \<longleftrightarrow> (case d of YScalar v \<Rightarrow> True | _ \<Rightarrow> False)"

text \<open>The events of a document add its node to the current node.\<close>

definition doc_adds :: "yaml_doc \<Rightarrow> bool" where
  "doc_adds d \<longleftrightarrow> (\<forall>r p b k. path_ok p r \<and> (is_scalar d \<longrightarrow> b \<or> getType (node_at p r) = SEQUENCE) \<longrightarrow>
     (\<exists>k'. fold parse_event (doc_events d) (st r p b k) =
        st (append_at p (doc_node (name_at r p b k) d) r) p False k'))"

lemma doc_addsD:
  assumes "doc_adds d" and "path_ok p r" and "is_scalar d \<Longrightarrow> b \<or> getType (node_at p r) = SEQUENCE"
  obtains k' where "fold parse_event (doc_events d) (st r p b k) =
    st (append_at p (doc_node (name_at r p b k) d) r) p False k'"
  using assms unfolding doc_adds_def by blast

lemma elements_parsed:
  assumes "\<forall>d \<in> set ds. doc_adds d" and "path_ok p r" and "getType (node_at p r) = SEQUENCE"
  shows "\<exists>k'. fold parse_event (concat (map doc_events ds)) (st r p False k) =
    st (fold (append_at p)
      (map (\<lambda>(i, d). doc_node (to_string i) d) (enumerate (length (node_children (node_at p r))) ds)) r) p False k'"
  using assms
proof (induction ds arbitrary: r k)
  case Nil
  then show ?case by auto
next
  case (Cons d ds)
  let ?n = "length (node_children (node_at p r))"
  let ?r = "append_at p (doc_node (to_string ?n) d) r"
  have nm: "name_at r p False k = to_string ?n" using Cons.prems(3) by (simp add: name_at_def)
  have "doc_adds d" using Cons.prems(1) by simp
  from doc_addsD [OF this Cons.prems(2), of False k] Cons.prems(3)
  obtain k1 where d: "fold parse_event (doc_events d) (st r p False k) = st ?r p False k1"
    unfolding nm by blast
  have "path_ok p ?r" "node_at p ?r = add_child (doc_node (to_string ?n) d) (node_at p r)"
    using Cons.prems by (simp_all add: path_ok_append node_at_append)
  with Cons.IH [of ?r k1] Cons.prems show ?case by (simp add: d)
qed

lemma entries_parsed:
  assumes "\<forall>d \<in> set (map snd kds). doc_adds d" and "path_ok p r" and "getType (node_at p r) = MAPPING"
  shows "\<exists>k'. fold parse_event (concat (map (\<lambda>(k, d). SCALAR k # doc_events d) kds)) (st r p False k) =
    st (fold (append_at p) (map (\<lambda>(k, d). doc_node (c_string k) d) kds) r) p False k'"
  using assms
proof (induction kds arbitrary: r k)
  case Nil
  then show ?case by auto
next
  case (Cons kd kds)
  obtain x d where kd: "kd = (x, d)" by force
  let ?r = "append_at p (doc_node (c_string x) d) r"
  have nm: "name_at r p True (c_string x) = c_string x" by (simp add: name_at_def)
  have "doc_adds d" using Cons.prems(1) by (simp add: kd)
  from doc_addsD [OF this Cons.prems(2), of True "c_string x"]
  obtain k1 where d: "fold parse_event (doc_events d) (st r p True (c_string x)) = st ?r p False k1"
    unfolding nm by blast
  have "path_ok p ?r" "node_at p ?r = add_child (doc_node (c_string x) d) (node_at p r)"
    using Cons.prems by (simp_all add: path_ok_append node_at_append)
  with Cons.IH [of ?r k1] Cons.prems show ?case by (simp add: kd d scalar_st)
qed

lemma collection_parsed:
  assumes r: "path_ok p r" and n: "n = length (node_children (node_at p r))"
    and inner: "\<And>r' k. path_ok (p @ [n]) r' \<Longrightarrow> node_at (p @ [n]) r' = mk (name_at r p b k0) \<Longrightarrow>
      \<exists>k'. fold parse_event es (st r' (p @ [n]) False k) = st (fold (append_at (p @ [n])) cs r') (p @ [n]) False k'"
    and s: "\<And>t. parse_event s t = start_node mk t" and e: "\<And>t. parse_event e t = end_node t"
  shows "\<exists>k'. fold parse_event (s # es @ [e]) (st r p b k0) =
    st (append_at p (fold add_child cs (mk (name_at r p b k0))) r) p False k'"
proof -
  let ?c = "mk (name_at r p b k0)"
  note new = new_child_path [OF r n, of ?c]
  obtain k' where "fold parse_event es (st (append_at p ?c r) (p @ [n]) False k0) =
      st (fold (append_at (p @ [n])) cs (append_at p ?c r)) (p @ [n]) False k'"
    using inner [OF new(1,2)] by blast
  then have "fold parse_event (s # es @ [e]) (st r p b k0) =
      st (append_at p (fold add_child cs ?c) r) p False k'"
    by (simp add: s e start_node_st end_node_st append_children [OF r n] flip: n)
  then show ?thesis by blast
qed

lemma doc_parsed: "doc_adds d"
proof (induction d)
  case (YScalar v)
  show ?case by (auto simp: doc_adds_def is_scalar_def scalar_st)
next
  case (YSeq ds)
  show ?case
    unfolding doc_adds_def
  proof (intro allI impI, elim conjE)
    fix r p b k0 assume r: "path_ok p r"
    let ?cs = "map (\<lambda>(i, d). doc_node (to_string i) d) (enumerate 0 ds)"
    have "\<exists>k'. fold parse_event (concat (map doc_events ds)) (st r' q False k) = st (fold (append_at q) ?cs r') q False k'"
      if "path_ok q r'" "node_at q r' = YamlSequence nm" for q r' k nm
      using elements_parsed [of ds q r' k] YSeq that by auto
    from collection_parsed [OF r refl this, where mk = YamlSequence and s = SEQUENCE_START and e = SEQUENCE_END]
    show "\<exists>k'. fold parse_event (doc_events (YSeq ds)) (st r p b k0) =
        st (append_at p (doc_node (name_at r p b k0) (YSeq ds)) r) p False k'"
      by (simp add: add_children)
  qed
next
  case (YMap kds)
  then have kds: "\<forall>d \<in> set (map snd kds). doc_adds d" by auto
  show ?case
    unfolding doc_adds_def
  proof (intro allI impI, elim conjE)
    fix r p b k0 assume r: "path_ok p r"
    let ?cs = "map (\<lambda>(k, d). doc_node (c_string k) d) kds"
    have "\<exists>k'. fold parse_event (concat (map (\<lambda>(k, d). SCALAR k # doc_events d) kds)) (st r' q False k) =
        st (fold (append_at q) ?cs r') q False k'"
      if "path_ok q r'" "node_at q r' = YamlMapping nm" for q r' k nm
      using entries_parsed [OF kds that(1), of k] that(2) by simp
    from collection_parsed [OF r refl this, where mk = YamlMapping and s = MAPPING_START and e = MAPPING_END]
    show "\<exists>k'. fold parse_event (doc_events (YMap kds)) (st r p b k0) =
        st (append_at p (doc_node (name_at r p b k0) (YMap kds)) r) p False k'"
      by (simp add: add_children)
  qed
qed

lemma no_stream_end: "STREAM_END \<notin> set (doc_events d)"
  by (induction d) (auto split: prod.splits)

lemma parse_stream:
  assumes "\<not> is_scalar d"
  shows "parse h (stream_events d) r = Inr (True, add_child (doc_node (name_at r [] False []) d) r)"
proof -
  obtain k' where "fold parse_event (doc_events d) (st r [] False []) =
      st (append_at [] (doc_node (name_at r [] False []) d) r) [] False k'"
    using doc_parsed [of d, unfolded doc_adds_def, rule_format, of "[]" r False "[]"] assms by auto
  then show ?thesis
    unfolding parse_def stream_events_def st_def [symmetric]
    by (simp add: Let_def parse_loop_append [OF no_stream_end])
qed

end
