(* ===== verification/Yaml_Numbers.thy ===== *)
theory Yaml_Numbers
  imports Yaml_Tree "HOL-Library.Word"
begin

text \<open>
  \<^verbatim>\<open>strtol\<close> and \<^verbatim>\<open>strtoul\<close> with base 0, as the integer getters of
  \<^verbatim>\<open>YamlWrapper\<close> use them: white space, sign, the base from the prefix, digits, the value
  clamped to 64 bits, and the characters that were not converted (all of them when there is no digit).
\<close>

definition is_space :: "char \<Rightarrow> bool" where
  "is_space c \<longleftrightarrow> of_char c \<in> {9, 10, 11, 12, 13, 32 :: nat}"

definition digit_value :: "char \<Rightarrow> nat" where
  "digit_value c = (let k = of_char c in
     if 48 \<le> k \<and> k \<le> 57 then k - 48
     else if 65 \<le> k \<and> k \<le> 90 then k - 55
     else if 97 \<le> k \<and> k \<le> 122 then k - 87
     else 99)"

definition is_digit :: "nat \<Rightarrow> char \<Rightarrow> bool" where
  "is_digit b c \<longleftrightarrow> digit_value c < b"

definition digits_value :: "nat \<Rightarrow> string \<Rightarrow> nat" where
  "digits_value b ds = foldl (\<lambda>n c. n * b + digit_value c) 0 ds"

text \<open>A prefix \<^verbatim>\<open>0x\<close> counts only before a hexadecimal digit.\<close>

fun split_base :: "string \<Rightarrow> nat \<times> string" where
  "split_base (z # x # c # s) =
     (if z = CHR ''0'' then if (x = CHR ''x'' \<or> x = CHR ''X'') \<and> is_digit 16 c then (16, c # s) else (8, z # x # c # s)
      else (10, z # x # c # s))"
| "split_base s = (if take 1 s = ''0'' then 8 else 10, s)"

fun split_sign :: "string \<Rightarrow> bool \<times> string" where
  "split_sign [] = (False, [])"
| "split_sign (c # s) = (if c = CHR ''-'' then (True, s) else if c = CHR ''+'' then (False, s) else (False, c # s))"

text \<open>The sign, the magnitude and the rest.\<close>

definition scan_integer :: "string \<Rightarrow> (bool \<times> nat \<times> string) option" where
  "scan_integer s =
     (let (neg, t) = split_sign (dropWhile is_space s); (b, u) = split_base t; ds = takeWhile (is_digit b) u
      in if ds = [] then None else Some (neg, digits_value b ds, dropWhile (is_digit b) u))"

definition strtol :: "string \<Rightarrow> int \<times> string" where
  "strtol s = (case scan_integer s of
      None \<Rightarrow> (0, s)
    | Some (neg, n, r) \<Rightarrow> (max (- (2 ^ 63)) (min (2 ^ 63 - 1) (if neg then - int n else int n)), r))"

definition strtoul :: "string \<Rightarrow> nat \<times> string" where
  "strtoul s = (case scan_integer s of
      None \<Rightarrow> (0, s)
    | Some (neg, n, r) \<Rightarrow> (if 2 ^ 64 \<le> n then 2 ^ 64 - 1 else if neg then (2 ^ 64 - n) mod 2 ^ 64 else n, r))"

section \<open>Decimal numerals\<close>

definition int_to_string :: "int \<Rightarrow> string" where
  "int_to_string i = (if i < 0 then ''-'' @ to_string (nat (- i)) else to_string (nat i))"

lemma of_char_digit [simp]: "n < 10 \<Longrightarrow> of_char (char_of (n + 48)) = (n + 48 :: nat)"
  by (simp add: of_char_of)

lemma digit_value_digit [simp]: "n < 10 \<Longrightarrow> digit_value (char_of (n + 48)) = n"
  by (simp add: digit_value_def)

lemma digits_value_snoc: "digits_value b (ds @ [c]) = digits_value b ds * b + digit_value c"
  by (simp add: digits_value_def)

lemma to_string_digits: "c \<in> set (to_string n) \<Longrightarrow> \<exists>d < 10. c = char_of (d + 48 :: nat)"
proof (induction n rule: to_string.induct)
  case (1 n)
  then show ?case
    by (subst (asm) to_string.simps) (auto split: if_splits intro: exI [of _ "n mod 10"])
qed

lemma to_string_value: "digits_value 10 (to_string n) = n"
proof (induction n rule: to_string.induct)
  case (1 n)
  show ?case
  proof (cases "10 \<le> n")
    case True
    then have "digits_value 10 (to_string n) = (n div 10) * 10 + n mod 10"
      using 1 by (subst to_string.simps) (simp add: digits_value_snoc)
    then show ?thesis by simp
  next
    case False
    then show ?thesis by (subst to_string.simps) (simp add: digits_value_def)
  qed
qed

lemma to_string_inj: "to_string m = to_string n \<longleftrightarrow> m = n"
  by (metis to_string_value)

lemma digit_chars:
  "char_of (48 :: nat) = CHR ''0''" "char_of (49 :: nat) = CHR ''1''" "char_of (50 :: nat) = CHR ''2''"
  "char_of (51 :: nat) = CHR ''3''" "char_of (52 :: nat) = CHR ''4''" "char_of (53 :: nat) = CHR ''5''"
  "char_of (54 :: nat) = CHR ''6''" "char_of (55 :: nat) = CHR ''7''" "char_of (56 :: nat) = CHR ''8''"
  "char_of (57 :: nat) = CHR ''9''"
  by code_simp+

lemma to_string_0: "to_string 0 = ''0''"
  by (subst to_string.simps) (simp add: digit_chars)

lemmas to_string_numeral = to_string.simps [of "numeral k" for k]

lemma to_string_not_Nil [simp]: "to_string n \<noteq> []"
  by (subst to_string.simps) simp

lemma to_string_first: "0 < n \<Longrightarrow> hd (to_string n) \<noteq> CHR ''0''"
proof (induction n rule: to_string.induct)
  case (1 n)
  show ?case
  proof (cases "10 \<le> n")
    case True
    then have "hd (to_string n) = hd (to_string (n div 10))"
      by (subst to_string.simps) simp
    moreover have "0 < n div 10" using True by simp
    ultimately show ?thesis using 1(1) True by simp
  next
    case False
    then have "to_string n = [char_of (n + 48)]" by (subst to_string.simps) simp
    moreover have "char_of (n + 48) = CHR ''0'' \<Longrightarrow> n = 0"
      using False digit_value_digit [of n] by (simp add: digit_value_def)
    ultimately show ?thesis using 1(2) by auto
  qed
qed

lemma digit_char:
  fixes d :: nat
  assumes "d < 10"
  shows "is_digit 10 (char_of (d + 48))" "\<not> is_space (char_of (d + 48))"
    "char_of (d + 48) \<noteq> CHR ''-''" "char_of (d + 48) \<noteq> CHR ''+''" "char_of (d + 48) \<noteq> CHR 0x00"
proof -
  show "is_digit 10 (char_of (d + 48))" using assms by (simp add: is_digit_def)
  show "\<not> is_space (char_of (d + 48))" using assms by (simp add: is_space_def)
  have "digit_value (char_of (d + 48)) \<noteq> 99" using assms by simp
  moreover have "digit_value CHR ''-'' = 99" "digit_value CHR ''+'' = 99" "digit_value CHR 0x00 = 99"
    by (simp_all add: digit_value_def)
  ultimately show "char_of (d + 48) \<noteq> CHR ''-''" "char_of (d + 48) \<noteq> CHR ''+''" "char_of (d + 48) \<noteq> CHR 0x00"
    by metis+
qed

lemma split_base_decimal: "s = ''0'' \<or> hd s \<noteq> CHR ''0'' \<Longrightarrow> split_base s = (if s = ''0'' then 8 else 10, s)"
  by (cases s rule: split_base.cases) auto

lemma scan_to_string: "scan_integer (to_string n) = Some (False, n, [])"
  and scan_neg_to_string: "scan_integer (CHR ''-'' # to_string n) = Some (True, n, [])"
proof -
  obtain c s where cs: "to_string n = c # s" by (meson to_string_not_Nil neq_Nil_conv)
  then obtain d :: nat where d: "d < 10" "c = char_of (d + 48)" using to_string_digits [of c n] by auto
  have z: "to_string n = ''0'' \<or> hd (to_string n) \<noteq> CHR ''0''"
  proof (cases "n = 0")
    case True
    then show ?thesis by (simp add: to_string_0)
  next
    case False
    then show ?thesis using to_string_first by simp
  qed
  have sp: "\<not> is_space c" and sg: "split_sign (to_string n) = (False, to_string n)"
    using digit_char [OF d(1)] d(2) by (simp_all add: cs)
  define b where "b = (if to_string n = ''0'' then 8 else 10 :: nat)"
  have base: "split_base (to_string n) = (b, to_string n)"
    unfolding b_def by (rule split_base_decimal [OF z])
  have all: "\<forall>c \<in> set (to_string n). is_digit b c"
  proof (cases "to_string n = ''0''")
    case True
    then show ?thesis by (simp add: b_def is_digit_def digit_value_def)
  next
    case False
    then show ?thesis using to_string_digits [of _ n] digit_char(1) by (fastforce simp: b_def)
  qed
  have val: "digits_value b (to_string n) = n"
  proof (cases "to_string n = ''0''")
    case True
    then have "n = 0" using to_string_inj [of n 0] by (simp add: to_string_0)
    then show ?thesis using True by (simp add: digits_value_def digit_value_def)
  next
    case False
    then show ?thesis by (simp add: b_def to_string_value)
  qed
  have tw: "takeWhile (is_digit b) (to_string n) = to_string n" "dropWhile (is_digit b) (to_string n) = []"
    using all by (simp_all add: takeWhile_eq_all_conv)
  have "dropWhile is_space (to_string n) = to_string n" using sp by (simp add: cs)
  then show "scan_integer (to_string n) = Some (False, n, [])"
    by (simp add: scan_integer_def sg base tw val)
  have "\<not> is_space (CHR ''-'')" by (simp add: is_space_def)
  then show "scan_integer (CHR ''-'' # to_string n) = Some (True, n, [])"
    by (simp add: scan_integer_def base tw val)
qed

lemma strtol_int: "- (2 ^ 63) \<le> i \<Longrightarrow> i < 2 ^ 63 \<Longrightarrow> strtol (int_to_string i) = (i, [])"
  by (auto simp: strtol_def int_to_string_def scan_to_string scan_neg_to_string)

lemma strtoul_nat: "n < 2 ^ 64 \<Longrightarrow> strtoul (to_string n) = (n, [])"
  by (simp add: strtoul_def scan_to_string)

lemma strtol_range: "- (2 ^ 63) \<le> fst (strtol s)" "fst (strtol s) < 2 ^ 63"
  by (auto simp: strtol_def split: option.splits)

text \<open>Nothing is converted, and all characters remain.\<close>

lemma strtol_no_digit: "scan_integer s = None \<Longrightarrow> strtol s = (0, s)"
  and strtoul_no_digit: "scan_integer s = None \<Longrightarrow> strtoul s = (0, s)"
  by (simp_all add: strtol_def strtoul_def)

lemma c_string_to_string [simp]: "c_string (to_string n) = to_string n"
proof -
  have "c \<noteq> CHR 0x00" if c: "c \<in> set (to_string n)" for c
  proof -
    obtain d :: nat where "d < 10" "c = char_of (d + 48)" using to_string_digits [OF c] by blast
    then show ?thesis using digit_char(5) by simp
  qed
  then show ?thesis unfolding c_string_def takeWhile_eq_all_conv by blast
qed

lemma c_string_int [simp]: "c_string (int_to_string i) = int_to_string i"
proof -
  have "c_string (CHR ''-'' # to_string n) = CHR ''-'' # c_string (to_string n)" for n
    by (simp add: c_string_def)
  then show ?thesis by (simp add: int_to_string_def)
qed

end
