(* ===== verification/Yaml_Wrapper.thy ===== *)
theory Yaml_Wrapper
  imports Yaml_Parse Yaml_Numbers
begin

text \<open>
  The rest of \<^verbatim>\<open>YamlWrapper\<close>: where the document comes from, access by path, and the typed
  getters; \<^verbatim>\<open>Config\<close> and what \<^verbatim>\<open>Logger\<close> reads from it. The getter for
  floating point values is in \<^verbatim>\<open>Yaml_Floats\<close>.
\<close>

section \<open>Access by path\<close>

definition NOT_FOUND :: string where
  "NOT_FOUND = ''Not Found''"

text \<open>The elements that repeated \<^verbatim>\<open>std::getline\<close> delivers: a separator at the end adds nothing.\<close>

function getlines :: "char \<Rightarrow> string \<Rightarrow> string list" where
  "getlines sep s =
     (if s = [] then []
      else takeWhile (\<lambda>c. c \<noteq> sep) s # getlines sep (drop 1 (dropWhile (\<lambda>c. c \<noteq> sep) s)))"
  by pat_completeness auto
termination
proof (relation "measure (\<lambda>(sep, s). length s)", goal_cases)
  case (2 sep s)
  have "length (dropWhile (\<lambda>c. c \<noteq> sep) s) \<le> length s" by (rule length_dropWhile_le)
  then show ?case using 2 by (cases s) auto
qed simp

declare getlines.simps [simp del]

text \<open>The loop over \<^verbatim>\<open>pathElements\<close>: one level of the tree per element.\<close>

fun find_value :: "string list \<Rightarrow> yaml_node \<Rightarrow> string option" where
  "find_value [] n = None"
| "find_value (p # ps) n =
     (case find (\<lambda>c. p = getKey c) (node_children n) of
        None \<Rightarrow> None
      | Some c \<Rightarrow> if ps = [] then Some (getValue c) else find_value ps c)"

definition getValueImpl :: "yaml_node \<Rightarrow> string \<Rightarrow> char \<Rightarrow> string" where
  "getValueImpl root accessPath separator =
     (if accessPath = [] then NOT_FOUND
      else case find_value (getlines separator accessPath) root of None \<Rightarrow> NOT_FOUND | Some v \<Rightarrow> c_string v)"

section \<open>Getters\<close>

text \<open>The conversion to the type \<^verbatim>\<open>T\<close> of the caller keeps the low bits.\<close>

definition getValue_signed :: "yaml_node \<Rightarrow> string \<Rightarrow> char \<Rightarrow> bool \<times> 'w::len word" where
  "getValue_signed root path sep = (let (v, rest) = strtol (getValueImpl root path sep) in (rest = [], word_of_int v))"

definition getValue_unsigned :: "yaml_node \<Rightarrow> string \<Rightarrow> char \<Rightarrow> bool \<times> 'w::len word" where
  "getValue_unsigned root path sep = (let (v, rest) = strtoul (getValueImpl root path sep) in (rest = [], word_of_nat v))"

definition getValue_bool :: "yaml_node \<Rightarrow> string \<Rightarrow> char \<Rightarrow> bool \<times> bool" where
  "getValue_bool root path sep =
     (let value = getValueImpl root path sep
      in if value = ''true'' \<or> value = ''True'' \<or> value = ''1'' then (True, True)
         else if value = ''false'' \<or> value = ''False'' \<or> value = ''0'' then (True, False)
         else (False, False))"

definition getValue_string :: "yaml_node \<Rightarrow> string \<Rightarrow> char \<Rightarrow> bool \<times> string" where
  "getValue_string root path sep =
     (let retStr = getValueImpl root path sep in (if retStr = NOT_FOUND then False else True, retStr))"

section \<open>Reading the document\<close>

text \<open>
  The outside world: whether the parser of libyaml can be initialised, the events it delivers for a text,
  and for the contents of a file, if the file can be opened.
\<close>

record yaml_env =
  parser_initialize :: bool
  text_events :: "string \<Rightarrow> yaml_event list"
  file_events :: "string \<Rightarrow> yaml_event list option"

definition err_parser_init :: error where
  "err_parser_init = mk_error 1 ''parser init failed''"

definition err_file_read :: "string \<Rightarrow> error" where
  "err_file_read f = mk_error_fmt 1 ''file read Failed:{}'' [f]"

definition err_config_init :: "string \<Rightarrow> string \<Rightarrow> error" where
  "err_config_init doc f = mk_error_fmt 1 (''yaml config init failed StaticDoc'{}' fileName'{}'' @ [CHR 0x27]) [doc, f]"

definition initFromConstString ::
  "handler \<Rightarrow> yaml_env \<Rightarrow> string \<Rightarrow> yaml_node \<Rightarrow> error + bool \<times> yaml_node" where
  "initFromConstString h env builtInDoc root =
     (if \<not> parser_initialize env then report h err_parser_init (Inr (False, root))
      else parse h (text_events env builtInDoc) root)"

definition initFromFile ::
  "handler \<Rightarrow> yaml_env \<Rightarrow> string \<Rightarrow> yaml_node \<Rightarrow> error + bool \<times> yaml_node" where
  "initFromFile h env fileName root =
     (case file_events env fileName of
        None \<Rightarrow> Inr (False, root)
      | Some es \<Rightarrow>
          if \<not> parser_initialize env then report h err_parser_init (Inr (False, root)) else parse h es root)"

definition bind_result :: "error + 'a \<Rightarrow> ('a \<Rightarrow> error + 'b) \<Rightarrow> error + 'b" where
  "bind_result x f = (case x of Inl e \<Rightarrow> Inl e | Inr y \<Rightarrow> f y)"

lemma bind_result_simps [simp]: "bind_result (Inl e) f = Inl e" "bind_result (Inr y) f = f y"
  by (simp_all add: bind_result_def)

text \<open>The constructor; its result is the tree below \<^verbatim>\<open>root_\<close>.\<close>

definition yaml_wrapper :: "handler \<Rightarrow> yaml_env \<Rightarrow> string \<Rightarrow> string \<Rightarrow> error + yaml_node" where
  "yaml_wrapper h env staticDoc fileName =
     bind_result
       (if fileName \<noteq> [] then
          bind_result (initFromFile h env fileName YamlDoc)
            (\<lambda>(res, root). if \<not> res \<and> staticDoc = [] then report h (err_file_read fileName) (Inr (res, root))
                           else Inr (res, root))
        else Inr (False, YamlDoc))
       (\<lambda>(res, root).
          bind_result (if \<not> res \<and> staticDoc \<noteq> [] then initFromConstString h env staticDoc root else Inr (res, root))
            (\<lambda>(res, root). if \<not> res then report h (err_config_init staticDoc fileName) (Inr root) else Inr root))"

section \<open>Config and the logger's use of it\<close>

definition DEFAULT_NUMBER_OF_DISPATCHERS :: int where
  "DEFAULT_NUMBER_OF_DISPATCHERS = 4"

definition LOGGER_NAME :: string where
  "LOGGER_NAME = ''TEST_ENGINE''"

definition CONFIG_FILE_NAME :: string where
  "CONFIG_FILE_NAME = ''config.yml''"

text \<open>The document that the text \<^verbatim>\<open>DEFAULT_CONFIG\<close> is.\<close>

definition DEFAULT_CONFIG :: yaml_doc where
  "DEFAULT_CONFIG = YMap [(''logging'', YMap [(''client'', YMap
     [(''Sink'', YScalar ''Console''),
      (''Format'', YScalar ''%tf %tn %cn %mn [%lv] [%fn] %ms''),
      (''Trc.Verb'', YScalar ''2''),
      (''Pool'', YScalar ''32768'')])])]"

definition loggerName :: "yaml_node \<Rightarrow> string" where
  "loggerName configDoc =
     (let configLoggingName = getValue_string configDoc ''logging/name'' CHR ''/''
      in if fst configLoggingName then snd configLoggingName else LOGGER_NAME)"

definition getClientConfigStr :: "yaml_node \<Rightarrow> string" where
  "getClientConfigStr configDoc =
     (let configSink = getValue_string configDoc ''/logging/client/Sink'' CHR ''/'';
          configFormat = getValue_string configDoc ''/logging/client/Format'' CHR ''/'';
          configTrcVerb = getValue_signed configDoc ''/logging/client/Trc.Verb'' CHR ''/'' :: bool \<times> 32 word;
          configPool = getValue_signed configDoc ''/logging/client/Pool'' CHR ''/'' :: bool \<times> 32 word
      in ''/P7.Sink='' @ (if fst configSink then snd configSink else ''Console'') @
         '' /P7.Format='' @ [CHR 0x22] @
           (if fst configFormat then snd configFormat else ''%tf %tn %cn %mn [%lv] [%fn] %ms'') @ [CHR 0x22] @
         '' /P7.Trc.Verb='' @ int_to_string (if fst configTrcVerb then sint (snd configTrcVerb) else 0) @
         '' /P7.Pool='' @ int_to_string (if fst configPool then sint (snd configPool) else 32768))"

section \<open>Looking up a document\<close>

text \<open>
  What a path means in a document: names in mappings, the first entry with the name counts; decimal
  indices in sequences. A mapping or a sequence has the name of its class as its value.
\<close>

fun doc_value :: "yaml_doc \<Rightarrow> string" where
  "doc_value (YScalar v) = c_string v"
| "doc_value (YSeq ds) = ''YamlSequenceValue''"
| "doc_value (YMap kds) = ''YamlMappingValue''"

definition doc_child :: "string \<Rightarrow> yaml_doc \<Rightarrow> yaml_doc option" where
  "doc_child k d = (case d of
      YScalar v \<Rightarrow> None
    | YSeq ds \<Rightarrow> map_of (map (\<lambda>(i, d). (to_string i, d)) (enumerate 0 ds)) k
    | YMap kds \<Rightarrow> map_of (map (\<lambda>(k, d). (c_string k, d)) kds) k)"

fun doc_lookup :: "string list \<Rightarrow> yaml_doc \<Rightarrow> yaml_doc option" where
  "doc_lookup [] d = Some d"
| "doc_lookup (k # ks) d = (case doc_child k d of None \<Rightarrow> None | Some c \<Rightarrow> doc_lookup ks c)"

lemma find_doc_node:
  "find (\<lambda>c. k = getKey c) (map (\<lambda>(x, d). doc_node x d) xds) = map_option (doc_node k) (map_of xds k)"
proof (induction xds)
  case (Cons xd xds)
  have "getKey (doc_node x d) = x" for x d by (cases d) simp_all
  then show ?case using Cons by (auto split: prod.split)
qed simp

lemma find_child:
  "find (\<lambda>c. k = getKey c) (node_children (doc_node nm d)) = map_option (doc_node k) (doc_child k d)"
proof (cases d)
  case (YScalar v)
  then show ?thesis by (simp add: doc_child_def)
next
  case (YSeq ds)
  have "map (\<lambda>(i, d). doc_node (to_string i) d) (enumerate 0 ds) =
      map (\<lambda>(x, d). doc_node x d) (map (\<lambda>(i, d). (to_string i, d)) (enumerate 0 ds))" by auto
  then show ?thesis unfolding YSeq doc_node.simps yaml_node.sel by (simp only: find_doc_node) (simp add: doc_child_def)
next
  case (YMap kds)
  have "map (\<lambda>(k, d). doc_node (c_string k) d) kds =
      map (\<lambda>(x, d). doc_node x d) (map (\<lambda>(k, d). (c_string k, d)) kds)" by auto
  then show ?thesis unfolding YMap doc_node.simps yaml_node.sel by (simp only: find_doc_node) (simp add: doc_child_def)
qed

lemma getValue_doc_node [simp]: "getValue (doc_node nm d) = doc_value d"
  by (cases d) simp_all

lemma find_value_doc:
  "ks \<noteq> [] \<Longrightarrow> find_value ks (doc_node nm d) = map_option doc_value (doc_lookup ks d)"
proof (induction ks arbitrary: nm d)
  case (Cons k ks)
  then show ?case
    by (cases "doc_child k d"; cases "ks = []") (auto simp: find_child)
qed simp

lemma doc_child_index: "i < length ds \<Longrightarrow> doc_child (to_string i) (YSeq ds) = Some (ds ! i)"
proof -
  assume i: "i < length ds"
  have "map fst (map (\<lambda>(i, d). (to_string i, d)) (enumerate 0 ds)) = map to_string [0..<length ds]"
    by (rule nth_equalityI) (simp_all add: nth_enumerate_eq)
  then have "distinct (map fst (map (\<lambda>(i, d). (to_string i, d)) (enumerate 0 ds)))"
    by (simp add: distinct_map inj_on_def to_string_inj)
  moreover have "(to_string i, ds ! i) \<in> set (map (\<lambda>(i, d). (to_string i, d)) (enumerate 0 ds))"
    using i by (force simp: in_set_enumerate_eq)
  ultimately show ?thesis by (simp add: doc_child_def)
qed

section \<open>Paths\<close>

fun join_path :: "char \<Rightarrow> string list \<Rightarrow> string" where
  "join_path sep [] = []"
| "join_path sep [k] = k"
| "join_path sep (k # ks) = k @ sep # join_path sep ks"

definition path_names_ok :: "char \<Rightarrow> string list \<Rightarrow> bool" where
  "path_names_ok sep ks \<longleftrightarrow> ks \<noteq> [] \<and> last ks \<noteq> [] \<and> (\<forall>k \<in> set ks. sep \<notin> set k)"

lemma getlines_one: "sep \<notin> set k \<Longrightarrow> getlines sep (k @ sep # s) = k # getlines sep s"
proof -
  assume "sep \<notin> set k"
  then have k: "\<forall>c \<in> set k. c \<noteq> sep" by auto
  have "takeWhile (\<lambda>c. c \<noteq> sep) (k @ sep # s) = k" "dropWhile (\<lambda>c. c \<noteq> sep) (k @ sep # s) = sep # s"
    using k by (induction k) auto
  then show ?thesis by (subst getlines.simps) simp
qed

lemma getlines_last: "sep \<notin> set k \<Longrightarrow> k \<noteq> [] \<Longrightarrow> getlines sep k = [k]"
proof -
  assume s: "sep \<notin> set k" and k: "k \<noteq> []"
  have t: "takeWhile (\<lambda>c. c \<noteq> sep) k = k" "dropWhile (\<lambda>c. c \<noteq> sep) k = []"
    using s by (auto simp: takeWhile_eq_all_conv dropWhile_eq_Nil_conv)
  show ?thesis using k by (subst getlines.simps) (simp only: t, simp add: getlines.simps [of sep "[]"])
qed

lemma getlines_join: "path_names_ok sep ks \<Longrightarrow> getlines sep (join_path sep ks) = ks"
proof (induction sep ks rule: join_path.induct)
  case (3 sep k k' ks)
  then show ?case using getlines_one [of sep k] by (simp add: path_names_ok_def)
qed (simp_all add: path_names_ok_def getlines_last)

end
