(* ===== verification/Gateway.thy ===== *)
theory Gateway
  imports Life_Cycle_Properties Core_Run Network_Broadcast Yaml_Wrapper
begin

text \<open>
  The program \<^verbatim>\<open>apps/gateway/src/main.cpp\<close> with its root actor
  (\<^verbatim>\<open>components/gw_system\<close>) and the environment that the core gives to its actors
  (\<^verbatim>\<open>rapi_core/include/core/environment.hpp\<close>): it creates a core, initialises it with the
  root, and runs it. The root has no children, no callbacks and publishes nothing.
\<close>

section \<open>The environment\<close>

record ('m, 'p) environment =
  env_priority :: "nat prio"
  env_network :: "('m, 'p) network"

definition Environment :: "int \<Rightarrow> ('m, 'p) environment" where
  "Environment numberOfDispatchers = \<lparr>env_priority = priority_init numberOfDispatchers, env_network = network_init\<rparr>"

section \<open>The program\<close>

definition EXPECTED_ERROR_CODE :: int where
  "EXPECTED_ERROR_CODE = 42"

text \<open>The error callback prints the message and exits.\<close>

definition gateway_onError :: handler where
  "gateway_onError e = False"

definition gateway_core :: "nat core" where
  "gateway_core = core_init DEFAULT_NUMBER_OF_DISPATCHERS"

definition GwSystemRoot :: "(nat, 'u, 'cb) actor \<times> (nat, 'u, 'cb) effect list" where
  "GwSystemRoot = make_root ''GwSystemRoot'' 0 []"

text \<open>
  The system after \<^verbatim>\<open>rapiRuntime.init<GwSystemRoot>()\<close>, and after \<^verbatim>\<open>run\<close> has sent
  the start request; only the root, actor 0, exists.
\<close>

definition gateway_system :: "(nat, 'u, 'cb) system" where
  "gateway_system = \<lparr>actors = (\<lambda>i. fst GwSystemRoot), tables = (\<lambda>i. apply_listens (snd GwSystemRoot)),
     inbox = (\<lambda>i. []), outbox = (\<lambda>i. []), core_running = True\<rparr>"

definition gateway_starting :: "(nat, 'u, 'cb) system" where
  "gateway_starting = broadcast (StartReq 0) gateway_system"

section \<open>Properties\<close>

lemma agree_init:
  "agree 1 gateway_starting (system_starting 1 (\<lambda>_. 0) (\<lambda>_. ''GwSystemRoot'') :: (nat, 'u, 'cb) system)"
  by (simp add: agree_def gateway_starting_def gateway_system_def GwSystemRoot_def system_starting_def system_init_def
      broadcast_def kids_def Let_def)

lemma agree_sym: "agree N s t \<Longrightarrow> agree N t s"
  by (simp add: agree_def)

lemma agree_exec_None: "agree N s t \<Longrightarrow> sys_exec N n h im user x s = None \<longleftrightarrow> sys_exec N n h im user x t = None"
  by (cases x) (auto simp: sys_exec_def agree_def split: list.splits)

lemma agree_exec_Inl:
  "agree N s t \<Longrightarrow> sys_exec N n h im user x s = Some (Inl e) \<Longrightarrow> sys_exec N n h im user x t = Some (Inl e)"
  by (cases x) (auto simp: sys_exec_def agree_def split: if_splits list.splits sum.splits)

lemma agree_run:
  assumes "agree N s t" and "sys_run N n h im user as s = Some r"
  shows "\<exists>r'. sys_run N n h im user as t = Some r' \<and> (case r of Inl e \<Rightarrow> r' = Inl e | Inr s' \<Rightarrow> \<exists>t'. r' = Inr t' \<and> agree N s' t')"
  using assms
proof (induction as arbitrary: s t)
  case (Cons a as)
  then obtain q where q: "sys_exec N n h im user a s = Some q" by (auto split: option.splits)
  show ?case
  proof (cases q)
    case (Inl e)
    then show ?thesis using Cons.prems(2) q agree_exec_Inl [OF Cons.prems(1)] by auto
  next
    case (Inr u)
    then obtain v where "sys_exec N n h im user a t = Some (Inr v)" "agree N v u"
      using agree_exec [OF agree_sym [OF Cons.prems(1)]] q by blast
    then show ?thesis using Cons.IH [of u v] Cons.prems(2) q Inr agree_sym by fastforce
  qed
qed auto

text \<open>
  C40: the gateway starts and then waits, however the hash maps are iterated: every sequence of steps after the start request is free of errors
  and has at most six steps; \<^verbatim>\<open>run\<close> is never told to return; and when nothing is left to do the root
  is \<^verbatim>\<open>STARTED\<close>. So the program ends only by a \<^verbatim>\<open>Stop\<close> message from outside, and
  nothing in the program sends one.
\<close>

theorem gateway_waits_for_stop:
  assumes im: "iterates im" and "sys_run 1 n gateway_onError im user as gateway_starting = Some r"
  shows "\<exists>t. r = Inr t \<and> length as \<le> 6 \<and> core_running t \<and>
    (if sys_idle 1 t then astate (actors t 0) = STARTED else \<exists>x. sys_exec 1 n gateway_onError im user x t \<noteq> None)"
proof -
  have tree: "tree_ok 1 (\<lambda>_. 0)" by (simp add: tree_ok_def)
  obtain r' where run: "sys_run 1 n gateway_onError im user as (system_starting 1 (\<lambda>_. 0) (\<lambda>_. ''GwSystemRoot'')) = Some r'"
    and c: "case r of Inl e \<Rightarrow> r' = Inl e | Inr s \<Rightarrow> \<exists>t. r' = Inr t \<and> agree 1 s t"
    using agree_run [OF agree_init assms(2)] by blast
  obtain u H K where u: "r' = Inr u" "phase_inv 1 (\<lambda>_. 0) Starting H K u"
    "work 1 H K u + length as \<le> 6"
    using sys_run_inv [OF tree start_begin [OF tree] im run] unfolding start_work by auto
  then obtain t where t: "r = Inr t" "agree 1 t u" using c by (cases r) auto
  have "core_running u" using phase_invD(2,9) [OF u(2)] by (auto simp: tracked_def)
  moreover have "astate (actors u 0) = STARTED" if "sys_idle 1 u"
    using idle_all_after [OF tree u(2) that] by (simp add: life_actor_def)
  moreover have "sys_idle 1 t \<longleftrightarrow> sys_idle 1 u" using t(2) by (simp add: sys_idle_def agree_def)
  ultimately show ?thesis using t u(3) sys_idle_stuck [of 1 t n gateway_onError im user]
    by (auto simp: agree_def)
qed

lemma gateway_waits_for_stop_witness:
  "\<exists>t. sys_run 1 1 gateway_onError (newest_first ''message'') (\<lambda>c. []) [Handle 0, Effect 0, Effect 0]
      (gateway_starting :: (nat, nat, nat) system) = Some (Inr t) \<and> core_running t"
proof -
  have "case run_tabulated 1 [Handle 0, Effect 0, Effect 0] (tabulate_state 1 gateway_starting) of
      None \<Rightarrow> False | Some t \<Rightarrow> True" by code_simp
  from evaluates_run [OF this] obtain t where
    "sample_run 1 [Handle 0, Effect 0, Effect 0] gateway_starting = Some (Inr t)" by blast
  then have t: "sys_run 1 1 gateway_onError (newest_first ''message'') (\<lambda>c. []) [Handle 0, Effect 0, Effect 0]
      (gateway_starting :: (nat, nat, nat) system) = Some (Inr t)"
    by (simp add: sample_run_def gateway_onError_def [abs_def])
  from gateway_waits_for_stop [OF newest_first_iterates t] t show ?thesis by simp
qed

end
