(* ===== verification/Sml_Actor.thy ===== *)
theory Sml_Actor
  imports Life_Cycle_System
begin

text \<open>
  \<^verbatim>\<open>sml_actor/include/sml_actor/sml_actor.hpp\<close>: an actor that is driven by a state machine.
  The state machine itself, boost::sml, is not in the repository; all the code asks of it is the list of the
  event types of its transition table, and that it processes an event. A callback of such an actor is
  therefore given by the event it hands to \<^verbatim>\<open>process_event\<close>.
\<close>

section \<open>Registration of the events\<close>

text \<open>The four substitutes for the life cycle messages, the marker of boost::sml, and all other messages.\<close>

datatype ('a, 'u) sml_event =
    SmlStartReq | SmlStartCnf | SmlStopReq | SmlStopCnf
  | SmlInitial
  | SmlMessage "('a, 'u) msg_type"

type_synonym ('a, 'u) sml_actor = "('a, 'u, ('a, 'u) sml_event) actor"
type_synonym ('a, 'u) sml_effect = "('a, 'u, ('a, 'u) sml_event) effect"

definition forwardToSml ::
  "('a, 'u) sml_event \<Rightarrow> ('a, 'u) sml_actor \<Rightarrow> ('a, 'u) sml_actor \<times> ('a, 'u) sml_effect list" where
  "forwardToSml e s =
     (case e of
        SmlStartReq \<Rightarrow> snd (actor_listen_new (StartReq (actor_type s)) SmlStartReq s)
      | SmlStopReq \<Rightarrow> snd (actor_listen_new (StopReq (actor_type s)) SmlStopReq s)
      | SmlStartCnf \<Rightarrow> snd (actor_listen_new (StartCnf (actor_type s)) SmlStartCnf s)
      | SmlStopCnf \<Rightarrow> snd (actor_listen_new (StopCnf (actor_type s)) SmlStopCnf s)
      | SmlInitial \<Rightarrow> (s, [])
      | SmlMessage m \<Rightarrow> snd (actor_listen_new m (SmlMessage m) s))"

text \<open>The recursion of the struct \<^verbatim>\<open>Caller\<close> over the type list.\<close>

fun Caller_call ::
  "('a, 'u) sml_event list \<Rightarrow> ('a, 'u) sml_actor \<Rightarrow> ('a, 'u) sml_actor \<times> ('a, 'u) sml_effect list" where
  "Caller_call [] s = (s, [])"
| "Caller_call (e # es) s =
     (let (s1, e1) = forwardToSml e s; (s2, e2) = Caller_call es s1 in (s2, e1 @ e2))"

definition SmlActor ::
  "string \<Rightarrow> 'a \<Rightarrow> ('a, 'u) sml_event list \<Rightarrow> ('a, 'u) sml_actor \<times> ('a, 'u) sml_effect list" where
  "SmlActor name self events = Caller_call events (actor_ctor name self)"

text \<open>The instance that is created, \<^verbatim>\<open>ActorLifeCycle<SmlActor>\<close>.\<close>

definition make_SmlActor ::
  "string \<Rightarrow> 'a \<Rightarrow> ('a, 'u) sml_event list \<Rightarrow> ('a, 'u) sml_actor \<times> ('a, 'u) sml_effect list" where
  "make_SmlActor name self events =
     (let (s1, e1) = SmlActor name self events; (s2, e2) = life_cycle_ctor s1 in (s2, e1 @ e2))"

section \<open>What is registered\<close>

fun sml_message :: "'a \<Rightarrow> ('a, 'u) sml_event \<Rightarrow> ('a, 'u) msg_type option" where
  "sml_message self SmlStartReq = Some (StartReq self)"
| "sml_message self SmlStopReq = Some (StopReq self)"
| "sml_message self SmlStartCnf = Some (StartCnf self)"
| "sml_message self SmlStopCnf = Some (StopCnf self)"
| "sml_message self SmlInitial = None"
| "sml_message self (SmlMessage m) = Some m"

text \<open>Message, handle and event of every registration.\<close>

fun registrations ::
  "'a \<Rightarrow> handle \<Rightarrow> ('a, 'u) sml_event list \<Rightarrow> (('a, 'u) msg_type \<times> handle \<times> ('a, 'u) sml_event) list" where
  "registrations self k [] = []"
| "registrations self k (e # es) = (case sml_message self e of
      None \<Rightarrow> registrations self k es
    | Some m \<Rightarrow> (m, k + 1, e) # registrations self (k + 1) es)"

definition is_cnf :: "('a, 'u) msg_type \<Rightarrow> bool" where
  "is_cnf m \<longleftrightarrow> is_StartCnfHelper m \<or> is_StopCnfHelper m"

definition delayed_of :: "('a, 'u) msg_type \<times> handle \<times> 'cb \<Rightarrow> ('a, 'u, 'cb) delayed" where
  "delayed_of = (\<lambda>(m, h, e). DelayedListen m h e)"

definition listen_of :: "('a, 'u) msg_type \<times> handle \<times> 'cb \<Rightarrow> ('a, 'u, 'cb) effect" where
  "listen_of = (\<lambda>(m, h, e). PortListen m h (UserCb e))"

lemma listen_new_init:
  "astate s = INIT \<Longrightarrow> snd (actor_listen_new m cb s) =
     (let h = portHandleCounter s + 1; s1 = s\<lparr>portHandleCounter := h\<rparr>
      in if is_cnf m then (s1\<lparr>delayedListens := delayedListens s @ [DelayedListen m h cb]\<rparr>, [])
         else (s1, [PortListen m h (UserCb cb)]))"
  by (simp add: actor_listen_new_def newCallBackHandle_def actor_listen_def is_cnf_def Let_def)

lemma forward_init:
  "astate s = INIT \<Longrightarrow> forwardToSml e s = (case sml_message (actor_type s) e of
      None \<Rightarrow> (s, []) | Some m \<Rightarrow> snd (actor_listen_new m e s))"
  by (cases e) (simp_all add: forwardToSml_def)

lemma Caller_call_eq:
  fixes es :: "('a, 'u) sml_event list" and s :: "('a, 'u) sml_actor"
  assumes "astate s = INIT"
  defines "rs \<equiv> registrations (actor_type s) (portHandleCounter s) es"
  shows "Caller_call es s = (s\<lparr>portHandleCounter := portHandleCounter s + int (length rs),
      delayedListens := delayedListens s @ map delayed_of (filter (\<lambda>r. is_cnf (fst r)) rs)\<rparr>,
    map listen_of (filter (\<lambda>r. \<not> is_cnf (fst r)) rs))"
  using assms(1) unfolding rs_def
proof (induction es arbitrary: s)
  case Nil
  then show ?case by simp
next
  case (Cons e es)
  show ?case
  proof (cases "sml_message (actor_type s) e")
    case None
    then show ?thesis using Cons by (simp add: forward_init)
  next
    case (Some m)
    let ?s1 = "s\<lparr>portHandleCounter := portHandleCounter s + 1\<rparr>"
    let ?s2 = "?s1\<lparr>delayedListens := delayedListens s @ [DelayedListen m (portHandleCounter s + 1) e]\<rparr>"
    have "astate ?s1 = INIT" "astate ?s2 = INIT" using Cons.prems by simp_all
    from Cons.IH [OF this(1)] Cons.IH [OF this(2)] show ?thesis
      using Cons.prems Some
      by (simp add: forward_init listen_new_init Let_def delayed_of_def listen_of_def split: prod.splits)
  qed
qed

lemma registrations_handles:
  "(m, h, e) \<in> set (registrations self k es) \<Longrightarrow> k < h"
  by (induction self k es rule: registrations.induct) (fastforce split: option.splits)+

lemma registrations_sorted: "sorted_wrt (\<lambda>r r'. fst (snd r) < fst (snd r')) (registrations self k es)"
  by (induction self k es rule: registrations.induct)
    (auto split: option.splits dest: registrations_handles)

lemma public_insert_last: "\<forall>x \<in> set xs. fst x < h \<Longrightarrow> public_insert h cb xs = xs @ [(h, cb)]"
proof -
  assume a: "\<forall>x \<in> set xs. fst x < h"
  then have "map_of xs h = None" by (auto simp: map_of_eq_None_iff)
  moreover have "takeWhile (\<lambda>x. fst x < h) xs = xs" "dropWhile (\<lambda>x. fst x < h) xs = []"
    using a by (simp_all add: takeWhile_eq_all_conv dropWhile_eq_Nil_conv)
  ultimately show ?thesis by (simp add: public_insert_def)
qed

text \<open>The delayed listens, in order: the actor's own confirmations go to its lists, the others to the port.\<close>

lemma run_delayed_eq:
  assumes "\<forall>r \<in> set rs. is_cnf (fst r)" and "sorted_wrt (\<lambda>r r'. fst (snd r) < fst (snd r')) rs"
    and "startCnfTypeId s = type_id (StartCnf self)" and "stopCnfTypeId s = type_id (StopCnf self)"
    and "\<forall>r \<in> set rs. (\<forall>x \<in> set (publicStartCallbackList s). fst x < fst (snd r)) \<and>
      (\<forall>x \<in> set (publicStopCallbackList s). fst x < fst (snd r))"
  shows "run_delayed (map delayed_of rs) s =
    (s\<lparr>publicStartCallbackList := publicStartCallbackList s @ map snd (filter (\<lambda>r. fst r = StartCnf self) rs),
       publicStopCallbackList := publicStopCallbackList s @ map snd (filter (\<lambda>r. fst r = StopCnf self) rs)\<rparr>,
     map listen_of (filter (\<lambda>r. fst r \<noteq> StartCnf self \<and> fst r \<noteq> StopCnf self) rs))"
  using assms
proof (induction rs arbitrary: s)
  case Nil
  then show ?case by simp
next
  case (Cons r rs)
  obtain m h e where r: "r = (m, h, e)" by (cases r)
  have below: "\<forall>x \<in> set (publicStartCallbackList s). fst x < h" "\<forall>x \<in> set (publicStopCallbackList s). fst x < h"
    using Cons.prems(5) by (simp_all add: r)
  note ins = public_insert_last [OF below(1)] public_insert_last [OF below(2)]
  have cnf: "is_StartCnfHelper m \<or> is_StopCnfHelper m" using Cons.prems(1) by (simp add: r is_cnf_def)
  consider (start) "m = StartCnf self" | (stop) "m = StopCnf self" | (other) "m \<noteq> StartCnf self" "m \<noteq> StopCnf self"
    by blast
  then show ?case
  proof cases
    case start
    let ?s = "s\<lparr>publicStartCallbackList := publicStartCallbackList s @ [(h, e)]\<rparr>"
    have "special_listen m h e s = (?s, [])"
      using start Cons.prems(3) by (simp add: special_listen_def ins)
    moreover have "\<forall>r \<in> set rs. (\<forall>x \<in> set (publicStartCallbackList ?s). fst x < fst (snd r)) \<and>
        (\<forall>x \<in> set (publicStopCallbackList ?s). fst x < fst (snd r))"
      using Cons.prems(2,5) by (auto simp: r)
    ultimately show ?thesis
      using Cons.IH [of ?s] Cons.prems start by (simp add: r delayed_of_def)
  next
    case stop
    let ?s = "s\<lparr>publicStopCallbackList := publicStopCallbackList s @ [(h, e)]\<rparr>"
    have "special_listen m h e s = (?s, [])"
      using stop Cons.prems(4) by (simp add: special_listen_def ins)
    moreover have "\<forall>r \<in> set rs. (\<forall>x \<in> set (publicStartCallbackList ?s). fst x < fst (snd r)) \<and>
        (\<forall>x \<in> set (publicStopCallbackList ?s). fst x < fst (snd r))"
      using Cons.prems(2,5) by (auto simp: r)
    ultimately show ?thesis
      using Cons.IH [of ?s] Cons.prems stop by (simp add: r delayed_of_def)
  next
    case other
    have "special_listen m h e s = (s, [PortListen m h (UserCb e)])"
      using other Cons.prems(3,4) by (cases m) (simp_all add: special_listen_def)
    then show ?thesis
      using Cons.IH [of s] Cons.prems other by (simp add: r delayed_of_def listen_of_def)
  qed
qed

section \<open>The actor after its construction\<close>

definition own_cnf :: "'a \<Rightarrow> ('a, 'u) msg_type \<Rightarrow> bool" where
  "own_cnf self m \<longleftrightarrow> m = StartCnf self \<or> m = StopCnf self"

definition events_for :: "'a \<Rightarrow> ('a, 'u) msg_type \<Rightarrow> ('a, 'u) sml_event list \<Rightarrow> ('a, 'u) sml_event list" where
  "events_for self m es = filter (\<lambda>e. sml_message self e = Some m) es"

lemma registrations_events:
  "map (\<lambda>r. snd (snd r)) (filter (\<lambda>r. fst r = m) (registrations self k es)) = events_for self m es"
  by (induction self k es rule: registrations.induct) (auto simp: events_for_def split: option.splits)

lemma registrations_bound:
  "(m, h, e) \<in> set (registrations self k es) \<Longrightarrow> h \<le> k + int (length (registrations self k es))"
  by (induction self k es rule: registrations.induct) (fastforce split: option.splits)+

lemma make_SmlActor_eq:
  fixes es :: "('a, 'u) sml_event list" and self :: 'a
  defines "rs \<equiv> registrations self 0 es"
  shows "\<exists>s. make_SmlActor nm self es = (s,
      map listen_of (filter (\<lambda>r. \<not> is_cnf (fst r)) rs @ filter (\<lambda>r. is_cnf (fst r) \<and> \<not> own_cnf self (fst r)) rs) @
      [PortListen (StartReq self) (int (length rs) + 1) OnStartReq,
       PortListen (StopReq self) (int (length rs) + 2) OnStopReq]) \<and>
    astate s = CTOR_FINISHED \<and> delayedListens s = [] \<and>
    publicStartCallbackList s = map snd (filter (\<lambda>r. fst r = StartCnf self) rs) \<and>
    publicStopCallbackList s = map snd (filter (\<lambda>r. fst r = StopCnf self) rs)"
proof -
  let ?s0 = "actor_ctor nm self :: ('a, 'u) sml_actor"
  let ?cs = "filter (\<lambda>r. is_cnf (fst r)) rs"
  let ?s1 = "?s0\<lparr>portHandleCounter := int (length rs), delayedListens := map delayed_of ?cs\<rparr>"
  have s1: "SmlActor nm self es = (?s1, map listen_of (filter (\<lambda>r. \<not> is_cnf (fst r)) rs))"
    using Caller_call_eq [of ?s0 es] by (simp add: SmlActor_def rs_def actor_ctor_def)
  let ?s2 = "?s1\<lparr>startCnfTypeId := type_id (StartCnf self), stopCnfTypeId := type_id (StopCnf self),
      astate := CTOR_FINISHED\<rparr>"
  have sorted: "sorted_wrt (\<lambda>r r'. fst (snd r) < fst (snd r')) ?cs"
    unfolding rs_def by (intro sorted_wrt_filter registrations_sorted)
  have empty: "publicStartCallbackList ?s2 = []" "publicStopCallbackList ?s2 = []" by (simp_all add: actor_ctor_def)
  have own: "filter (\<lambda>r. fst r = StartCnf self) ?cs = filter (\<lambda>r. fst r = StartCnf self) rs"
    "filter (\<lambda>r. fst r = StopCnf self) ?cs = filter (\<lambda>r. fst r = StopCnf self) rs"
    "filter (\<lambda>r. fst r \<noteq> StartCnf self \<and> fst r \<noteq> StopCnf self) ?cs =
      filter (\<lambda>r. is_cnf (fst r) \<and> \<not> own_cnf self (fst r)) rs"
    unfolding filter_filter by (rule filter_cong; auto simp: is_cnf_def own_cnf_def)+
  have "run_delayed (map delayed_of ?cs) ?s2 =
      (?s2\<lparr>publicStartCallbackList := map snd (filter (\<lambda>r. fst r = StartCnf self) rs),
           publicStopCallbackList := map snd (filter (\<lambda>r. fst r = StopCnf self) rs)\<rparr>,
       map listen_of (filter (\<lambda>r. is_cnf (fst r) \<and> \<not> own_cnf self (fst r)) rs))"
    using run_delayed_eq [of ?cs ?s2 self, OF _ sorted] unfolding own empty by simp
  then show ?thesis
    by (simp add: make_SmlActor_def s1 life_cycle_ctor_def SetState_def actor_ctor_def core_listen_eq Let_def)
qed

lemma listen_of_handles: "map listen_handle (map listen_of rs) = map (\<lambda>r. Some (fst (snd r))) rs"
  by (auto simp: listen_of_def)

lemma listen_of_calls: "listens_of m (map listen_of rs) = map (\<lambda>r. UserCb (snd (snd r))) (filter (\<lambda>r. fst r = m) rs)"
  by (induction rs) (auto simp: listen_of_def)

text \<open>The registrations that end up at the port: those of other messages, then the other confirmations.\<close>

definition port_registrations :: "'a \<Rightarrow> ('a, 'u) sml_event list \<Rightarrow>
    (('a, 'u) msg_type \<times> handle \<times> ('a, 'u) sml_event) list" where
  "port_registrations self es = (let rs = registrations self 0 es in
     filter (\<lambda>r. \<not> is_cnf (fst r)) rs @ filter (\<lambda>r. is_cnf (fst r) \<and> \<not> own_cnf self (fst r)) rs)"

lemma port_registrations_distinct: "distinct (map (\<lambda>r. fst (snd r)) (port_registrations self es))"
proof -
  let ?rs = "registrations self 0 es"
  have "distinct (map (\<lambda>r. fst (snd r)) ?rs)"
    using registrations_sorted [of self 0 es] strict_sorted_iff [of "map (\<lambda>r. fst (snd r)) ?rs"]
    by (simp add: sorted_wrt_map)
  then have "distinct ?rs" "inj_on (\<lambda>r. fst (snd r)) (set ?rs)" by (simp_all add: distinct_map)
  then show ?thesis
    unfolding distinct_map port_registrations_def Let_def by (auto intro: inj_on_subset)
qed

lemma port_registrations_bound:
  "r \<in> set (port_registrations self es) \<Longrightarrow> fst (snd r) \<le> int (length (registrations self 0 es))"
  using registrations_bound [of "fst r" "fst (snd r)" "snd (snd r)" self 0 es]
  by (auto simp: port_registrations_def Let_def)

lemma port_registrations_calls:
  "listens_of m (map listen_of (port_registrations self es)) =
     (if own_cnf self m then [] else map UserCb (events_for self m es))"
proof -
  let ?rs = "registrations self 0 es"
  have split: "filter (\<lambda>r. fst r = m) (port_registrations self es) =
      filter (\<lambda>r. \<not> is_cnf (fst r) \<and> fst r = m) ?rs @
      filter (\<lambda>r. (is_cnf (fst r) \<and> \<not> own_cnf self (fst r)) \<and> fst r = m) ?rs"
    by (simp add: port_registrations_def Let_def)
  have own: "own_cnf self m \<Longrightarrow> is_cnf m" by (auto simp: own_cnf_def is_cnf_def)
  have "filter (\<lambda>r. fst r = m) (port_registrations self es) =
      (if own_cnf self m then [] else filter (\<lambda>r. fst r = m) ?rs)"
  proof (cases "is_cnf m")
    case True
    then have "filter (\<lambda>r. \<not> is_cnf (fst r) \<and> fst r = m) ?rs = []"
      "filter (\<lambda>r. (is_cnf (fst r) \<and> \<not> own_cnf self (fst r)) \<and> fst r = m) ?rs =
        (if own_cnf self m then [] else filter (\<lambda>r. fst r = m) ?rs)"
      by (auto simp: filter_empty_conv intro: filter_cong)
    then show ?thesis using split by simp
  next
    case False
    then have "filter (\<lambda>r. \<not> is_cnf (fst r) \<and> fst r = m) ?rs = filter (\<lambda>r. fst r = m) ?rs"
      "filter (\<lambda>r. (is_cnf (fst r) \<and> \<not> own_cnf self (fst r)) \<and> fst r = m) ?rs = []"
      by (auto simp: filter_empty_conv intro: filter_cong)
    then show ?thesis using split own False by auto
  qed
  then show ?thesis
    unfolding listen_of_calls using registrations_events [of m self 0 es, symmetric] by simp
qed

text \<open>
  C36: A state machine actor after its construction: for a message its port calls the state machine once for
  every event of the transition table that stands for this message, and the handlers of the life cycle
  for the requests, in no particular order (the port's vectors are hash maps); only its own start and stop
  confirmations are not listened for but called by the actor itself, in the order of the table (these lists
  are sorted by handle). The delayed listens are all done.
\<close>

theorem sml_actor_listens:
  assumes "iterates im"
  shows "case make_SmlActor nm self es of (s, fs) \<Rightarrow>
     astate s = CTOR_FINISHED \<and> delayedListens s = [] \<and>
     map snd (publicStartCallbackList s) = events_for self (StartCnf self) es \<and>
     map snd (publicStopCallbackList s) = events_for self (StopCnf self) es \<and>
     mset (ordered_calls im m (apply_listens fs)) =
       mset ((if own_cnf self m then [] else map UserCb (events_for self m es)) @
         (if m = StartReq self then [OnStartReq] else if m = StopReq self then [OnStopReq] else []))"
proof -
  let ?rs = "registrations self 0 es" and ?ls = "port_registrations self es"
  obtain s fs where mk: "make_SmlActor nm self es = (s, fs)" and fs: "fs = map listen_of ?ls @
      [PortListen (StartReq self) (int (length ?rs) + 1) OnStartReq,
       PortListen (StopReq self) (int (length ?rs) + 2) OnStopReq]"
    and s: "astate s = CTOR_FINISHED" "delayedListens s = []"
      "publicStartCallbackList s = map snd (filter (\<lambda>r. fst r = StartCnf self) ?rs)"
      "publicStopCallbackList s = map snd (filter (\<lambda>r. fst r = StopCnf self) ?rs)"
    using make_SmlActor_eq [of nm self es] by (auto simp: port_registrations_def Let_def)
  have "map listen_handle fs = map Some (map (\<lambda>r. fst (snd r)) ?ls @ [int (length ?rs) + 1, int (length ?rs) + 2])"
    unfolding fs map_append listen_of_handles by simp
  moreover have "distinct (map (\<lambda>r. fst (snd r)) ?ls @ [int (length ?rs) + 1, int (length ?rs) + 2])"
    using port_registrations_distinct [of self es] port_registrations_bound [of _ self es] by fastforce
  ultimately have "distinct (map listen_handle fs)" by (simp only: distinct_map inj_Some)
  moreover have "\<forall>e \<in> set fs. listen_handle e \<noteq> None" by (auto simp: fs listen_of_def)
  ultimately have tc: "table_calls m (apply_listens fs) = listens_of m fs"
    using apply_listens_calls [of fs m] by blast
  have core: "listens_of m [PortListen (StartReq self) (int (length ?rs) + 1) OnStartReq,
        PortListen (StopReq self) (int (length ?rs) + 2) OnStopReq] =
      (if m = StartReq self then [OnStartReq] else if m = StopReq self then [OnStopReq] else [])"
    by auto
  have "table_calls m (apply_listens fs) = (if own_cnf self m then [] else map UserCb (events_for self m es)) @
      (if m = StartReq self then [OnStartReq] else if m = StopReq self then [OnStopReq] else [])"
    unfolding tc unfolding fs listens_of_simps(2) port_registrations_calls core by (rule refl)
  then show ?thesis
    using s registrations_events [of "StartCnf self" self 0 es] registrations_events [of "StopCnf self" self 0 es]
      ordered_calls_mset [OF assms, of m "apply_listens fs"]
    by (simp add: mk comp_def)
qed

lemma sml_actor_listens_witness:
  "\<exists>fs s. make_SmlActor ''A'' (4 :: nat) [SmlStartCnf, SmlStartReq, SmlMessage (User (7 :: nat))] = (s, fs) \<and>
     mset (ordered_calls (newest_first ''M'') (StartReq 4) (apply_listens fs)) = {#UserCb SmlStartReq, OnStartReq#} \<and>
     map snd (publicStartCallbackList s) = [SmlStartCnf]"
  using sml_actor_listens [OF newest_first_iterates [where nm = "''M''"], where nm = "''A''" and self = "4 :: nat" and es =
      "[SmlStartCnf, SmlStartReq, SmlMessage (User (7 :: nat))]" and m = "StartReq 4"]
  by (cases "make_SmlActor ''A'' (4 :: nat) [SmlStartCnf, SmlStartReq, SmlMessage (User (7 :: nat))]")
    (simp add: events_for_def own_cnf_def)

end
