(* ===== verification/Logger_Setup.thy ===== *)
theory Logger_Setup
  imports Yaml_Wrapper
begin

text \<open>
  The construction of the logger, \<^verbatim>\<open>adstlog_cxx/src/adstlog.cpp\<close>, with the holder of
  trace objects, \<^verbatim>\<open>p7_trace_wrapper.hpp\<close>, and the macros of
  \<^verbatim>\<open>adstlog.hpp\<close> with which every class of the framework fetches its channels. The tracing
  library P7 is a parameter: whether it creates a client or a channel, and what it finds under a name. A null
  pointer is \<open>None\<close>.
\<close>

record ('c, 't) p7 =
  P7_Create_Client :: "string \<Rightarrow> 'c option"
  P7_Create_Trace :: "'c \<Rightarrow> string \<Rightarrow> 't option"

section \<open>The holder of a trace object\<close>

record 'o managed =
  resource :: "'o option"

definition ManageTraceObj :: "(string \<Rightarrow> 'o option) \<Rightarrow> string \<Rightarrow> 'o managed" where
  "ManageTraceObj creator name = \<lparr>resource = creator name\<rparr>"

definition getObj :: "'o managed \<Rightarrow> 'o option" where
  "getObj m = resource m"

text \<open>The destructor: the objects it releases.\<close>

definition managed_release :: "'o managed \<Rightarrow> 'o list" where
  "managed_release m = (case resource m of None \<Rightarrow> [] | Some r \<Rightarrow> [r])"

section \<open>The logger\<close>

definition TRACE_CHANNELS :: "string list" where
  "TRACE_CHANNELS = [''msg_tx'', ''msg_rx'', ''grpc_rx'', ''grpc_tx'', ''grpc'', ''core'', ''actor'']"

text \<open>
  \<open>shared_client\<close> and \<open>shared_traces\<close> are the effects on P7: under which names
  \<^verbatim>\<open>Share\<close> has been called.
\<close>

record ('c, 't) logger =
  lg_client :: "'c managed"
  lg_channels :: "'t managed list"
  shared_client :: "string option"
  shared_traces :: "(string \<times> 't) list"

definition err_no_client :: "string \<Rightarrow> error" where
  "err_no_client name = mk_error_fmt 7 (''initializeLogging failed to create client: '{}'' @ [CHR 0x27]) [name]"

definition err_no_channel :: "string \<Rightarrow> error" where
  "err_no_channel name = mk_error_fmt 7 (''initializeLogging failed to create channel: '{}'' @ [CHR 0x27]) [name]"

fun open_channels ::
  "handler \<Rightarrow> (string \<Rightarrow> 't option) \<Rightarrow> string list \<Rightarrow> ('c, 't) logger \<Rightarrow> error + ('c, 't) logger" where
  "open_channels h create [] lg = Inr lg"
| "open_channels h create (channel # cs) lg =
     (let m = ManageTraceObj create channel; lg1 = lg\<lparr>lg_channels := lg_channels lg @ [m]\<rparr>
      in case getObj m of
           None \<Rightarrow> report h (err_no_channel channel) (Inr lg1)
         | Some t \<Rightarrow> open_channels h create cs (lg1\<lparr>shared_traces := shared_traces lg1 @ [(channel, t)]\<rparr>))"

definition logger_ctor :: "handler \<Rightarrow> ('c, 't) p7 \<Rightarrow> yaml_node \<Rightarrow> error + ('c, 't) logger" where
  "logger_ctor h p configDoc =
     (let client = ManageTraceObj (P7_Create_Client p) (getClientConfigStr configDoc);
          lg = \<lparr>lg_client = client, lg_channels = [], shared_client = None, shared_traces = []\<rparr>
      in case getObj client of
           None \<Rightarrow> report h (err_no_client (loggerName configDoc)) (Inr lg)
         | Some c \<Rightarrow> open_channels h (P7_Create_Trace p c) TRACE_CHANNELS
                      (lg\<lparr>shared_client := Some (loggerName configDoc)\<rparr>))"

text \<open>The destructor of the compiler: \<^verbatim>\<open>channels_\<close> before \<^verbatim>\<open>client_\<close>.\<close>

definition logger_release :: "('c, 't) logger \<Rightarrow> ('c + 't) list" where
  "logger_release lg = map Inr (concat (map managed_release (lg_channels lg))) @ map Inl (managed_release (lg_client lg))"

text \<open>
  The handler of the signals ends the process with this status; a signal that cannot be caught does so
  without the handler.
\<close>

definition sigHandlerFunc :: "int \<Rightarrow> int" where
  "sigHandlerFunc sigNum = 0x80 + sigNum"

section \<open>The channels of an actor\<close>

text \<open>
  \<^verbatim>\<open>ADSTLOG_INIT_ACTOR_TRACE_MODULES\<close>: fetches the seven channels and then registers a
  module with each of them, through the pointer it got. \<open>None\<close> stands for the call through a null
  pointer.
\<close>

definition ACTOR_CHANNELS :: "string list" where
  "ACTOR_CHANNELS = [''actor'', ''msg_tx'', ''msg_rx'', ''grpc_rx'', ''grpc_tx'', ''grpc'', ''core'']"

definition init_actor_trace_modules :: "(string \<Rightarrow> 't option) \<Rightarrow> 't list option" where
  "init_actor_trace_modules P7_Get_Shared_Trace =
     those (map (\<lambda>n. getObj (ManageTraceObj P7_Get_Shared_Trace n)) ACTOR_CHANNELS)"

section \<open>Properties\<close>

lemma those_eq_None: "those xs = None \<longleftrightarrow> None \<in> set xs"
  by (induction xs) (auto split: option.splits)

lemma channels_same: "set ACTOR_CHANNELS = set TRACE_CHANNELS"
  by (auto simp: ACTOR_CHANNELS_def TRACE_CHANNELS_def)

lemma open_channels_result:
  assumes "open_channels h create cs lg = r"
  shows "case r of
      Inl e \<Rightarrow> \<exists>c \<in> set cs. create c = None \<and> e = err_no_channel c \<and> \<not> h e
    | Inr lg' \<Rightarrow> lg_client lg' = lg_client lg \<and> shared_client lg' = shared_client lg \<and>
        (\<exists>ds. shared_traces lg' = shared_traces lg @ map (\<lambda>c. (c, the (create c))) ds \<and>
           (\<forall>c \<in> set ds. create c \<noteq> None) \<and>
           (ds = cs \<and> lg_channels lg' = lg_channels lg @ map (ManageTraceObj create) ds \<or>
            (\<exists>c cs'. cs = ds @ c # cs' \<and> create c = None \<and> h (err_no_channel c) \<and>
               lg_channels lg' = lg_channels lg @ map (ManageTraceObj create) (ds @ [c]))))"
  using assms
proof (induction cs arbitrary: lg)
  case (Cons c cs)
  show ?case
  proof (cases "create c")
    case None
    then show ?thesis
      using Cons.prems by (auto simp: ManageTraceObj_def getObj_def report_def Let_def intro!: exI [of _ "[]"])
  next
    case (Some t)
    let ?lg = "lg\<lparr>lg_channels := lg_channels lg @ [ManageTraceObj create c], shared_traces := shared_traces lg @ [(c, t)]\<rparr>"
    have "open_channels h create cs ?lg = r"
      using Cons.prems Some by (simp add: ManageTraceObj_def getObj_def Let_def)
    note IH = Cons.IH [OF this]
    show ?thesis
    proof (cases r)
      case (Inl e)
      then show ?thesis using IH by auto
    next
      case (Inr lg')
      then obtain ds where "lg_client lg' = lg_client lg" "shared_client lg' = shared_client lg"
        "shared_traces lg' = shared_traces lg @ (c, t) # map (\<lambda>c. (c, the (create c))) ds"
        "\<forall>c \<in> set ds. create c \<noteq> None"
        "ds = cs \<and> lg_channels lg' = lg_channels lg @ ManageTraceObj create c # map (ManageTraceObj create) ds \<or>
          (\<exists>d cs'. cs = ds @ d # cs' \<and> create d = None \<and> h (err_no_channel d) \<and>
             lg_channels lg' = lg_channels lg @ ManageTraceObj create c # map (ManageTraceObj create) (ds @ [d]))"
        using IH by auto
      then show ?thesis using Inr Some by (auto intro!: exI [of _ "c # ds"])
    qed
  qed
qed auto

text \<open>
  C38: after the construction of the logger the actors find their channels: whenever the constructor ends,
  no actor registers its trace modules through a null pointer, provided P7 created the client and all
  channels; and if one of these failed, every actor does, so an error callback that returns only postpones
  the crash to the first actor.
\<close>

theorem actor_traces_exist:
  assumes "logger_ctor h p doc = Inr lg" and "\<forall>n. P7_Get_Shared_Trace n = map_of (shared_traces lg) n"
  shows "init_actor_trace_modules P7_Get_Shared_Trace \<noteq> None \<longleftrightarrow>
     (\<exists>c. P7_Create_Client p (getClientConfigStr doc) = Some c \<and> (\<forall>n \<in> set TRACE_CHANNELS. P7_Create_Trace p c n \<noteq> None))"
proof (cases "P7_Create_Client p (getClientConfigStr doc)")
  case None
  then have "shared_traces lg = []"
    using assms(1) by (auto simp: logger_ctor_def ManageTraceObj_def getObj_def Let_def)
  then show ?thesis
    using None assms(2)
    by (simp add: init_actor_trace_modules_def ManageTraceObj_def getObj_def those_eq_None ACTOR_CHANNELS_def)
next
  case (Some c)
  let ?create = "P7_Create_Trace p c"
  let ?lg0 = "\<lparr>lg_client = \<lparr>resource = Some c\<rparr>, lg_channels = [], shared_client = Some (loggerName doc),
    shared_traces = []\<rparr>"
  have o: "open_channels h ?create TRACE_CHANNELS ?lg0 = Inr lg"
    using assms(1) Some by (simp add: logger_ctor_def ManageTraceObj_def getObj_def Let_def)
  obtain ds where ds: "shared_traces lg = map (\<lambda>c. (c, the (?create c))) ds" "\<forall>c \<in> set ds. ?create c \<noteq> None"
    "ds = TRACE_CHANNELS \<or> (\<exists>d cs. TRACE_CHANNELS = ds @ d # cs \<and> ?create d = None)"
    using open_channels_result [OF o] by auto
  have "init_actor_trace_modules P7_Get_Shared_Trace \<noteq> None \<longleftrightarrow>
      (\<forall>n \<in> set TRACE_CHANNELS. P7_Get_Shared_Trace n \<noteq> None)"
    unfolding channels_same [symmetric]
    by (simp add: init_actor_trace_modules_def ManageTraceObj_def getObj_def those_eq_None image_iff eq_commute [of None])
  moreover have "P7_Get_Shared_Trace n \<noteq> None \<longleftrightarrow> n \<in> set ds" for n
    using assms(2) by (simp add: ds(1) map_of_map_restrict restrict_map_def)
  ultimately have "init_actor_trace_modules P7_Get_Shared_Trace \<noteq> None \<longleftrightarrow> set TRACE_CHANNELS \<subseteq> set ds" by blast
  moreover have "set TRACE_CHANNELS \<subseteq> set ds \<longleftrightarrow> (\<forall>n \<in> set TRACE_CHANNELS. ?create n \<noteq> None)"
    using ds(3)
  proof
    assume "ds = TRACE_CHANNELS"
    then show ?thesis using ds(2) by simp
  next
    assume "\<exists>d cs. TRACE_CHANNELS = ds @ d # cs \<and> ?create d = None"
    then obtain d where "d \<in> set TRACE_CHANNELS" "?create d = None" by (metis in_set_conv_decomp)
    then show ?thesis using ds(2) by (metis subsetD)
  qed
  ultimately show ?thesis using Some by simp
qed

definition demo_p7 :: "(nat, string) p7" where
  "demo_p7 = \<lparr>P7_Create_Client = (\<lambda>n. Some 1), P7_Create_Trace = (\<lambda>c n. Some n)\<rparr>"

lemma actor_traces_exist_witness:
  "\<exists>lg. logger_ctor onErrorFunc demo_p7 YamlDoc = Inr lg \<and> init_actor_trace_modules (map_of (shared_traces lg)) \<noteq> None"
proof -
  obtain lg where lg: "logger_ctor onErrorFunc demo_p7 YamlDoc = Inr lg"
    by (simp add: logger_ctor_def demo_p7_def ManageTraceObj_def getObj_def TRACE_CHANNELS_def)
  from actor_traces_exist [OF lg] lg show ?thesis by (simp add: demo_p7_def)
qed

text \<open>
  Lemma: every object of P7 that the logger has created is released exactly once when the logger is destroyed,
  the channels in the order of their creation and the client after them; and each of them was shared before.
\<close>

theorem logger_releases_all:
  assumes "logger_ctor h p doc = Inr lg"
  shows "logger_release lg = map Inr (map snd (shared_traces lg)) @
    (case P7_Create_Client p (getClientConfigStr doc) of None \<Rightarrow> [] | Some c \<Rightarrow> [Inl c])"
proof (cases "P7_Create_Client p (getClientConfigStr doc)")
  case None
  then show ?thesis
    using assms by (auto simp: logger_ctor_def ManageTraceObj_def getObj_def logger_release_def managed_release_def Let_def)
next
  case (Some c)
  let ?create = "P7_Create_Trace p c"
  have rel: "concat (map managed_release (map (ManageTraceObj ?create) ds)) = map (\<lambda>n. the (?create n)) ds"
    if "\<forall>n \<in> set ds. ?create n \<noteq> None" for ds
    using that by (induction ds) (auto simp: ManageTraceObj_def managed_release_def)
  let ?lg0 = "\<lparr>lg_client = \<lparr>resource = Some c\<rparr>, lg_channels = [], shared_client = Some (loggerName doc),
    shared_traces = []\<rparr>"
  have o: "open_channels h ?create TRACE_CHANNELS ?lg0 = Inr lg"
    using assms Some by (simp add: logger_ctor_def ManageTraceObj_def getObj_def Let_def)
  obtain ds where r: "resource (lg_client lg) = Some c" "shared_traces lg = map (\<lambda>c. (c, the (?create c))) ds"
    and d: "\<forall>c \<in> set ds. ?create c \<noteq> None"
    and "lg_channels lg = map (ManageTraceObj ?create) ds \<or>
      (\<exists>d. ?create d = None \<and> lg_channels lg = map (ManageTraceObj ?create) ds @ [ManageTraceObj ?create d])"
    using open_channels_result [OF o] by auto
  then show ?thesis
    using rel [OF d] Some by (auto simp: logger_release_def managed_release_def ManageTraceObj_def comp_def)
qed

lemma logger_releases_all_witness:
  "\<exists>lg. logger_ctor onErrorFunc demo_p7 YamlDoc = Inr lg \<and> length (logger_release lg) = 8"
proof -
  obtain lg where lg: "logger_ctor onErrorFunc demo_p7 YamlDoc = Inr lg" "length (shared_traces lg) = 7"
    by (simp add: logger_ctor_def demo_p7_def ManageTraceObj_def getObj_def TRACE_CHANNELS_def)
  from logger_releases_all [OF lg(1)] lg show ?thesis by (simp add: demo_p7_def)
qed

end
