(* ===== verification/Yaml_Properties.thy ===== *)
theory Yaml_Properties
  imports Yaml_Wrapper
begin

text \<open>
  Properties of the configuration reader: the tree of a document, lookup by path, integers, missing
  values, the choice between file and built-in text, and what the logger reads.
\<close>

definition doc_tree :: "yaml_doc \<Rightarrow> yaml_node" where
  "doc_tree d = YamlNode DOC [] ''YamlDocValue'' [doc_node [] d]"

lemma parse_document:
  "\<not> is_scalar d \<Longrightarrow> parse h (stream_events d) YamlDoc = Inr (True, doc_tree d)"
  by (simp add: parse_stream doc_tree_def name_at_def add_child_def YamlDoc_def)

lemma getValueImpl_doc:
  assumes "path_names_ok sep ([] # ks)"
  shows "getValueImpl (doc_tree d) (join_path sep ([] # ks)) sep =
    (case doc_lookup ks d of None \<Rightarrow> NOT_FOUND | Some v \<Rightarrow> c_string (doc_value v))"
proof -
  have ks: "ks \<noteq> []" using assms by (auto simp: path_names_ok_def)
  then have "join_path sep ([] # ks) \<noteq> []" by (cases ks) auto
  moreover have "getKey (doc_node [] d) = []" by (cases d) simp_all
  ultimately show ?thesis
    using ks find_value_doc [OF ks, of "[]" d]
    by (cases "doc_lookup ks d") (simp_all add: getValueImpl_def getlines_join [OF assms] doc_tree_def)
qed

lemma doc_lookup_scalar: "doc_lookup ks d = Some v \<Longrightarrow> c_string (doc_value v) = doc_value v"
  by (cases v) (simp_all add: c_string_def)

text \<open>
  C30: Parsing and lookup are correct: after the events of a document \<open>d\<close> that is a mapping or a
  sequence, the path that begins with the separator and continues with names and indices yields the value
  that these select in \<open>d\<close>, and \<^verbatim>\<open>Not Found\<close> if they select nothing.
\<close>

theorem parsed_document_lookup:
  assumes "\<not> is_scalar d" and "path_names_ok sep ([] # ks)"
  shows "\<exists>root. parse h (stream_events d) YamlDoc = Inr (True, root) \<and>
    getValueImpl root (join_path sep ([] # ks)) sep =
      (case doc_lookup ks d of None \<Rightarrow> NOT_FOUND | Some v \<Rightarrow> doc_value v)"
  using parse_document [OF assms(1)] getValueImpl_doc [OF assms(2)] doc_lookup_scalar
  by (auto split: option.splits)

lemma parsed_document_lookup_witness:
  "\<exists>root. parse (\<lambda>e. False) (stream_events (YMap [(''a'', YSeq [YScalar ''x'', YScalar ''y''])])) YamlDoc =
      Inr (True, root) \<and> getValueImpl root ''/a/1'' CHR ''/'' = ''y''"
proof -
  have "path_names_ok CHR ''/'' ([] # [''a'', ''1''])" by (simp add: path_names_ok_def)
  moreover have "\<not> is_scalar (YMap [(''a'', YSeq [YScalar ''x'', YScalar ''y''])])" by (simp add: is_scalar_def)
  moreover have "doc_lookup [''a'', ''1''] (YMap [(''a'', YSeq [YScalar ''x'', YScalar ''y''])]) = Some (YScalar ''y'')"
    by code_simp
  ultimately show ?thesis
    using parsed_document_lookup [of "YMap [(''a'', YSeq [YScalar ''x'', YScalar ''y''])]" "CHR ''/''" "[''a'', ''1'']"]
    by (simp add: c_string_def)
qed

text \<open>
  Lemma: The elements of a sequence are found under their positions, however long the sequence is: path
  element \<open>to_string i\<close> leads into the element with index \<open>i\<close>.
\<close>

theorem sequence_index_lookup:
  assumes "i < length ds" and "path_names_ok sep ([] # to_string i # ks)"
  shows "getValueImpl (doc_tree (YSeq ds)) (join_path sep ([] # to_string i # ks)) sep =
    (case doc_lookup ks (ds ! i) of None \<Rightarrow> NOT_FOUND | Some v \<Rightarrow> doc_value v)"
  using getValueImpl_doc [OF assms(2), of "YSeq ds"] doc_lookup_scalar
  by (simp add: doc_child_index [OF assms(1)] split: option.splits)

lemma sequence_index_lookup_witness:
  "getValueImpl (doc_tree (YSeq (map YScalar (replicate 11 ''a'' @ [''b''])))) ''/11'' CHR ''/'' = ''b''"
proof -
  have t: "to_string 11 = ''11''" by code_simp
  have "path_names_ok CHR ''/'' ([] # to_string 11 # [])" unfolding t by (simp add: path_names_ok_def)
  from sequence_index_lookup [of 11 "map YScalar (replicate 11 ''a'' @ [''b''])", OF _ this] show ?thesis
    unfolding t by (simp add: nth_append c_string_def)
qed

text \<open>
  C32: The getter for signed integer types: for a value that is the decimal numeral of an integer within 64
  bits, the getter succeeds and yields the integer modulo the size of the requested type; the value is exact
  precisely when it fits.
\<close>

theorem int_getter:
  fixes r :: "bool \<times> 'w::len word"
  assumes "getValueImpl root path sep = int_to_string i" and "- (2 ^ 63) \<le> i" and "i < 2 ^ 63"
    and "r = getValue_signed root path sep"
  shows "fst r \<and> (sint (snd r) = i \<longleftrightarrow> - (2 ^ (LENGTH('w) - 1)) \<le> i \<and> i < 2 ^ (LENGTH('w) - 1)) \<and>
    uint (snd r) = i mod 2 ^ LENGTH('w)"
proof -
  have r: "r = (True, word_of_int i)"
    using assms by (simp add: getValue_signed_def strtol_int)
  have "sint (word_of_int i :: 'w word) = i \<longleftrightarrow> - (2 ^ (LENGTH('w) - 1)) \<le> i \<and> i < 2 ^ (LENGTH('w) - 1)"
    using signed_take_bit_int_eq_self_iff [of "LENGTH('w) - 1" i] by (simp add: sint_sbintrunc')
  then show ?thesis by (simp add: r uint_word_of_int)
qed

lemma int_getter_witness:
  "sint (snd (getValue_signed (doc_tree (YSeq [YScalar ''-500''])) ''/0'' CHR ''/'' :: bool \<times> 16 word)) = - 500 \<and>
   uint (snd (getValue_signed (doc_tree (YSeq [YScalar ''-500''])) ''/0'' CHR ''/'' :: bool \<times> 8 word)) = 12"
proof -
  have v: "getValueImpl (doc_tree (YSeq [YScalar ''-500''])) ''/0'' CHR ''/'' = int_to_string (- 500)"
    by code_simp
  show ?thesis
    using int_getter [OF v _ _ refl, where 'w = 16] int_getter [OF v _ _ refl, where 'w = 8] by simp
qed

text \<open>
  Lemma: A missing value is reported by every getter: with an empty path, or a path that leads nowhere, the
  flag is false.
\<close>

theorem missing_value_reported:
  assumes "path = [] \<or> find_value (getlines sep path) root = None"
  shows "\<not> fst (getValue_signed root path sep :: bool \<times> 'w::len word) \<and>
    \<not> fst (getValue_unsigned root path sep :: bool \<times> 'w word) \<and>
    \<not> fst (getValue_bool root path sep) \<and> getValue_string root path sep = (False, ''Not Found'')"
proof -
  have v: "getValueImpl root path sep = ''Not Found''"
    using assms by (auto simp: getValueImpl_def NOT_FOUND_def)
  have "scan_integer ''Not Found'' = None" by code_simp
  then show ?thesis
    by (simp add: getValue_signed_def getValue_unsigned_def getValue_bool_def getValue_string_def v
        strtol_no_digit strtoul_no_digit NOT_FOUND_def)
qed

lemma missing_value_reported_witness:
  "getValue_string (doc_tree (YSeq [])) ''/noSuchNode'' CHR ''/'' = (False, ''Not Found'')"
proof -
  have "find_value (getlines CHR ''/'' ''/noSuchNode'') (doc_tree (YSeq [])) = None" by code_simp
  then show ?thesis using missing_value_reported [of "''/noSuchNode''" "CHR ''/''" "doc_tree (YSeq [])"] by blast
qed

text \<open>
  Lemma: Aliases are dropped, and with them the place of a value: in a mapping whose first entry is an alias,
  the name of the second entry is taken for the value of the first, and the value of the second for a name.
\<close>

theorem alias_shifts_entries:
  "parse h [OtherEvent, OtherEvent, MAPPING_START, SCALAR k1, ALIAS, SCALAR k2, SCALAR v2, MAPPING_END,
      OtherEvent, STREAM_END] YamlDoc =
   Inr (True, doc_tree (YMap [(k1, YScalar k2)]))"
  by (simp add: parse_def Let_def start_node_def end_node_def scalar_def child_name_def doc_tree_def
      YamlDoc_def YamlMapping_def add_child_def)

lemma parse_contract:
  "obeys_contract h \<Longrightarrow> (\<exists>e. parse h es r = Inl e) \<or> (\<exists>root. parse h es r = Inr (True, root))"
proof -
  assume h: "obeys_contract h"
  have "(\<exists>e. parse_loop h es t = Inl e) \<or> (\<exists>root. parse_loop h es t = Inr (True, root))" for t
    using h by (induction es arbitrary: t) (auto simp: Let_def)
  then show ?thesis by (simp add: parse_def)
qed

text \<open>
  C34: Where the configuration comes from, with an error callback that does not return: the file if a name is
  given and it can be opened, otherwise the built-in text, and the documented errors if there is neither.
\<close>

theorem wrapper_source:
  assumes "obeys_contract h" and "parser_initialize env"
  shows "yaml_wrapper h env staticDoc fileName =
    (case (if fileName = [] then None else file_events env fileName) of
       Some es \<Rightarrow> map_sum id snd (parse h es YamlDoc)
     | None \<Rightarrow> if staticDoc \<noteq> [] then map_sum id snd (parse h (text_events env staticDoc) YamlDoc)
              else Inl (if fileName = [] then err_config_init staticDoc fileName else err_file_read fileName))"
proof (cases "if fileName = [] then None else file_events env fileName")
  case None
  then show ?thesis
    using assms parse_contract [OF assms(1), of "text_events env staticDoc" YamlDoc]
    by (cases "fileName = []"; cases "staticDoc = []")
      (auto simp: yaml_wrapper_def initFromFile_def initFromConstString_def)
next
  case (Some es)
  then show ?thesis
    using assms parse_contract [OF assms(1), of es YamlDoc]
    by (cases "fileName = []") (auto simp: yaml_wrapper_def initFromFile_def)
qed

lemma wrapper_source_witness:
  "yaml_wrapper onErrorFunc \<lparr>parser_initialize = True, text_events = (\<lambda>t. stream_events (YSeq [])),
      file_events = (\<lambda>f. None)\<rparr> ''[]'' ''config.yml'' = Inr (doc_tree (YSeq []))"
  using wrapper_source [OF onErrorFunc_contract, of "\<lparr>parser_initialize = True,
      text_events = (\<lambda>t. stream_events (YSeq [])), file_events = (\<lambda>f. None)\<rparr>" "''[]''" "''config.yml''"]
  by (simp add: parse_document is_scalar_def)

text \<open>
  Lemma: With a callback that returns, a file that is broken after its first entry is not discarded: the
  built-in text is read into the same tree, and the entry of the broken file hides its counterpart there.
\<close>

theorem broken_file_shadows_text:
  assumes "path_names_ok sep [[], k]" and "c_string k = k" and "h err_parser"
    and "parser_initialize env" and "fileName \<noteq> []" and "staticDoc \<noteq> []"
    and "file_events env fileName = Some [OtherEvent, OtherEvent, MAPPING_START, SCALAR k, SCALAR v]"
    and "text_events env staticDoc = stream_events (YMap [(k, YScalar w)])"
  shows "\<exists>root. yaml_wrapper h env staticDoc fileName = Inr root \<and>
    getValueImpl root (join_path sep [[], k]) sep = c_string v"
proof -
  let ?r = "doc_tree (YMap [(k, YScalar v)])"
  have "parse h [OtherEvent, OtherEvent, MAPPING_START, SCALAR k, SCALAR v] YamlDoc = Inr (False, ?r)"
    using assms(3) by (simp add: parse_def report_def Let_def start_node_def scalar_def child_name_def
        doc_tree_def YamlDoc_def YamlMapping_def add_child_def)
  moreover have "parse h (stream_events (YMap [(k, YScalar w)])) ?r =
      Inr (True, add_child (doc_node [] (YMap [(k, YScalar w)])) ?r)"
    by (simp add: parse_stream is_scalar_def name_at_def doc_tree_def)
  ultimately have "yaml_wrapper h env staticDoc fileName = Inr (add_child (doc_node [] (YMap [(k, YScalar w)])) ?r)"
    using assms(4-) by (simp add: yaml_wrapper_def initFromFile_def initFromConstString_def)
  moreover have "getlines sep (join_path sep [[], k]) = [[], k]" by (rule getlines_join [OF assms(1)])
  ultimately show ?thesis
    using assms(2) by (simp add: getValueImpl_def doc_tree_def)
qed

lemma broken_file_shadows_text_witness:
  "\<exists>root. yaml_wrapper (\<lambda>e. True) \<lparr>parser_initialize = True,
        text_events = (\<lambda>t. stream_events (YMap [(''a'', YScalar ''good'')])),
        file_events = (\<lambda>f. Some [OtherEvent, OtherEvent, MAPPING_START, SCALAR ''a'', SCALAR ''bad''])\<rparr>
      ''a: good'' ''config.yml'' = Inr root \<and> getValueImpl root ''/a'' CHR ''/'' = ''bad''"
proof -
  have "path_names_ok CHR ''/'' [[], ''a'']" "c_string ''a'' = ''a''" "c_string ''bad'' = ''bad''"
    by (simp_all add: path_names_ok_def c_string_def)
  then show ?thesis
    using broken_file_shadows_text [of "CHR ''/''" "''a''" "\<lambda>e. True" "\<lparr>parser_initialize = True,
        text_events = (\<lambda>t. stream_events (YMap [(''a'', YScalar ''good'')])),
        file_events = (\<lambda>f. Some [OtherEvent, OtherEvent, MAPPING_START, SCALAR ''a'', SCALAR ''bad''])\<rparr>"
        "''config.yml''" "''a: good''" "''bad''" "''good''"] by simp
qed

section \<open>The logger\<close>

lemma logging_name_missing: "getValueImpl (doc_tree d) ''logging/name'' CHR ''/'' = NOT_FOUND"
proof -
  have "getlines CHR ''/'' ''logging/name'' = [''logging'', ''name'']" by code_simp
  moreover have "getKey (doc_node [] d) = []" by (cases d) simp_all
  ultimately show ?thesis by (simp add: getValueImpl_def doc_tree_def)
qed

text \<open>
  Lemma: The name of the logger cannot be configured: \<^verbatim>\<open>Logger\<close> asks for
  \<^verbatim>\<open>logging/name\<close> without the leading separator, which selects nothing in any document,
  so the name is always the default.
\<close>

theorem logger_name_fixed: "loggerName (doc_tree d) = LOGGER_NAME"
  by (simp add: loggerName_def getValue_string_def logging_name_missing)

text \<open>Lemma: The logging client is configured from the built-in configuration as written there.\<close>

theorem default_client_config:
  "map_sum id (map_prod id getClientConfigStr) (parse h (stream_events DEFAULT_CONFIG) YamlDoc) =
   Inr (True, ''/P7.Sink=Console /P7.Format='' @ [CHR 0x22] @ ''%tf %tn %cn %mn [%lv] [%fn] %ms'' @ [CHR 0x22] @
     '' /P7.Trc.Verb=2 /P7.Pool=32768'')"
proof -
  have "\<not> is_scalar DEFAULT_CONFIG" by (simp add: is_scalar_def DEFAULT_CONFIG_def)
  moreover have p: "getValueImpl (doc_tree DEFAULT_CONFIG) (''/logging/client/'' @ k) CHR ''/'' =
      (case doc_lookup [''logging'', ''client'', k] DEFAULT_CONFIG of None \<Rightarrow> NOT_FOUND | Some v \<Rightarrow> c_string (doc_value v))"
    if "CHR ''/'' \<notin> set k" "k \<noteq> []" for k
    using getValueImpl_doc [of "CHR ''/''" "[''logging'', ''client'', k]" DEFAULT_CONFIG] that
    by (simp add: path_names_ok_def)
  have n: "int_to_string 2 = ''2''" "int_to_string 32768 = ''32768''"
    by (simp_all add: int_to_string_def to_string_numeral digit_chars)
  have v: "getValueImpl (doc_tree DEFAULT_CONFIG) ''/logging/client/Sink'' CHR ''/'' = ''Console''"
    "getValueImpl (doc_tree DEFAULT_CONFIG) ''/logging/client/Format'' CHR ''/'' = ''%tf %tn %cn %mn [%lv] [%fn] %ms''"
    "getValueImpl (doc_tree DEFAULT_CONFIG) ''/logging/client/Trc.Verb'' CHR ''/'' = int_to_string 2"
    "getValueImpl (doc_tree DEFAULT_CONFIG) ''/logging/client/Pool'' CHR ''/'' = int_to_string 32768"
    using p [of "''Sink''"] p [of "''Format''"] p [of "''Trc.Verb''"] p [of "''Pool''"]
    by (simp_all add: n DEFAULT_CONFIG_def doc_child_def c_string_def)
  have "strtol (int_to_string 2) = (2, [])" "strtol (int_to_string 32768) = (32768, [])"
    by (simp_all add: strtol_int)
  then have "getClientConfigStr (doc_tree DEFAULT_CONFIG) =
      ''/P7.Sink=Console /P7.Format='' @ [CHR 0x22] @ ''%tf %tn %cn %mn [%lv] [%fn] %ms'' @ [CHR 0x22] @
     '' /P7.Trc.Verb=2 /P7.Pool=32768''"
    unfolding getClientConfigStr_def getValue_string_def getValue_signed_def v Let_def
    by (simp add: NOT_FOUND_def n)
  ultimately show ?thesis by (simp add: parse_document)
qed

end
