(* ===== verification/Application_Setup.thy ===== *)
theory Application_Setup
  imports Logger_Setup Yaml_Properties
begin

text \<open>
  What an application constructs before the core: \<^verbatim>\<open>config_cxx/config.hpp\<close> and
  \<^verbatim>\<open>config_and_logger.hpp\<close>, the configuration and the logger that reads it, and the signal
  handling that the constructor of the logger installs, \<^verbatim>\<open>adstlog_cxx/src/adstlog.cpp\<close>.
\<close>

section \<open>The configuration\<close>

definition newline :: string where
  "newline = [CHR 0x0A]"

definition quote :: string where
  "quote = [CHR 0x27]"

text \<open>The text of the member \<^verbatim>\<open>DEFAULT_CONFIG\<close>.\<close>

definition DEFAULT_CONFIG_TEXT :: string where
  "DEFAULT_CONFIG_TEXT =
     ''---'' @ newline @
     ''logging:'' @ newline @
     ''  client:'' @ newline @
     ''    Sink: Console'' @ newline @
     ''    Format: '' @ quote @ ''%tf %tn %cn %mn [%lv] [%fn] %ms'' @ quote @ newline @
     ''    Trc.Verb: 2'' @ newline @
     ''    Pool: 32768'' @ newline"

record config =
  config_onError :: handler
  config_dispatchers :: int
  config_fileName :: string
  config_content :: string
  config_doc :: yaml_node

text \<open>
  The members in the order of their declaration; an aggregate initialiser may give the first ones. The document
  is the last member, and reads the others.
\<close>

definition Config :: "handler \<Rightarrow> int \<Rightarrow> string \<Rightarrow> string \<Rightarrow> yaml_env \<Rightarrow> error + config" where
  "Config h dispatchers fileName content env =
     bind_result (yaml_wrapper h env content fileName)
       (\<lambda>doc. Inr \<lparr>config_onError = h, config_dispatchers = dispatchers, config_fileName = fileName,
          config_content = content, config_doc = doc\<rparr>)"

definition default_Config :: "yaml_env \<Rightarrow> error + config" where
  "default_Config = Config onErrorFunc DEFAULT_NUMBER_OF_DISPATCHERS CONFIG_FILE_NAME DEFAULT_CONFIG_TEXT"

definition ConfigAndLogger :: "(yaml_env \<Rightarrow> error + config) \<Rightarrow> yaml_env \<Rightarrow> ('c, 't) p7 \<Rightarrow> error + config \<times> ('c, 't) logger" where
  "ConfigAndLogger mk env p =
     bind_result (mk env) (\<lambda>c.
       bind_result (logger_ctor (config_onError c) p (config_doc c)) (\<lambda>lg. Inr (c, lg)))"

section \<open>Signals\<close>

text \<open>
  What a signal does is set by \<^verbatim>\<open>signal\<close>, which fails for the signal that cannot be caught.
  Before the constructor of the logger the system has settled it for every signal; the constructor first calls
  \<^verbatim>\<open>P7_Set_Crash_Handler\<close>, which is not in the repository and here may change it for any
  signal: it is a parameter, like the dispositions \<open>'d\<close> themselves.
\<close>

definition SIGINT :: int where "SIGINT = 2"
definition SIGQUIT :: int where "SIGQUIT = 3"
definition SIGKILL :: int where "SIGKILL = 9"
definition SIGTERM :: int where "SIGTERM = 15"

datatype 'd disposition = SigHandlerFunc | OtherDisposition 'd

definition signal :: "int \<Rightarrow> (int \<Rightarrow> 'd disposition) \<Rightarrow> int \<Rightarrow> 'd disposition" where
  "signal sigNum disp = (if sigNum = SIGKILL then disp else disp(sigNum := SigHandlerFunc))"

text \<open>
  The variable \<^verbatim>\<open>signalHandler\<close> holds a closure that prints and flushes; the second one holds a
  pointer, to the constant name or to the characters of a string local to the constructor.
\<close>

datatype char_pointer = StaticChars string | LocalChars string

datatype signal_closure = InitialHandler | NamedHandler char_pointer

text \<open>How far the constructor of the logger has come.\<close>

datatype ctor_progress = BeforeCtor | SignalsRegistered | HandlerNamed | CtorReturned

definition logger_name_pointer :: "yaml_node \<Rightarrow> char_pointer" where
  "logger_name_pointer configDoc =
     (let configLoggingName = getValue_string configDoc ''logging/name'' CHR ''/''
      in if fst configLoggingName then LocalChars (snd configLoggingName) else StaticChars LOGGER_NAME)"

definition handled_signals ::
  "((int \<Rightarrow> 'd) \<Rightarrow> int \<Rightarrow> 'd) \<Rightarrow> (int \<Rightarrow> 'd) \<Rightarrow> ctor_progress \<Rightarrow> int \<Rightarrow> 'd disposition" where
  "handled_signals P7_Set_Crash_Handler sys pr =
     (if pr = BeforeCtor then OtherDisposition \<circ> sys
      else signal SIGKILL (signal SIGQUIT (signal SIGTERM (signal SIGINT (OtherDisposition \<circ> P7_Set_Crash_Handler sys)))))"

definition current_handler :: "yaml_node \<Rightarrow> ctor_progress \<Rightarrow> signal_closure" where
  "current_handler configDoc pr =
     (if pr = HandlerNamed \<or> pr = CtorReturned then NamedHandler (logger_name_pointer configDoc) else InitialHandler)"

text \<open>Reading through a pointer to a local string is undefined, \<open>None\<close>, once the constructor has returned.\<close>

fun read_chars :: "ctor_progress \<Rightarrow> char_pointer \<Rightarrow> string option" where
  "read_chars pr (StaticChars s) = Some s"
| "read_chars pr (LocalChars s) = (if pr = CtorReturned then None else Some s)"

datatype signal_effect = PrintCaught string int | P7_Exceptional_Flush | ExitWith int

fun signalHandler :: "ctor_progress \<Rightarrow> signal_closure \<Rightarrow> int \<Rightarrow> signal_effect list option" where
  "signalHandler pr InitialHandler sigNum = Some [PrintCaught LOGGER_NAME sigNum, P7_Exceptional_Flush]"
| "signalHandler pr (NamedHandler name) sigNum =
     map_option (\<lambda>s. [PrintCaught s sigNum, P7_Exceptional_Flush]) (read_chars pr name)"

definition handle_signal :: "ctor_progress \<Rightarrow> signal_closure \<Rightarrow> int \<Rightarrow> signal_effect list option" where
  "handle_signal pr closure sigNum = map_option (\<lambda>es. es @ [ExitWith (sigHandlerFunc sigNum)]) (signalHandler pr closure sigNum)"

text \<open>
  What a signal does: the handler of the logger, or whatever the system or P7 has settled for it. The handler is
  undefined, \<open>None\<close>, if it reads the name through a dangling pointer.
\<close>

datatype 'd delivered = HandledBy "signal_effect list option" | LeftTo 'd

definition deliver_signal ::
  "((int \<Rightarrow> 'd) \<Rightarrow> int \<Rightarrow> 'd) \<Rightarrow> (int \<Rightarrow> 'd) \<Rightarrow> yaml_node \<Rightarrow> ctor_progress \<Rightarrow> int \<Rightarrow> 'd delivered" where
  "deliver_signal P7_Set_Crash_Handler sys configDoc pr sigNum =
     (case handled_signals P7_Set_Crash_Handler sys pr sigNum of
        SigHandlerFunc \<Rightarrow> HandledBy (handle_signal pr (current_handler configDoc pr) sigNum)
      | OtherDisposition d \<Rightarrow> LeftTo d)"

section \<open>Properties\<close>

lemma handled_signals_eq:
  "pr \<noteq> BeforeCtor \<Longrightarrow> handled_signals crash sys pr sigNum =
     (if sigNum \<in> {SIGINT, SIGTERM, SIGQUIT} then SigHandlerFunc else OtherDisposition (crash sys sigNum))"
  by (simp add: handled_signals_def signal_def SIGINT_def SIGTERM_def SIGQUIT_def SIGKILL_def)

lemma logger_name_static: "logger_name_pointer (doc_tree d) = StaticChars LOGGER_NAME"
  by (simp add: logger_name_pointer_def getValue_string_def logging_name_missing)

text \<open>
  C39: three signals flush the traces before the process ends. From the moment the constructor of the logger has
  registered its handlers, with any document as the configuration and whatever P7 does in its crash handler, an
  interrupt, a termination and a quit print the name of the logger, flush the traces of P7 and end the process with
  status 128 plus the number of the signal; nothing undefined happens, since the name is never one of the document.
  Every other signal, a hangup or one that cannot be caught for example, is left to P7 and the system.
\<close>

theorem signals_flush_then_exit:
  assumes "pr \<noteq> BeforeCtor"
  shows "deliver_signal crash sys (doc_tree d) pr sigNum =
    (if sigNum \<in> {SIGINT, SIGTERM, SIGQUIT}
     then HandledBy (Some [PrintCaught LOGGER_NAME sigNum, P7_Exceptional_Flush, ExitWith (128 + sigNum)])
     else LeftTo (crash sys sigNum))"
  using assms
  by (simp add: deliver_signal_def handled_signals_eq handle_signal_def current_handler_def logger_name_static sigHandlerFunc_def)

lemma signals_flush_then_exit_witness:
  "deliver_signal (\<lambda>sys. sys(11 := ''crash'')) (\<lambda>n. ''default'')
     (doc_tree (YMap [(''logging'', YMap [(''name'', YScalar ''gw'')])])) CtorReturned 15 =
     HandledBy (Some [PrintCaught ''TEST_ENGINE'' 15, P7_Exceptional_Flush, ExitWith 143]) \<and>
   deliver_signal (\<lambda>sys. sys(11 := ''crash'')) (\<lambda>n. ''default'') (doc_tree (YSeq [])) HandlerNamed SIGKILL = LeftTo ''default'' \<and>
   deliver_signal (\<lambda>sys. sys(11 := ''crash'')) (\<lambda>n. ''default'') (doc_tree (YSeq [])) HandlerNamed 11 = LeftTo ''crash''"
  using signals_flush_then_exit [of CtorReturned "\<lambda>sys. sys(11 := ''crash'')" "\<lambda>n. ''default''"
      "YMap [(''logging'', YMap [(''name'', YScalar ''gw'')])]" 15]
    signals_flush_then_exit [of HandlerNamed "\<lambda>sys. sys(11 := ''crash'')" "\<lambda>n. ''default''" "YSeq []" SIGKILL]
    signals_flush_then_exit [of HandlerNamed "\<lambda>sys. sys(11 := ''crash'')" "\<lambda>n. ''default''" "YSeq []" 11]
  by (simp add: LOGGER_NAME_def SIGINT_def SIGTERM_def SIGQUIT_def SIGKILL_def)

text \<open>
  Lemma: with a tree in which the name is found, as it would be with the path of the other entries, the handler
  reads the name after it has been freed.
\<close>

lemma named_handler_dangles:
  "deliver_signal crash sys (YamlNode DOC [] [] [YamlNode MAPPING ''logging'' [] [YamlNode VALUE ''name'' ''gw'' []]])
     CtorReturned SIGTERM = HandledBy None"
proof -
  have "getlines CHR ''/'' ''logging/name'' = [''logging'', ''name'']" by code_simp
  then show ?thesis
    by (simp add: deliver_signal_def handled_signals_eq handle_signal_def current_handler_def logger_name_pointer_def
        getValue_string_def getValueImpl_def NOT_FOUND_def c_string_def Let_def)
qed

lemma open_channels_all:
  assumes "\<forall>n \<in> set cs. create n \<noteq> None"
  shows "\<exists>lg'. open_channels h create cs lg = Inr lg' \<and> shared_client lg' = shared_client lg \<and>
    map fst (shared_traces lg') = map fst (shared_traces lg) @ cs"
  using assms
proof (induction cs arbitrary: lg)
  case (Cons c cs)
  then show ?case by (force simp: ManageTraceObj_def getObj_def Let_def)
qed simp

lemma parse_default: "parse h (stream_events DEFAULT_CONFIG) YamlDoc = Inr (True, doc_tree DEFAULT_CONFIG)"
  by (rule parse_document) (simp add: is_scalar_def DEFAULT_CONFIG_def)

text \<open>
  Lemma: an application without a configuration file runs with the built-in configuration: if P7 creates the
  client and the channels, configuration and logger are constructed without an error, with four dispatchers,
  and the logger has shared its client under its name and all seven channels.
\<close>

theorem setup_with_defaults:
  assumes "parser_initialize env" and "file_events env CONFIG_FILE_NAME = None"
    and "text_events env DEFAULT_CONFIG_TEXT = stream_events DEFAULT_CONFIG"
    and "P7_Create_Client p (''/P7.Sink=Console /P7.Format='' @ [CHR 0x22] @ ''%tf %tn %cn %mn [%lv] [%fn] %ms'' @
      [CHR 0x22] @ '' /P7.Trc.Verb=2 /P7.Pool=32768'') = Some c"
    and "\<forall>n \<in> set TRACE_CHANNELS. P7_Create_Trace p c n \<noteq> None"
  shows "\<exists>cfg lg. ConfigAndLogger default_Config env p = Inr (cfg, lg) \<and> config_dispatchers cfg = 4 \<and>
    shared_client lg = Some LOGGER_NAME \<and> map fst (shared_traces lg) = TRACE_CHANNELS"
proof -
  have "yaml_wrapper onErrorFunc env DEFAULT_CONFIG_TEXT CONFIG_FILE_NAME = Inr (doc_tree DEFAULT_CONFIG)"
    using assms(1-3) parse_default [of onErrorFunc]
    by (simp add: yaml_wrapper_def initFromFile_def initFromConstString_def CONFIG_FILE_NAME_def DEFAULT_CONFIG_TEXT_def)
  then obtain cfg where cfg: "default_Config env = Inr cfg" "config_onError cfg = onErrorFunc" "config_dispatchers cfg = 4"
    "config_doc cfg = doc_tree DEFAULT_CONFIG"
    by (simp add: default_Config_def Config_def DEFAULT_NUMBER_OF_DISPATCHERS_def)
  let ?lg = "\<lparr>lg_client = \<lparr>resource = Some c\<rparr>, lg_channels = [], shared_client = Some LOGGER_NAME, shared_traces = []\<rparr>"
  obtain lg where "open_channels onErrorFunc (P7_Create_Trace p c) TRACE_CHANNELS ?lg = Inr lg"
    "shared_client lg = Some LOGGER_NAME" "map fst (shared_traces lg) = TRACE_CHANNELS"
    using open_channels_all [OF assms(5), of onErrorFunc ?lg] by auto
  moreover have "P7_Create_Client p (getClientConfigStr (doc_tree DEFAULT_CONFIG)) = Some c"
    using assms(4) default_client_config [of onErrorFunc] by (simp add: parse_default)
  ultimately show ?thesis
    using cfg by (simp add: ConfigAndLogger_def logger_ctor_def ManageTraceObj_def getObj_def logger_name_fixed Let_def)
qed

lemma setup_with_defaults_witness:
  "\<exists>cfg lg. ConfigAndLogger default_Config \<lparr>parser_initialize = True, text_events = (\<lambda>t. stream_events DEFAULT_CONFIG),
      file_events = (\<lambda>f. None)\<rparr> demo_p7 = Inr (cfg, lg) \<and> config_dispatchers cfg = 4"
  using setup_with_defaults [of "\<lparr>parser_initialize = True, text_events = (\<lambda>t. stream_events DEFAULT_CONFIG),
      file_events = (\<lambda>f. None)\<rparr>" demo_p7 1] by (force simp: demo_p7_def)

end
