(* ===== verification/Yaml_Types.thy ===== *)
theory Yaml_Types
  imports Yaml_Wrapper
begin

text \<open>
  The node tree is well-typed whatever the events are: the constructors of \<^verbatim>\<open>yaml_wrapper.hpp\<close>
  fix the value of a collection, a value has no children, and no name or value contains a terminator.
\<close>

fun well_typed :: "yaml_node \<Rightarrow> bool" where
  "well_typed (YamlNode t k v cs) \<longleftrightarrow>
     (case t of VALUE \<Rightarrow> cs = [] | SEQUENCE \<Rightarrow> v = ''YamlSequenceValue'' | MAPPING \<Rightarrow> v = ''YamlMappingValue''
        | DOC \<Rightarrow> False) \<and> c_string k = k \<and> c_string v = v \<and> (\<forall>c \<in> set cs. well_typed c)"

definition doc_typed :: "yaml_node \<Rightarrow> bool" where
  "doc_typed n \<longleftrightarrow> getType n = DOC \<and> (\<forall>c \<in> set (node_children n). well_typed c)"

lemma append_well_typed:
  "well_typed n \<Longrightarrow> path_ok p n \<Longrightarrow> getType (node_at p n) \<noteq> VALUE \<Longrightarrow> well_typed c \<Longrightarrow> well_typed (append_at p c n)"
proof (induction p arbitrary: n)
  case Nil
  then show ?case by (cases n) (auto simp: add_child_def split: node_type.splits)
next
  case (Cons i p)
  obtain t k v cs where n: "n = YamlNode t k v cs" by (cases n)
  have i: "i < length cs" "well_typed (cs ! i)" using Cons.prems by (simp_all add: n)
  then have "well_typed (append_at p c (cs ! i))" using Cons by (simp add: n)
  then have "\<forall>d \<in> set (cs[i := append_at p c (cs ! i)]). well_typed d"
    using Cons.prems(1) set_update_subset_insert [of cs i] by (fastforce simp: n)
  then show ?case using Cons.prems(1) i by (auto simp: n split: node_type.splits)
qed

lemma append_doc_typed:
  assumes "doc_typed n" "path_ok p n" "getType (node_at p n) \<noteq> VALUE" "well_typed c"
  shows "doc_typed (append_at p c n)"
proof (cases p)
  case Nil
  then show ?thesis using assms by (simp add: doc_typed_def)
next
  case (Cons i q)
  let ?cs = "node_children n"
  have "i < length ?cs" "well_typed (?cs ! i)" using assms Cons by (simp_all add: doc_typed_def)
  then have "well_typed (append_at q c (?cs ! i))" using assms Cons append_well_typed by simp
  then have "\<forall>d \<in> set (?cs[i := append_at q c (?cs ! i)]). well_typed d"
    using assms(1) set_update_subset_insert [of ?cs i] by (fastforce simp: doc_typed_def)
  then show ?thesis using assms(1) by (simp add: Cons doc_typed_def)
qed

lemma well_typed_at: "well_typed n \<Longrightarrow> path_ok p n \<Longrightarrow> well_typed (node_at p n)"
proof (induction p arbitrary: n)
  case (Cons i p)
  then show ?case by (cases n) simp
qed simp

lemma doc_typed_at: "doc_typed n \<Longrightarrow> path_ok p n \<Longrightarrow> getType (node_at p n) = DOC \<or> well_typed (node_at p n)"
  using well_typed_at by (cases p) (simp_all add: doc_typed_def)

lemma parent_path: "path_ok (p @ [i]) n \<Longrightarrow> path_ok p n \<and> node_children (node_at p n) \<noteq> []"
  by (induction p arbitrary: n) auto

text \<open>The invariant of the parser: the current node is a node of the tree, and can have children.\<close>

definition parser_typed :: "parser_state \<Rightarrow> bool" where
  "parser_typed t \<longleftrightarrow> doc_typed (doc_root t) \<and> path_ok (current t) (doc_root t) \<and>
     getType (current_node t) \<noteq> VALUE \<and> c_string (keyName t) = keyName t"

lemma c_string_Nil [simp]: "c_string [] = []"
  by (simp add: c_string_def)

lemma child_name_c_string: "parser_typed t \<Longrightarrow> c_string (child_name t) = child_name t"
  by (simp add: child_name_def parser_typed_def)

lemma new_node_typed:
  "c_string k = k \<Longrightarrow> well_typed (YamlSequence k)" "c_string k = k \<Longrightarrow> well_typed (YamlMapping k)"
  "c_string k = k \<Longrightarrow> c_string v = v \<Longrightarrow> well_typed (YamlValue k v)"
  by (simp_all add: YamlSequence_def YamlMapping_def YamlValue_def) (simp_all add: c_string_def)

lemma start_node_typed:
  assumes "parser_typed t" and "\<And>k. c_string k = k \<Longrightarrow> well_typed (mk k)" and "\<And>k. getType (mk k) \<noteq> VALUE"
  shows "parser_typed (start_node mk t)"
proof -
  let ?c = "mk (child_name t)"
  have p: "path_ok (current t) (doc_root t)" using assms(1) by (simp add: parser_typed_def)
  have "well_typed ?c" using assms(1,2) child_name_c_string by blast
  then have "doc_typed (append_at (current t) ?c (doc_root t))"
    using assms(1) by (intro append_doc_typed) (simp_all add: parser_typed_def)
  then show ?thesis
    using assms(1,3) new_child_path(1,2) [OF p refl, of ?c] by (simp add: parser_typed_def start_node_def)
qed

lemma end_node_typed:
  assumes "parser_typed t"
  shows "parser_typed (end_node t)"
proof (cases "current t" rule: rev_cases)
  case Nil
  then show ?thesis using assms by (simp add: parser_typed_def end_node_def)
next
  case (snoc p i)
  then have p: "path_ok p (doc_root t)" "node_children (node_at p (doc_root t)) \<noteq> []"
    using assms parent_path [of p i "doc_root t"] by (simp_all add: parser_typed_def)
  have "getType (node_at p (doc_root t)) \<noteq> VALUE"
    using doc_typed_at [OF _ p(1)] p(2) assms
    by (cases "node_at p (doc_root t)") (auto simp: parser_typed_def)
  then show ?thesis using assms p(1) snoc by (simp add: parser_typed_def end_node_def)
qed

lemma value_typed:
  assumes "parser_typed t" and "c_string k = k"
  shows "parser_typed (t\<lparr>doc_root := append_at (current t) (YamlValue k (c_string v)) (doc_root t)\<rparr>)"
proof -
  have p: "path_ok (current t) (doc_root t)" using assms(1) by (simp add: parser_typed_def)
  have "doc_typed (append_at (current t) (YamlValue k (c_string v)) (doc_root t))"
    using assms new_node_typed(3) by (intro append_doc_typed) (simp_all add: parser_typed_def)
  then show ?thesis using assms(1) p by (simp add: parser_typed_def path_ok_append node_at_append)
qed

lemma scalar_typed:
  assumes "parser_typed t"
  shows "parser_typed (scalar v t)"
proof -
  have "parser_typed (t\<lparr>doc_root := append_at (current t) (YamlValue (keyName t) (c_string v)) (doc_root t)\<rparr>)"
    using assms by (intro value_typed) (simp_all add: parser_typed_def)
  then show ?thesis
    using assms value_typed [OF assms c_string_to_string]
    by (auto simp: scalar_def Let_def parser_typed_def)
qed

lemma parse_event_typed: "parser_typed t \<Longrightarrow> parser_typed (parse_event e t)"
  by (cases e) (simp_all add: start_node_typed end_node_typed scalar_typed new_node_typed)

lemma parse_loop_typed: "parser_typed t \<Longrightarrow> parse_loop h es t = Inr (b, root) \<Longrightarrow> doc_typed root"
proof (induction es arbitrary: t)
  case Nil
  then show ?case by (simp add: parser_typed_def)
next
  case (Cons e es)
  then show ?case
    using parse_event_typed [OF Cons.prems(1), of e] by (auto simp: Let_def parser_typed_def split: if_splits)
qed

text \<open>
  C31: The tree that the reader builds is well-typed for every sequence of events, complete or not, also when
  it extends a tree that is already there: below the document values have no children, collections have the
  value of their class, and there is no further document.
\<close>

theorem parse_well_typed:
  assumes "doc_typed root" and "parse h es root = Inr (b, root')"
  shows "doc_typed root'"
  using assms(2) unfolding parse_def
  by (rule parse_loop_typed [rotated]) (simp add: parser_typed_def assms(1), simp add: assms(1) [unfolded doc_typed_def])

lemma parse_well_typed_witness:
  "\<exists>root'. parse (\<lambda>e. True) [SEQUENCE_START, SCALAR ''a''] YamlDoc = Inr (False, root') \<and> doc_typed root'"
proof -
  have d: "doc_typed YamlDoc" by (simp add: doc_typed_def)
  have "\<exists>root'. parse (\<lambda>e. True) [SEQUENCE_START, SCALAR ''a''] YamlDoc = Inr (False, root')"
    by (simp add: parse_def report_def Let_def)
  then show ?thesis using parse_well_typed [OF d, of "\<lambda>e. True" "[SEQUENCE_START, SCALAR ''a'']"] by blast
qed

end
