(* ===== verification/Yaml_Floats.thy ===== *)
theory Yaml_Floats
  imports Yaml_Properties Complex_Main
begin

text \<open>
  The getter for floating point values of \<^verbatim>\<open>yaml_wrapper.hpp\<close> and the function
  \<^verbatim>\<open>strtof\<close> that it uses for every floating point type: white space, a sign, then
  \<^verbatim>\<open>inf\<close>, \<^verbatim>\<open>nan\<close>, a hexadecimal or a decimal number, the value rounded to
  the nearest number of the type \<^verbatim>\<open>float\<close>, and the characters that were not converted. A
  finite \<^verbatim>\<open>float\<close> is the rational number it stands for; the sign of zero is not kept. The
  conversion to a wider type \<^verbatim>\<open>T\<close> is exact.
\<close>

datatype float_value = Finite rat | Infinite bool | NaN

section \<open>Rounding\<close>

definition round_even :: "rat \<Rightarrow> int" where
  "round_even x = (let f = \<lfloor>x\<rfloor>; d = x - of_int f in
     if d < 1 / 2 \<or> d = 1 / 2 \<and> even f then f else f + 1)"

text \<open>\<open>u\<close> is the exponent of the last of the 24 bits; the smallest one is that of the subnormal numbers.\<close>

definition last_bit :: "rat \<Rightarrow> int option" where
  "last_bit x = find (\<lambda>u. \<bar>x\<bar> < 2 powi (u + 24)) [-149..104]"

definition to_float :: "rat \<Rightarrow> float_value" where
  "to_float x = (case last_bit x of
      None \<Rightarrow> Infinite (x < 0)
    | Some u \<Rightarrow> (let y = of_int (round_even (x / 2 powi u)) * 2 powi u
                in if 2 ^ 128 \<le> \<bar>y\<bar> then Infinite (x < 0) else Finite y))"

section \<open>Scanning\<close>

definition to_lower :: "char \<Rightarrow> char" where
  "to_lower c = (let k = of_char c :: nat in if 65 \<le> k \<and> k \<le> 90 then char_of (k + 32) else c)"

definition has_prefix :: "string \<Rightarrow> string \<Rightarrow> bool" where
  "has_prefix p s \<longleftrightarrow> map to_lower (take (length p) s) = p"

text \<open>Digits with at most one point, at least one digit: the digits and how many stand behind the point.\<close>

definition scan_mantissa :: "nat \<Rightarrow> string \<Rightarrow> (string \<times> nat \<times> string) option" where
  "scan_mantissa b s =
     (let ip = takeWhile (is_digit b) s; r = dropWhile (is_digit b) s;
          fp = (if has_prefix ''.'' r then takeWhile (is_digit b) (tl r) else []);
          r' = (if has_prefix ''.'' r then dropWhile (is_digit b) (tl r) else r)
      in if ip @ fp = [] then None else Some (ip @ fp, length fp, r'))"

text \<open>An exponent counts only with a digit; otherwise its letter is not converted.\<close>

definition scan_exponent :: "string \<Rightarrow> string \<Rightarrow> int \<times> string" where
  "scan_exponent mark s =
     (if has_prefix mark s then
        (let (neg, r) = split_sign (tl s); ds = takeWhile (is_digit 10) r; n = int (digits_value 10 ds)
         in if ds = [] then (0, s) else (if neg then - n else n, dropWhile (is_digit 10) r))
      else (0, s))"

definition scan_number :: "nat \<Rightarrow> rat \<Rightarrow> string \<Rightarrow> string \<Rightarrow> (rat \<times> string) option" where
  "scan_number b e mark s = (case scan_mantissa b s of
      None \<Rightarrow> None
    | Some (ds, n, r) \<Rightarrow> (let (x, r') = scan_exponent mark r
        in Some (of_nat (digits_value b ds) / of_nat b ^ n * e powi x, r')))"

definition is_nan_char :: "char \<Rightarrow> bool" where
  "is_nan_char c \<longleftrightarrow> digit_value c < 36 \<or> c = CHR ''_''"

definition scan_nan :: "string \<Rightarrow> string" where
  "scan_nan r = (let r' = dropWhile is_nan_char (tl r)
     in if has_prefix ''('' r \<and> has_prefix '')'' r' then tl r' else r)"

definition signed_float :: "bool \<Rightarrow> rat \<Rightarrow> float_value" where
  "signed_float neg x = to_float (if neg then - x else x)"

definition strtof :: "string \<Rightarrow> float_value \<times> string" where
  "strtof s = (let (neg, t) = split_sign (dropWhile is_space s) in
     if has_prefix ''infinity'' t then (Infinite neg, drop 8 t)
     else if has_prefix ''inf'' t then (Infinite neg, drop 3 t)
     else if has_prefix ''nan'' t then (NaN, scan_nan (drop 3 t))
     else
       (case (if has_prefix ''0x'' t then scan_number 16 2 ''p'' (drop 2 t) else None) of
          Some (x, r) \<Rightarrow> (signed_float neg x, r)
        | None \<Rightarrow> (case scan_number 10 10 ''e'' t of
            Some (x, r) \<Rightarrow> (signed_float neg x, r)
          | None \<Rightarrow> (Finite 0, s))))"

definition getValue_float :: "yaml_node \<Rightarrow> string \<Rightarrow> char \<Rightarrow> bool \<times> float_value" where
  "getValue_float doc path sep = (let (v, rest) = strtof (getValueImpl doc path sep) in (rest = [], v))"

section \<open>How exact the result is\<close>

lemma round_even_bounds: "\<bar>of_int (round_even x) - x\<bar> \<le> 1 / 2"
proof -
  define d where "d = x - of_int \<lfloor>x\<rfloor>"
  have d: "0 \<le> d" "d < 1" unfolding d_def by linarith+
  show ?thesis
  proof (cases "d < 1 / 2 \<or> d = 1 / 2 \<and> even \<lfloor>x\<rfloor>")
    case True
    then have "round_even x = \<lfloor>x\<rfloor>" by (simp only: round_even_def Let_def d_def if_True)
    then have "\<bar>of_int (round_even x) - x\<bar> = d" using d by (simp add: d_def)
    then show ?thesis using True by auto
  next
    case False
    then have "round_even x = \<lfloor>x\<rfloor> + 1" by (simp only: round_even_def Let_def d_def if_False)
    then have "\<bar>of_int (round_even x) - x\<bar> = 1 - d" using d by (simp add: d_def)
    moreover have "1 / 2 \<le> d" using False by linarith
    ultimately show ?thesis by simp
  qed
qed

lemma round_even_int [simp]: "round_even (of_int k) = k"
  by (simp add: round_even_def)

lemma find_upto:
  "find P [a..b] = Some u \<Longrightarrow> P u \<and> a \<le> u \<and> u \<le> b \<and> (u = a \<or> \<not> P (u - 1))"
proof -
  assume "find P [a..b] = Some u"
  then obtain i where i: "i < length [a..b]" "P ([a..b] ! i)" "u = [a..b] ! i" "\<forall>j<i. \<not> P ([a..b] ! j)"
    by (auto simp: find_Some_iff)
  have l: "length [a..b] = nat (b - a + 1)" by simp
  have n: "j < length [a..b] \<Longrightarrow> [a..b] ! j = a + int j" for j by (simp add: nth_upto)
  show ?thesis
  proof (cases i)
    case 0
    then show ?thesis using i n [of 0] l by auto
  next
    case (Suc j)
    then have "\<not> P ([a..b] ! j)" "[a..b] ! j = u - 1" using i n [of i] n [of j] by auto
    then show ?thesis using i n [of i] l by auto
  qed
qed

lemma last_bit_Some:
  assumes "last_bit x = Some u"
  shows "\<bar>x\<bar> < 2 powi (u + 24)" "- 149 \<le> u" "u \<le> 104" "u = - 149 \<or> 2 powi (u + 23) \<le> \<bar>x\<bar>"
  using find_upto [OF assms [unfolded last_bit_def]] by (auto simp: algebra_simps)

lemma last_bit_defined: "\<bar>x\<bar> < 2 ^ 128 \<Longrightarrow> last_bit x \<noteq> None"
proof
  assume x: "\<bar>x\<bar> < 2 ^ 128" and "last_bit x = None"
  then have "\<not> (\<exists>u. u \<in> set [-149..104] \<and> \<bar>x\<bar> < 2 powi (u + 24))" unfolding last_bit_def find_None_iff by blast
  moreover have "104 \<in> set [- 149..104 :: int]" unfolding set_upto by simp
  ultimately have "\<not> \<bar>x\<bar> < 2 powi (104 + 24)" by blast
  then show False using x by (simp add: power_int_def)
qed

text \<open>The greatest rational below which nothing is rounded to infinity.\<close>

definition float_limit :: rat where
  "float_limit = 2 ^ 128 - 2 ^ 103"

lemma to_float_close:
  assumes "\<bar>x\<bar> < float_limit"
  shows "\<exists>y. to_float x = Finite y \<and> \<bar>y - x\<bar> \<le> max (\<bar>x\<bar> / 2 ^ 24) (1 / 2 ^ 150)"
proof -
  have "\<bar>x\<bar> < 2 ^ 128" using assms by (simp add: float_limit_def)
  then obtain u where u: "last_bit x = Some u" using last_bit_defined by blast
  note b = last_bit_Some [OF u]
  let ?p = "2 powi u :: rat"
  have p: "0 < ?p" by simp
  define y where "y = of_int (round_even (x / ?p)) * ?p"
  have "\<bar>of_int (round_even (x / ?p)) - x / ?p\<bar> * ?p \<le> 1 / 2 * ?p"
    using round_even_bounds p by (intro mult_right_mono) auto
  moreover have "\<bar>of_int (round_even (x / ?p)) - x / ?p\<bar> * ?p = \<bar>y - x\<bar>"
  proof -
    have "y - x = (of_int (round_even (x / ?p)) - x / ?p) * ?p" using p by (simp add: y_def algebra_simps)
    then show ?thesis using p by (simp add: abs_mult)
  qed
  ultimately have err: "\<bar>y - x\<bar> \<le> ?p / 2" by simp
  have close: "?p / 2 \<le> max (\<bar>x\<bar> / 2 ^ 24) (1 / 2 ^ 150)"
    using b(4)
  proof
    assume u: "u = - 149"
    have "?p / 2 = 1 / 2 ^ 150" by (simp add: u power_int_def power_one_over)
    then show ?thesis by simp
  next
    assume "2 powi (u + 23) \<le> \<bar>x\<bar>"
    then have "?p * 2 ^ 23 \<le> \<bar>x\<bar>" by (simp add: power_int_add)
    then show ?thesis by (simp add: max_def)
  qed
  have "\<bar>y\<bar> < 2 ^ 128"
  proof (cases "u = 104")
    case True
    then show ?thesis using err assms by (simp add: float_limit_def power_int_def)
  next
    case False
    then have "u \<le> 103" using b(3) by simp
    then have "2 powi (u + 24) \<le> (2 :: rat) powi 127" by (intro power_int_increasing) simp_all
    moreover have "?p \<le> 2 powi 103" using \<open>u \<le> 103\<close> by (intro power_int_increasing) simp_all
    moreover have "(2 :: rat) powi 127 = 2 ^ 127" "(2 :: rat) powi 103 = 2 ^ 103" by (simp_all add: power_int_def)
    ultimately have "\<bar>x\<bar> < 2 ^ 127" "?p \<le> 2 ^ 103" using b(1) by linarith+
    then show ?thesis using err by (simp add: abs_if split: if_splits)
  qed
  then have "to_float x = Finite y" using u by (simp add: to_float_def y_def Let_def)
  then show ?thesis using err close by (intro exI [of _ y]) simp
qed

section \<open>Decimal numbers\<close>

definition decimal_text :: "bool \<Rightarrow> string \<Rightarrow> string \<Rightarrow> string" where
  "decimal_text neg ds fs = (if neg then ''-'' else []) @ ds @ (if fs = [] then [] else CHR ''.'' # fs)"

definition decimal_value :: "bool \<Rightarrow> string \<Rightarrow> string \<Rightarrow> rat" where
  "decimal_value neg ds fs =
     (let x = of_nat (digits_value 10 (ds @ fs)) / 10 ^ length fs in if neg then - x else x)"

lemma digit_not:
  assumes "is_digit 10 c"
  shows "\<not> is_space c" "c \<notin> {CHR ''-'', CHR ''+'', CHR ''.''}" "to_lower c \<notin> {CHR ''i'', CHR ''n'', CHR ''x''}"
proof -
  have k: "48 \<le> (of_char c :: nat)" "of_char c \<le> (57 :: nat)"
    using assms by (auto simp: is_digit_def digit_value_def Let_def split: if_splits)
  then show "\<not> is_space c" by (auto simp: is_space_def)
  have l: "to_lower c = c" using k by (simp add: to_lower_def)
  have "c \<noteq> d" if "of_char d < (48 :: nat) \<or> 57 < (of_char d :: nat)" for d using k that by auto
  then show "c \<notin> {CHR ''-'', CHR ''+'', CHR ''.''}" "to_lower c \<notin> {CHR ''i'', CHR ''n'', CHR ''x''}"
    unfolding l by auto
qed

lemma point_not_digit: "\<not> is_digit 10 CHR ''.''" "to_lower CHR ''.'' = CHR ''.''"
  by (simp_all add: is_digit_def digit_value_def to_lower_def)

lemma has_prefix_Cons: "has_prefix (p # ps) (c # s) \<longleftrightarrow> to_lower c = p \<and> has_prefix ps s"
  by (auto simp: has_prefix_def)

lemma has_prefix_Nil: "\<not> has_prefix (p # ps) []" "has_prefix [] s"
  by (simp_all add: has_prefix_def)

lemma strtof_decimal:
  assumes "ds \<noteq> []" and "\<forall>c \<in> set (ds @ fs). is_digit 10 c"
  shows "strtof (decimal_text neg ds fs) = (to_float (decimal_value neg ds fs), [])"
proof -
  define t where "t = ds @ (if fs = [] then [] else CHR ''.'' # fs)"
  obtain d r where d: "ds = d # r" "is_digit 10 d" using assms by (cases ds) auto
  obtain t' where t': "t = d # t'" by (simp add: t_def d(1))
  have sign: "split_sign (dropWhile is_space (decimal_text neg ds fs)) = (neg, t)"
    using digit_not [OF d(2)] by (auto simp: decimal_text_def t_def [symmetric] t' is_space_def)
  have word: "\<not> has_prefix (CHR ''i'' # w) t" "\<not> has_prefix (CHR ''n'' # w) t" for w
    using digit_not(3) [OF d(2)] by (auto simp: t' has_prefix_Cons)
  have hex: "\<not> has_prefix ''0x'' t"
  proof
    assume "has_prefix ''0x'' t"
    then obtain x u where u: "t' = x # u" "to_lower x = CHR ''x''"
      by (cases t') (auto simp: t' has_prefix_Cons has_prefix_Nil)
    then have "x \<in> set (r @ (if fs = [] then [] else CHR ''.'' # fs))" using t' by (simp add: t_def d(1))
    then have "is_digit 10 x \<or> x = CHR ''.''" using assms(2) by (auto simp: d(1) split: if_splits)
    then show False using digit_not(3) [of x] point_not_digit(2) u(2) by auto
  qed
  have m: "scan_mantissa 10 t = Some (ds @ fs, length fs, [])"
  proof (cases "fs = []")
    case True
    then have "takeWhile (is_digit 10) t = ds" "dropWhile (is_digit 10) t = []"
      using assms(2) by (simp_all add: t_def takeWhile_eq_all_conv dropWhile_eq_Nil_conv)
    then show ?thesis
      using True assms(1) by (simp add: scan_mantissa_def has_prefix_Nil Let_def del: dropWhile_eq_Nil_conv)
  next
    case False
    then have "takeWhile (is_digit 10) t = ds" "dropWhile (is_digit 10) t = CHR ''.'' # fs"
      using assms(2) point_not_digit(1) by (simp_all add: t_def)
    moreover have "takeWhile (is_digit 10) fs = fs" "dropWhile (is_digit 10) fs = []"
      using assms(2) by (simp_all add: takeWhile_eq_all_conv dropWhile_eq_Nil_conv)
    ultimately show ?thesis
      using assms(1)
      by (simp add: scan_mantissa_def has_prefix_Cons has_prefix_Nil point_not_digit(2) Let_def
          del: dropWhile_eq_Nil_conv takeWhile_eq_all_conv)
  qed
  have "scan_number 10 10 ''e'' t = Some (of_nat (digits_value 10 (ds @ fs)) / 10 ^ length fs, [])"
    by (simp add: scan_number_def m scan_exponent_def has_prefix_Nil)
  then show ?thesis
    unfolding strtof_def sign by (simp add: word hex signed_float_def decimal_value_def Let_def)
qed

section \<open>Properties\<close>

text \<open>
  C33: the floating point getter: for a value that is a decimal number with a finite \<^verbatim>\<open>float\<close>
  near it, the getter succeeds, and its result differs from the number by at most the 2 ^ 24th part of it, or
  by half of the smallest positive number. Every floating point type gets this precision, also
  \<^verbatim>\<open>double\<close>.
\<close>

theorem float_getter:
  assumes "getValueImpl doc path sep = decimal_text neg ds fs" and "ds \<noteq> []" and "\<forall>c \<in> set (ds @ fs). is_digit 10 c"
    and "\<bar>decimal_value neg ds fs\<bar> < float_limit"
  shows "\<exists>y. getValue_float doc path sep = (True, Finite y) \<and>
    \<bar>y - decimal_value neg ds fs\<bar> \<le> max (\<bar>decimal_value neg ds fs\<bar> / 2 ^ 24) (1 / 2 ^ 150)"
  using to_float_close [OF assms(4)] by (auto simp: getValue_float_def assms(1) strtof_decimal [OF assms(2,3)])

lemma float_getter_witness:
  "\<exists>y. getValue_float (doc_tree (YSeq [YScalar ''-3.14''])) ''/0'' CHR ''/'' = (True, Finite y) \<and>
     \<bar>y + 314 / 100\<bar> \<le> 314 / 100 / 2 ^ 24"
proof -
  have v: "getValueImpl (doc_tree (YSeq [YScalar ''-3.14''])) ''/0'' CHR ''/'' = decimal_text True ''3'' ''14''"
    by code_simp
  have d: "decimal_value True ''3'' ''14'' = - (314 / 100)"
    by (simp add: decimal_value_def digits_value_def digit_value_def)
  show ?thesis
    using float_getter [OF v] unfolding d by (simp add: is_digit_def digit_value_def float_limit_def max_def)
qed

text \<open>
  Lemma: a \<^verbatim>\<open>double\<close> is read as a \<^verbatim>\<open>float\<close>: the integer 16777217, which a
  \<^verbatim>\<open>double\<close> holds exactly, is read as 16777216.
\<close>

lemma to_float_witness:
  assumes "\<bar>x\<bar> < 2 powi (u + 24)" and "\<not> \<bar>x\<bar> < 2 powi (u + 23)" and "u \<in> {-149..104}"
  shows "last_bit x = Some u"
proof -
  have "\<bar>x\<bar> < 2 ^ 128"
  proof -
    have "(2 :: rat) powi (u + 24) \<le> 2 powi 128" using assms(3) by (intro power_int_increasing) auto
    then show ?thesis using assms(1) by (simp add: power_int_def)
  qed
  then obtain w where w: "last_bit x = Some w" using last_bit_defined by blast
  note b = last_bit_Some [OF w]
  have "u = w"
  proof (rule ccontr)
    assume "u \<noteq> w"
    then consider "w + 24 \<le> u + 23" | "u + 24 \<le> w + 23" by linarith
    then show False
    proof cases
      case 1
      then have "(2 :: rat) powi (w + 24) \<le> 2 powi (u + 23)" by (intro power_int_increasing) auto
      then show False using b(1) assms(2) by linarith
    next
      case 2
      then have "(2 :: rat) powi (u + 24) \<le> 2 powi (w + 23)" by (intro power_int_increasing) auto
      moreover have "w \<noteq> - 149" using 2 assms(3) by auto
      ultimately show False using b(4) assms(1) by linarith
    qed
  qed
  then show ?thesis using w by simp
qed

lemma double_read_as_float:
  "getValue_float (doc_tree (YSeq [YScalar ''16777217''])) ''/0'' CHR ''/'' = (True, Finite 16777216)"
proof -
  have v: "getValueImpl (doc_tree (YSeq [YScalar ''16777217''])) ''/0'' CHR ''/'' = decimal_text False ''16777217'' []"
    by code_simp
  have d: "decimal_value False ''16777217'' [] = 16777217"
    by (simp add: decimal_value_def digits_value_def digit_value_def)
  have l: "last_bit (16777217 :: rat) = Some 1" by (rule to_float_witness) (simp_all add: power_int_def)
  have "\<lfloor>16777217 / 2 :: rat\<rfloor> = 8388608" by (simp add: floor_eq_iff)
  then have r: "round_even (16777217 / 2) = 8388608" by (simp add: round_even_def Let_def)
  have "to_float 16777217 = Finite 16777216" unfolding to_float_def l by (simp add: r Let_def)
  then show ?thesis
    by (simp add: getValue_float_def v strtof_decimal d is_digit_def digit_value_def)
qed

end
