(* ===== verification/Static_String.thy ===== *)
theory Static_String
  imports Core_Prelude
begin

text \<open>
  The strings of the message and actor names, \<^verbatim>\<open>adstutil_cxx/static_string.hpp\<close>: arrays of
  characters with a terminator that are concatenated at compile time. The number \<open>N\<close> of the class
  template is the length of the array without its terminator. Reading out of range fails the assertion in
  the index operators, which at compile time is an error: it is \<open>None\<close>.
\<close>

datatype tag = literal_ref | char_array | literal_suffix | array_suffix

record static_string =
  stag :: tag
  sarray :: string
  soffset :: nat

definition NUL :: char where
  "NUL = CHR 0x00"

definition capacity :: "static_string \<Rightarrow> nat" where
  "capacity s = length (sarray s) - 1"

text \<open>The first two specialisations have no offset; it is 0 here.\<close>

definition static_string_ok :: "static_string \<Rightarrow> bool" where
  "static_string_ok s \<longleftrightarrow> sarray s \<noteq> [] \<and> last (sarray s) = NUL \<and> soffset s \<le> capacity s \<and>
     (stag s \<in> {literal_ref, char_array} \<longrightarrow> soffset s = 0)"

definition string_size :: "static_string \<Rightarrow> nat" where
  "string_size s = (case stag s of
      literal_ref \<Rightarrow> capacity s
    | char_array \<Rightarrow> capacity s
    | literal_suffix \<Rightarrow> capacity s - soffset s
    | array_suffix \<Rightarrow> capacity s - soffset s)"

definition string_index :: "static_string \<Rightarrow> int \<Rightarrow> char option" where
  "string_index s i =
     (if 0 \<le> i \<and> i < int (string_size s) then Some (sarray s ! nat (i + int (soffset s))) else None)"

definition c_str :: "static_string \<Rightarrow> string" where
  "c_str s = takeWhile (\<lambda>c. c \<noteq> NUL) (drop (soffset s) (sarray s))"

section \<open>Construction\<close>

text \<open>\<^verbatim>\<open>literal\<close>: the array of a string literal has its terminator.\<close>

definition literal :: "string \<Rightarrow> static_string" where
  "literal lit = \<lparr>stag = literal_ref, sarray = lit @ [NUL], soffset = 0\<rparr>"

definition suffix_of :: "static_string \<Rightarrow> nat \<Rightarrow> static_string option" where
  "suffix_of l offset =
     (if offset \<le> capacity l then Some \<lparr>stag = literal_suffix, sarray = sarray l, soffset = offset\<rparr> else None)"

definition offset_literal :: "nat \<Rightarrow> string \<Rightarrow> static_string option" where
  "offset_literal offset lit =
     (if offset \<le> length lit
      then Some \<lparr>stag = char_array, sarray = map (\<lambda>i. (lit @ [NUL]) ! (i + offset)) [0..<length lit - offset] @ [NUL],
                 soffset = 0\<rparr>
      else None)"

text \<open>The conversion of a literal into an array.\<close>

definition to_array :: "static_string \<Rightarrow> static_string option" where
  "to_array l = map_option (\<lambda>cs. \<lparr>stag = char_array, sarray = cs @ [NUL], soffset = 0\<rparr>)
     (those (map (\<lambda>i. string_index l (int i)) [0..<capacity l]))"

section \<open>Concatenation\<close>

fun array_upgrade :: "tag \<Rightarrow> tag" where
  "array_upgrade literal_ref = char_array"
| "array_upgrade literal_suffix = array_suffix"
| "array_upgrade t = t"

fun select_concatenated_array_tag :: "tag \<Rightarrow> tag \<Rightarrow> tag" where
  "select_concatenated_array_tag char_array char_array = char_array"
| "select_concatenated_array_tag t u = array_suffix"

definition concat_tag :: "tag \<Rightarrow> tag \<Rightarrow> tag" where
  "concat_tag t u = select_concatenated_array_tag (array_upgrade t) (array_upgrade u)"

text \<open>
  The elements of an \<^verbatim>\<open>array_suffix\<close>: the unused capacity of both operands is moved to the
  front. \<open>m\<close> and \<open>k\<close> are the template arguments \<open>M\<close> and \<open>N - M\<close>.
\<close>

definition permute1 :: "static_string \<Rightarrow> int \<Rightarrow> int \<Rightarrow> int \<Rightarrow> int \<Rightarrow> int \<Rightarrow> char option" where
  "permute1 l m k lsize rsize i =
     (if i < m - lsize + k - rsize then Some NUL else string_index l (i - (m - lsize + k - rsize)))"

definition permute2 :: "static_string \<Rightarrow> static_string \<Rightarrow> int \<Rightarrow> int \<Rightarrow> int \<Rightarrow> int \<Rightarrow> char option" where
  "permute2 l r k lsize rsize i =
     (if i < k - rsize then string_index l (lsize - (k - rsize) + i) else string_index r (i - (k - rsize)))"

definition string_concat :: "static_string \<Rightarrow> static_string \<Rightarrow> static_string option" where
  "string_concat l r =
     (let m = capacity l; k = capacity r; lsize = string_size l; rsize = string_size r
      in if concat_tag (stag l) (stag r) = char_array
         then map_option (\<lambda>cs. \<lparr>stag = char_array, sarray = cs @ [NUL], soffset = 0\<rparr>)
                (those (map (\<lambda>i. string_index l (int i)) [0..<m] @ map (\<lambda>i. string_index r (int i)) [0..<k]))
         else map_option (\<lambda>cs. \<lparr>stag = array_suffix, sarray = cs @ [NUL], soffset = m + k - lsize - rsize\<rparr>)
                (those (map (\<lambda>i. permute1 l (int m) (int k) (int lsize) (int rsize) (int i)) [0..<m] @
                        map (\<lambda>i. permute2 l r (int k) (int lsize) (int rsize) (int i)) [0..<k])))"

section \<open>The text of a string\<close>

definition string_text :: "static_string \<Rightarrow> string" where
  "string_text s = butlast (drop (soffset s) (sarray s))"

lemma string_size_eq: "static_string_ok s \<Longrightarrow> string_size s = capacity s - soffset s"
  by (cases "stag s") (simp_all add: string_size_def static_string_ok_def)

lemma length_text: "static_string_ok s \<Longrightarrow> length (string_text s) = string_size s"
  by (simp add: string_size_eq string_text_def capacity_def)

lemma size_le_capacity: "static_string_ok s \<Longrightarrow> string_size s \<le> capacity s"
  by (simp add: string_size_eq)

lemma string_index_text:
  assumes "static_string_ok s"
  shows "string_index s i = (if 0 \<le> i \<and> i < int (string_size s) then Some (string_text s ! nat i) else None)"
proof (cases "0 \<le> i \<and> i < int (string_size s)")
  case True
  then have "nat i < string_size s" "nat (i + int (soffset s)) = soffset s + nat i" by auto
  moreover have "sarray s \<noteq> []" "soffset s \<le> capacity s" using assms by (auto simp: static_string_ok_def)
  ultimately have "string_text s ! nat i = sarray s ! nat (i + int (soffset s))"
    using string_size_eq [OF assms] by (simp add: string_text_def nth_butlast capacity_def)
  then show ?thesis using True by (simp add: string_index_def)
qed (auto simp: string_index_def)

lemma those_map_Some: "(\<And>x. x \<in> set xs \<Longrightarrow> f x = Some (g x)) \<Longrightarrow> those (map f xs) = Some (map g xs)"
  by (induction xs) auto

lemma those_append: "those (xs @ ys) = (case those xs of None \<Rightarrow> None | Some x \<Rightarrow> map_option (\<lambda>y. x @ y) (those ys))"
proof (induction xs)
  case Nil
  show ?case by (cases "those ys") auto
next
  case (Cons x xs)
  then show ?case by (cases "those ys") (auto split: option.splits)
qed

lemma those_None: "None \<in> set xs \<Longrightarrow> those xs = None"
  by (induction xs) (auto split: option.splits)

lemma read_all: "static_string_ok s \<Longrightarrow> n \<le> string_size s \<Longrightarrow>
    those (map (\<lambda>i. string_index s (int i)) [0..<n]) = Some (take n (string_text s))"
  by (subst those_map_Some [where g = "\<lambda>i. string_text s ! i"])
    (auto simp: string_index_text length_text intro!: nth_equalityI)

lemma string_text_append: "string_text \<lparr>stag = t, sarray = xs @ [c], soffset = n\<rparr> = drop n xs"
  by (simp add: string_text_def butlast_append)

lemma static_string_ok_append:
  "static_string_ok \<lparr>stag = t, sarray = xs @ [NUL], soffset = n\<rparr> \<longleftrightarrow>
     n \<le> length xs \<and> (t \<in> {literal_ref, char_array} \<longrightarrow> n = 0)"
  by (simp add: static_string_ok_def capacity_def)

lemma text_simps:
  "string_text (literal s) = s" "string_size (literal s) = length s" "static_string_ok (literal s)"
  "capacity (literal s) = length s" "stag (literal s) = literal_ref"
  by (simp_all add: literal_def string_text_def string_size_def static_string_ok_def capacity_def)

lemma c_str_text: "static_string_ok s \<Longrightarrow> NUL \<notin> set (string_text s) \<Longrightarrow> c_str s = string_text s"
proof -
  assume ok: "static_string_ok s" and n: "NUL \<notin> set (string_text s)"
  have ne: "drop (soffset s) (sarray s) \<noteq> []" using ok by (cases "sarray s") (auto simp: static_string_ok_def capacity_def)
  have "last (drop (soffset s) (sarray s)) = NUL" using ok ne by (simp add: static_string_ok_def last_drop)
  then have d: "drop (soffset s) (sarray s) = string_text s @ [NUL]"
    using append_butlast_last_id [OF ne] by (simp add: string_text_def)
  have "takeWhile (\<lambda>c. c \<noteq> NUL) (xs @ [NUL]) = xs" if "NUL \<notin> set xs" for xs
    using that by (induction xs) auto
  then show ?thesis using n unfolding c_str_def d by blast
qed

section \<open>Concatenation is concatenation of texts\<close>

text \<open>
  For suffixes the unused capacity of the right operand has to fit into the used part of the left one:
  otherwise the left operand is read at a negative index.
\<close>

definition concat_defined :: "static_string \<Rightarrow> static_string \<Rightarrow> bool" where
  "concat_defined l r \<longleftrightarrow> concat_tag (stag l) (stag r) = char_array \<or> capacity r - string_size r \<le> string_size l"

lemma concat_tag_plain: "concat_tag t u = char_array \<longleftrightarrow> t \<in> {literal_ref, char_array} \<and> u \<in> {literal_ref, char_array}"
  by (cases t; cases u) (simp_all add: concat_tag_def)

lemma string_concat_text:
  assumes l: "static_string_ok l" and r: "static_string_ok r" and d: "concat_defined l r"
  shows "\<exists>s. string_concat l r = Some s \<and> static_string_ok s \<and> string_text s = string_text l @ string_text r \<and>
    stag s = concat_tag (stag l) (stag r)"
proof (cases "concat_tag (stag l) (stag r) = char_array")
  case True
  then have "string_size l = capacity l" "string_size r = capacity r"
    by (auto simp: concat_tag_plain string_size_def)
  then have "string_concat l r =
      Some \<lparr>stag = char_array, sarray = (string_text l @ string_text r) @ [NUL], soffset = 0\<rparr>"
    using True by (simp add: string_concat_def Let_def those_append read_all l r length_text)
  then show ?thesis using True by (simp add: static_string_ok_append string_text_append del: append_assoc)
next
  case False
  let ?m = "capacity l" and ?k = "capacity r" and ?ls = "string_size l" and ?rs = "string_size r"
  have le: "?ls \<le> ?m" "?rs \<le> ?k" using size_le_capacity l r by auto
  have fit: "?k - ?rs \<le> ?ls" using d False by (simp add: concat_defined_def)
  define z where "z = ?m + ?k - ?ls - ?rs"
  have zm: "z \<le> ?m" using fit le by (simp add: z_def)
  let ?cs1 = "replicate z NUL @ take (?m - z) (string_text l)"
  let ?cs2 = "drop (?m - z) (string_text l) @ string_text r"
  have mz: "?m - z = ?ls - (?k - ?rs)" using le fit by (simp add: z_def)
  have "those (map (\<lambda>i. permute1 l (int ?m) (int ?k) (int ?ls) (int ?rs) (int i)) [0..<?m]) =
      Some (map (\<lambda>i. ?cs1 ! i) [0..<?m])"
  proof (rule those_map_Some)
    fix i assume i: "i \<in> set [0..<?m]"
    have zi: "int ?m - int ?ls + int ?k - int ?rs = int z" using le by (simp add: z_def)
    show "permute1 l (int ?m) (int ?k) (int ?ls) (int ?rs) (int i) = Some (?cs1 ! i)"
    proof (cases "i < z")
      case True
      then show ?thesis by (simp add: permute1_def zi nth_append)
    next
      case False
      then have n: "nat (int i - int z) = i - z" "i - z < ?m - z" "i - z < ?ls" using i mz le by auto
      then have "string_index l (int i - int z) = Some (string_text l ! (i - z))"
        using False by (simp add: string_index_text [OF l])
      then show ?thesis using False n(2,3) by (simp add: permute1_def zi nth_append length_text [OF l])
    qed
  qed
  moreover have "map (\<lambda>i. ?cs1 ! i) [0..<?m] = ?cs1"
    using zm mz le by (intro nth_equalityI) (simp_all add: length_text [OF l])
  moreover have "those (map (\<lambda>i. permute2 l r (int ?k) (int ?ls) (int ?rs) (int i)) [0..<?k]) =
      Some (map (\<lambda>i. ?cs2 ! i) [0..<?k])"
  proof (rule those_map_Some)
    fix i assume i: "i \<in> set [0..<?k]"
    have len: "length (drop (?m - z) (string_text l)) = ?k - ?rs" using fit by (simp add: mz length_text [OF l])
    show "permute2 l r (int ?k) (int ?ls) (int ?rs) (int i) = Some (?cs2 ! i)"
    proof (cases "i < ?k - ?rs")
      case True
      then have "nat (int ?ls - (int ?k - int ?rs) + int i) = ?m - z + i" using fit le by (simp add: mz)
      moreover have "int i < int ?k - int ?rs" using True by linarith
      ultimately show ?thesis
        using True fit le len by (simp add: permute2_def string_index_text [OF l] nth_append mz length_text [OF l])
    next
      case False
      then have "nat (int i - (int ?k - int ?rs)) = i - (?k - ?rs)" using le by simp
      moreover have "\<not> int i < int ?k - int ?rs" using False le by linarith
      ultimately show ?thesis
        using False i le len by (simp add: permute2_def string_index_text [OF r] nth_append)
    qed
  qed
  moreover have "map (\<lambda>i. ?cs2 ! i) [0..<?k] = ?cs2"
    using fit le by (intro nth_equalityI) (simp_all add: mz length_text [OF l] length_text [OF r])
  ultimately have s: "string_concat l r = Some \<lparr>stag = array_suffix,
      sarray = (replicate z NUL @ string_text l @ string_text r) @ [NUL], soffset = z\<rparr>"
    using False by (simp add: string_concat_def Let_def those_append z_def)
  have "concat_tag (stag l) (stag r) = array_suffix"
    using False by (cases "stag l"; cases "stag r") (simp_all add: concat_tag_def)
  then show ?thesis
    using s by (simp add: static_string_ok_append string_text_append del: append_assoc)
qed

lemma string_concat_undefined:
  assumes "\<not> concat_defined l r"
  shows "string_concat l r = None"
proof -
  let ?k = "capacity r" and ?ls = "string_size l" and ?rs = "string_size r"
  have c: "concat_tag (stag l) (stag r) \<noteq> char_array" and lt: "?ls < ?k - ?rs"
    using assms by (simp_all add: concat_defined_def)
  let ?f = "\<lambda>i. permute2 l r (int ?k) (int ?ls) (int ?rs) (int i)"
  have "int ?ls < int ?k - int ?rs" using lt by linarith
  then have "?f 0 = None" by (simp add: permute2_def string_index_def)
  then have "None \<in> ?f ` set [0..<?k]" using lt by (intro image_eqI [where x = 0]) simp_all
  then have "None \<in> set (map ?f [0..<?k])" by (simp only: set_map)
  then have "those (map ?f [0..<?k]) = None" by (rule those_None)
  then show ?thesis using c by (simp add: string_concat_def Let_def those_append split: option.split)
qed

section \<open>Properties\<close>

text \<open>
  C35: Concatenation at compile time: of two well-formed strings it is defined exactly if both are plain
  arrays or the unused capacity of the right one is at most the length of the left one; then it is
  well-formed, its text is the text of the left followed by the text of the right, and so is its length.
\<close>

theorem concatenation_text:
  assumes "static_string_ok l" and "static_string_ok r"
  shows "(case string_concat l r of
      None \<Rightarrow> \<not> concat_defined l r
    | Some s \<Rightarrow> concat_defined l r \<and> static_string_ok s \<and> string_text s = string_text l @ string_text r \<and>
        string_size s = string_size l + string_size r)"
proof (cases "concat_defined l r")
  case True
  from string_concat_text [OF assms True] obtain s where
    s: "string_concat l r = Some s" "static_string_ok s" "string_text s = string_text l @ string_text r" by blast
  then have "string_size s = string_size l + string_size r"
    using length_text [OF s(2)] assms by (simp add: length_text)
  then show ?thesis using s True by simp
qed (simp add: string_concat_undefined)

lemma concatenation_text_witness:
  "\<exists>s. string_concat (literal ''StartReq<'') (literal ''Root'') = Some s \<and> c_str s = ''StartReq<Root''"
proof -
  have d: "concat_defined (literal ''StartReq<'') (literal ''Root'')"
    by (simp add: concat_defined_def text_simps concat_tag_def)
  have "case string_concat (literal ''StartReq<'') (literal ''Root'') of None \<Rightarrow> False
      | Some s \<Rightarrow> static_string_ok s \<and> string_text s = ''StartReq<Root''"
    using concatenation_text [OF text_simps(3) text_simps(3), of "''StartReq<''" "''Root''"] d
    by (simp add: text_simps split: option.splits)
  then show ?thesis by (auto simp: c_str_text NUL_def split: option.splits)
qed

text \<open>
  Lemma: A short left operand in front of a suffix with much unused capacity is read out of range: there are
  well-formed operands whose concatenation is undefined, the text \<open>a\<close> before the last two characters
  of a literal of six.
\<close>

theorem concatenation_out_of_range:
  "\<exists>r. suffix_of (literal ''abcdef'') 4 = Some r \<and> static_string_ok r \<and> string_text r = ''ef'' \<and>
     string_concat (literal ''a'') r = None"
proof -
  let ?r = "\<lparr>stag = literal_suffix, sarray = ''abcdef'' @ [NUL], soffset = 4\<rparr>"
  have "capacity ?r = 6" "string_size ?r = 2" by (simp_all add: string_size_def capacity_def)
  then have "\<not> concat_defined (literal ''a'') ?r"
    by (simp add: concat_defined_def concat_tag_def text_simps)
  then have "string_concat (literal ''a'') ?r = None" by (rule string_concat_undefined)
  then show ?thesis
    by (intro exI [of _ ?r]) (simp add: suffix_of_def literal_def capacity_def static_string_ok_def string_text_def)
qed

end
