(* ===== verification/Raw_Strings.thy ===== *)
theory Raw_Strings
  imports Static_String
begin

text \<open>
  The rest of \<^verbatim>\<open>adstutil_cxx/static_string.hpp\<close>: the concatenations with a raw literal
  on one side, which choose the type of their result without \<^verbatim>\<open>concat_tag\<close>, and the
  constructors of suffixes. A constructor that does not exist, or with too many initialisers, is \<open>None\<close>.
\<close>

section \<open>The constructor that concatenates\<close>

text \<open>\<open>t\<close> is the second template argument of the class whose constructor is called.\<close>

definition concat_ctor :: "tag \<Rightarrow> static_string \<Rightarrow> static_string \<Rightarrow> nat \<Rightarrow> nat \<Rightarrow> static_string option" where
  "concat_ctor t l r lsize rsize = (let m = capacity l; k = capacity r in case t of
       char_array \<Rightarrow> map_option (\<lambda>cs. \<lparr>stag = char_array, sarray = cs @ [NUL], soffset = 0\<rparr>)
         (those (map (\<lambda>i. string_index l (int i)) [0..<m] @ map (\<lambda>i. string_index r (int i)) [0..<k]))
     | array_suffix \<Rightarrow> map_option (\<lambda>cs. \<lparr>stag = array_suffix, sarray = cs @ [NUL], soffset = m + k - lsize - rsize\<rparr>)
         (those (map (\<lambda>i. permute1 l (int m) (int k) (int lsize) (int rsize) (int i)) [0..<m] @
                 map (\<lambda>i. permute2 l r (int k) (int lsize) (int rsize) (int i)) [0..<k]))
     | _ \<Rightarrow> None)"

definition raw_concat_left :: "string \<Rightarrow> static_string \<Rightarrow> static_string option" where
  "raw_concat_left l r = concat_ctor (array_upgrade (stag r)) (literal l) r (length l) (string_size r)"

definition raw_concat_right :: "static_string \<Rightarrow> string \<Rightarrow> static_string option" where
  "raw_concat_right l r = concat_ctor (array_upgrade (stag l)) l (literal r) (string_size l) (length r)"

section \<open>Constructors of suffixes\<close>

definition literal_suffix_ctor :: "string \<Rightarrow> nat \<Rightarrow> static_string option" where
  "literal_suffix_ctor lit offset =
     (if offset \<le> length lit then Some \<lparr>stag = literal_suffix, sarray = lit @ [NUL], soffset = offset\<rparr> else None)"

text \<open>The conversion of a literal, and the constructor for a literal from an offset on.\<close>

definition to_array_suffix :: "static_string \<Rightarrow> static_string option" where
  "to_array_suffix l = map_option (\<lambda>cs. \<lparr>stag = array_suffix, sarray = cs @ [NUL], soffset = 0\<rparr>)
     (those (map (\<lambda>i. string_index l (int i)) [0..<capacity l]))"

definition array_suffix_from :: "nat \<Rightarrow> nat \<Rightarrow> string \<Rightarrow> static_string option" where
  "array_suffix_from N from_offset lit =
     (if from_offset \<le> length lit \<and> length lit - from_offset \<le> N
      then Some \<lparr>stag = array_suffix,
        sarray = map (\<lambda>i. (lit @ [NUL]) ! (i + from_offset)) [0..<length lit - from_offset] @ [NUL] @
          replicate (N - (length lit - from_offset)) NUL, soffset = from_offset\<rparr>
      else None)"

section \<open>Properties\<close>

lemma concat_tag_literal:
  "concat_tag literal_ref t = array_upgrade t" "concat_tag t literal_ref = array_upgrade t"
  by (cases t; simp add: concat_tag_def)+

lemma array_upgrade_cases: "array_upgrade t = char_array \<or> array_upgrade t = array_suffix"
  by (cases t) simp_all

lemma concat_ctor_eq:
  assumes "concat_tag (stag l) (stag r) = t"
  shows "concat_ctor t l r (string_size l) (string_size r) = string_concat l r"
proof -
  have "t = char_array \<or> t = array_suffix"
    using assms unfolding concat_tag_def by (cases "stag l"; cases "stag r") auto
  then show ?thesis using assms by (auto simp: concat_ctor_def string_concat_def Let_def)
qed

text \<open>
  Lemma: a raw literal behaves like a \<^verbatim>\<open>string_literal\<close> in concatenations: the operators for
  raw literals on the left and on the right, which compute type and length of their result on their own, give
  the result of the general operator.
\<close>

theorem raw_literal_concatenation:
  "raw_concat_left lit s = string_concat (literal lit) s \<and> raw_concat_right s lit = string_concat s (literal lit)"
  using concat_ctor_eq [of "literal lit" s "array_upgrade (stag s)"] concat_ctor_eq [of s "literal lit" "array_upgrade (stag s)"]
  by (simp add: raw_concat_left_def raw_concat_right_def text_simps concat_tag_literal)

text \<open>
  Lemma: the constructor of a suffix from an offset on counts the offset twice: with the capacity that just
  holds the rest of the literal, the result is well-formed only if the offset fits twice into the literal, and
  then its text lacks twice as many characters.
\<close>

lemma suffix_offset_twice:
  assumes "k \<le> length lit" and "N = length lit - k"
  shows "\<exists>s. array_suffix_from N k lit = Some s \<and> (static_string_ok s \<longleftrightarrow> 2 * k \<le> length lit) \<and>
    string_text s = drop (2 * k) lit"
proof -
  have "map (\<lambda>i. (lit @ [NUL]) ! (i + k)) [0..<length lit - k] = drop k lit"
    by (rule nth_equalityI) (auto simp: nth_append add.commute less_diff_conv)
  then have "array_suffix_from N k lit = Some \<lparr>stag = array_suffix, sarray = drop k lit @ [NUL], soffset = k\<rparr>"
    using assms by (simp add: array_suffix_from_def)
  then show ?thesis
    using assms(1) by (auto simp: static_string_ok_append string_text_append mult_2)
qed

end
