(* ===== verification/String_Members.thy ===== *)
theory String_Members
  imports Raw_Strings
begin

text \<open>
  The member functions of \<^verbatim>\<open>adstutil_cxx/static_string.hpp\<close> class by class. Each of the
  four classes has its own \<^verbatim>\<open>size\<close>, \<^verbatim>\<open>c_str\<close> and
  \<^verbatim>\<open>operator[]\<close>; \<^verbatim>\<open>Static_String\<close> has one function for all of them, and
  here they are shown to agree. Furthermore the operator that concatenates, and two parts that this repository
  does not compile: the sequences of indices, for compilers without \<^verbatim>\<open>std::integer_sequence\<close>, and
  the conversions to strings of the standard library, which a macro turns on.
\<close>

section \<open>Sequences of indices\<close>

definition cat :: "nat \<Rightarrow> nat list \<Rightarrow> nat list" where
  "cat i Is = Is @ [i]"

fun make_int_sequence_ctor :: "nat \<Rightarrow> nat list" where
  "make_int_sequence_ctor 0 = []"
| "make_int_sequence_ctor (Suc i) = cat i (make_int_sequence_ctor i)"

lemma make_int_sequence_upt: "make_int_sequence_ctor n = [0..<n]"
  by (induction n) (simp_all add: cat_def)

section \<open>Strings that refer to a literal\<close>

text \<open>The array that is referred to is given with its last element, which the assertion looks at.\<close>

definition literal_ref_ctor :: "string \<Rightarrow> static_string option" where
  "literal_ref_ctor arr = (if last arr = NUL then Some \<lparr>stag = literal_ref, sarray = arr, soffset = 0\<rparr> else None)"

definition literal_ref_index :: "static_string \<Rightarrow> int \<Rightarrow> char option" where
  "literal_ref_index s i = (if 0 \<le> i \<and> i < int (capacity s) then Some (sarray s ! nat i) else None)"

definition literal_ref_size :: "static_string \<Rightarrow> nat" where
  "literal_ref_size s = capacity s"

definition literal_ref_c_str :: "static_string \<Rightarrow> string" where
  "literal_ref_c_str s = takeWhile (\<lambda>c. c \<noteq> NUL) (sarray s)"

section \<open>Arrays\<close>

definition char_array_index :: "static_string \<Rightarrow> int \<Rightarrow> char option" where
  "char_array_index s i = (if 0 \<le> i \<and> i < int (capacity s) then Some (sarray s ! nat i) else None)"

definition char_array_size :: "static_string \<Rightarrow> nat" where
  "char_array_size s = capacity s"

definition char_array_c_str :: "static_string \<Rightarrow> string" where
  "char_array_c_str s = takeWhile (\<lambda>c. c \<noteq> NUL) (sarray s)"

text \<open>The array that the private constructor makes of a sequence of indices.\<close>

definition char_array_ctor :: "(int \<Rightarrow> char option) \<Rightarrow> nat list \<Rightarrow> int \<Rightarrow> static_string option" where
  "char_array_ctor l Il offset =
     map_option (\<lambda>cs. \<lparr>stag = char_array, sarray = cs @ [NUL], soffset = 0\<rparr>) (those (map (\<lambda>i. l (int i + offset)) Il))"

section \<open>Suffixes of literals\<close>

definition literal_suffix_whole :: "string \<Rightarrow> static_string option" where
  "literal_suffix_whole arr = (if last arr = NUL then Some \<lparr>stag = literal_suffix, sarray = arr, soffset = 0\<rparr> else None)"

definition literal_suffix_index :: "static_string \<Rightarrow> int \<Rightarrow> char option" where
  "literal_suffix_index s i =
     (if 0 \<le> i \<and> i < int (capacity s - soffset s) then Some (sarray s ! nat (i + int (soffset s))) else None)"

definition literal_suffix_size :: "static_string \<Rightarrow> nat" where
  "literal_suffix_size s = capacity s - soffset s"

definition literal_suffix_c_str :: "static_string \<Rightarrow> string" where
  "literal_suffix_c_str s = takeWhile (\<lambda>c. c \<noteq> NUL) (drop (soffset s) (sarray s))"

section \<open>Strings of the standard library\<close>

text \<open>
  \<^verbatim>\<open>std::string(c_str(), size())\<close> and the views: characters behind a terminator are kept, unlike
  with \<^verbatim>\<open>c_str\<close>.
\<close>

definition to_std_string :: "static_string \<Rightarrow> string" where
  "to_std_string s = take (string_size s) (drop (soffset s) (sarray s))"

section \<open>The operator that concatenates\<close>

definition string_plus :: "static_string \<Rightarrow> static_string \<Rightarrow> static_string option" where
  "string_plus l r = concat_ctor (concat_tag (stag l) (stag r)) l r (string_size l) (string_size r)"

section \<open>Agreement\<close>

lemma literal_ref_members:
  assumes "static_string_ok s" and "stag s = literal_ref"
  shows "string_index s i = literal_ref_index s i" "string_size s = literal_ref_size s" "c_str s = literal_ref_c_str s"
  using assms by (simp_all add: static_string_ok_def string_index_def string_size_def c_str_def literal_ref_index_def
      literal_ref_size_def literal_ref_c_str_def)

lemma char_array_members:
  assumes "static_string_ok s" and "stag s = char_array"
  shows "string_index s i = char_array_index s i" "string_size s = char_array_size s" "c_str s = char_array_c_str s"
  using assms by (simp_all add: static_string_ok_def string_index_def string_size_def c_str_def char_array_index_def
      char_array_size_def char_array_c_str_def)

lemma literal_suffix_members:
  assumes "stag s = literal_suffix"
  shows "string_index s i = literal_suffix_index s i" "string_size s = literal_suffix_size s" "c_str s = literal_suffix_c_str s"
  using assms by (simp_all add: string_index_def string_size_def c_str_def literal_suffix_index_def
      literal_suffix_size_def literal_suffix_c_str_def)

lemma literal_is_ctor: "literal_ref_ctor (lit @ [NUL]) = Some (literal lit)"
  by (simp add: literal_ref_ctor_def literal_def)

lemma to_array_is_ctor: "to_array l = char_array_ctor (string_index l) (make_int_sequence_ctor (capacity l)) 0"
  by (simp add: to_array_def char_array_ctor_def make_int_sequence_upt)

lemma offset_literal_is_ctor:
  assumes "k \<le> length lit"
  shows "offset_literal k lit =
    char_array_ctor (\<lambda>i. Some ((lit @ [NUL]) ! nat i)) (make_int_sequence_ctor (length lit - k)) (int k)"
proof -
  have "those (map (\<lambda>i. Some ((lit @ [NUL]) ! nat (int i + int k))) [0..<length lit - k]) =
      Some (map (\<lambda>i. (lit @ [NUL]) ! (i + k)) [0..<length lit - k])"
    by (rule those_map_Some) (simp add: nat_add_distrib)
  then show ?thesis using assms by (simp add: offset_literal_def char_array_ctor_def make_int_sequence_upt)
qed

lemma string_plus_eq: "string_plus l r = string_concat l r"
  unfolding string_plus_def by (rule concat_ctor_eq) simp

lemma to_std_string_text: "static_string_ok s \<Longrightarrow> to_std_string s = string_text s"
  by (simp add: to_std_string_def string_text_def string_size_eq capacity_def butlast_conv_take)

text \<open>
  Lemma: of two strings that can be concatenated, the conversion of the result is the conversion of the
  operands, one after the other.
\<close>

theorem std_string_concat:
  assumes "static_string_ok l" and "static_string_ok r" and "concat_defined l r"
  shows "\<exists>s. string_plus l r = Some s \<and> static_string_ok s \<and> to_std_string s = to_std_string l @ to_std_string r"
  using string_concat_text [OF assms] assms(1,2) by (auto simp: string_plus_eq to_std_string_text)

lemma std_string_concat_witness:
  "\<exists>s. string_plus (literal ''StartCnf<'') (literal ''A'') = Some s \<and> to_std_string s = ''StartCnf<A''"
  using std_string_concat [OF text_simps(3) text_simps(3), of "''StartCnf<''" "''A''"]
  by (auto simp: concat_defined_def text_simps concat_tag_def to_std_string_text)

end
