(* ===== verification/Type_Ids.thy ===== *)
theory Type_Ids
  imports Core_Messages
begin

text \<open>
  Why the other theories may take a message type for its id: \<^verbatim>\<open>adstutil_cxx/type_id.hpp\<close>.
  The id of a type is the address of the instance of a function template for it, and
  \<^verbatim>\<open>std::map\<close> compares ids by the order of the addresses only. That two instances have different
  addresses is what the language promises of functions; the addresses are a parameter.
\<close>

datatype type_id_t = type_id_t (id_of: nat)

definition type_id_eq :: "type_id_t \<Rightarrow> type_id_t \<Rightarrow> bool" where
  "type_id_eq lhs rhs \<longleftrightarrow> id_of lhs = id_of rhs"

definition type_id_neq :: "type_id_t \<Rightarrow> type_id_t \<Rightarrow> bool" where
  "type_id_neq lhs rhs \<longleftrightarrow> id_of lhs \<noteq> id_of rhs"

definition type_id_less :: "type_id_t \<Rightarrow> type_id_t \<Rightarrow> bool" where
  "type_id_less lhs rhs \<longleftrightarrow> id_of lhs < id_of rhs"

definition type_id_at :: "('m \<Rightarrow> nat) \<Rightarrow> 'm \<Rightarrow> type_id_t" where
  "type_id_at address m = type_id_t (address m)"

text \<open>The order makes the ids fit for keys of a map.\<close>

instantiation type_id_t :: linorder
begin

definition less_type_id_t :: "type_id_t \<Rightarrow> type_id_t \<Rightarrow> bool" where
  "less_type_id_t a b \<longleftrightarrow> type_id_less a b"

definition less_eq_type_id_t :: "type_id_t \<Rightarrow> type_id_t \<Rightarrow> bool" where
  "less_eq_type_id_t a b \<longleftrightarrow> type_id_less a b \<or> type_id_eq a b"

instance
  by standard (auto simp: less_type_id_t_def less_eq_type_id_t_def type_id_less_def type_id_eq_def type_id_t.expand)

end

lemma type_id_ops: "type_id_eq a b \<longleftrightarrow> a = b" "type_id_neq a b \<longleftrightarrow> a \<noteq> b" "type_id_less a b \<longleftrightarrow> a < b"
  by (auto simp: type_id_eq_def type_id_neq_def less_type_id_t_def type_id_t.expand)

text \<open>
  Two keys of a \<^verbatim>\<open>std::map\<close> are the same if neither is less than the other; an entry is
  looked up by this.
\<close>

fun id_map_find :: "(type_id_t \<times> 'v) list \<Rightarrow> type_id_t \<Rightarrow> 'v option" where
  "id_map_find [] k = None"
| "id_map_find ((k', v) # es) k = (if \<not> type_id_less k k' \<and> \<not> type_id_less k' k then Some v else id_map_find es k)"

text \<open>
  Lemma: a table of callbacks that is keyed by type ids is a table keyed by types: with distinct addresses, what
  is found under the id of a type is what was put there for the type.
\<close>

theorem type_table_lookup:
  assumes "inj address"
  shows "id_map_find (map (\<lambda>(m, v). (type_id_at address m, v)) es) (type_id_at address m) = map_of es m \<and>
    (type_id_eq (type_id_at address m) (type_id_at address m') \<longleftrightarrow> type_id m = type_id m')"
proof
  have same: "\<not> type_id_less (type_id_at address m) (type_id_at address x) \<and>
      \<not> type_id_less (type_id_at address x) (type_id_at address m) \<longleftrightarrow> x = m" for x
    using injD [OF assms, of x m] by (auto simp: type_id_less_def type_id_at_def not_less)
  show "id_map_find (map (\<lambda>(m, v). (type_id_at address m, v)) es) (type_id_at address m) = map_of es m"
  proof (induction es)
    case (Cons e es)
    then show ?case using same [of "fst e"] by (cases e) auto
  qed simp
  show "type_id_eq (type_id_at address m) (type_id_at address m') \<longleftrightarrow> type_id m = type_id m'"
    using injD [OF assms, of m m'] by (auto simp: type_id_eq_def type_id_at_def)
qed

lemma type_table_lookup_witness:
  "id_map_find [(type_id_at (\<lambda>m. case m of Stop \<Rightarrow> 0 | StartReq a \<Rightarrow> 7 * Suc a | StartCnf a \<Rightarrow> 7 * a + 1 | StopReq a \<Rightarrow> 7 * a + 2
       | StopCnf a \<Rightarrow> 7 * a + 3 | PrivStartCnf a \<Rightarrow> 7 * a + 4 | PrivStopCnf a \<Rightarrow> 7 * a + 5 | User u \<Rightarrow> 7 * u + 6)
       (StartReq 1 :: (nat, nat) msg_type), ''a'')]
     (type_id_at (\<lambda>m. case m of Stop \<Rightarrow> 0 | StartReq a \<Rightarrow> 7 * Suc a | StartCnf a \<Rightarrow> 7 * a + 1 | StopReq a \<Rightarrow> 7 * a + 2
       | StopCnf a \<Rightarrow> 7 * a + 3 | PrivStartCnf a \<Rightarrow> 7 * a + 4 | PrivStopCnf a \<Rightarrow> 7 * a + 5 | User u \<Rightarrow> 7 * u + 6)
       (StartReq 1 :: (nat, nat) msg_type)) = Some ''a''"
proof -
  let ?ad = "\<lambda>m :: (nat, nat) msg_type. case m of Stop \<Rightarrow> 0 | StartReq a \<Rightarrow> 7 * Suc a | StartCnf a \<Rightarrow> 7 * a + 1
       | StopReq a \<Rightarrow> 7 * a + 2 | StopCnf a \<Rightarrow> 7 * a + 3 | PrivStartCnf a \<Rightarrow> 7 * a + 4 | PrivStopCnf a \<Rightarrow> 7 * a + 5
       | User u \<Rightarrow> 7 * u + 6"
  have "inj ?ad" by (rule injI) (simp split: msg_type.splits; presburger)
  from type_table_lookup [OF this, of "[(StartReq 1, ''a'')]" "StartReq 1"] show ?thesis by simp
qed

end
