(* ===== verification/Spec2Isabelle.thy ===== *)
theory Spec2Isabelle
  imports Core_Whole Race_Freedom Gateway Sml_Actor
    Application_Setup Yaml_Types Yaml_Floats String_Members Type_Ids
begin

text \<open>
  A model of the actor runtime of the someip_cyclone_dds_bridge repository and of the libraries around it,
  with the theorems that say what makes it correct. All paths are below \<^verbatim>\<open>src/\<close>.

  \<^bold>\<open>The program.\<close> A \<^verbatim>\<open>Core\<close> owns one \<^verbatim>\<open>Environment\<close>, that is one
  \<^verbatim>\<open>Priority\<close> (a pool of dispatcher threads with a queue of callbacks) and one
  \<^verbatim>\<open>Network\<close> (a table from message types to ports), and a root \<^verbatim>\<open>Actor\<close>, which
  creates its children. Every actor has a queue of callbacks and one \<^verbatim>\<open>Port\<close>, which has a queue
  of messages and a queue of listen and unlisten commands. A message that an actor publishes is put by the
  network into every port registered for its type; the port schedules itself on its actor, the actor schedules
  itself on the priority; a dispatcher executes the actor, which executes the port, which calls the callbacks.
  A tree of actors is started and stopped by messages that travel down the tree and confirmations that travel
  up; \<^verbatim>\<open>Core::run\<close> blocks until the root has confirmed its stop.

  \<^bold>\<open>How it is modelled.\<close> A thread is an element of a list of program counters. What a thread does
  while it holds a mutex is one step, and so is what it does between two locks that others can see; a step is a
  total function on the state, and a system is the set of states reached by any interleaving of steps, spurious
  wake-ups included. A condition variable is the flag that a waiting thread carries: whether it has been
  notified. Errors are values of a sum; the error callback of the program (\<open>handler\<close>) is the predicate
  that says for which errors it returns, and \<open>obeys_contract\<close> is its documentation, that it never
  does. Undefined behaviour, such as the front of an empty queue, is a value as well. Closures are data with a
  function that says what they do. Ghost components of the states (logs, counters of calls) are read by no
  operation.

  \<^bold>\<open>Theories.\<close>

  \<^item> \<^verbatim>\<open>Core_Prelude\<close>: counting in lists of threads, association lists.
  \<^item> \<^verbatim>\<open>Core_Errors\<close>: \<^verbatim>\<open>adstutil_cxx/error_handler.hpp\<close> and \<^verbatim>\<open>.cpp\<close>.
  \<^item> \<^verbatim>\<open>Priority_Dispatch\<close>: \<^verbatim>\<open>rapi_core/src/priority.cpp\<close> and
    \<^verbatim>\<open>priority.hpp\<close>; the dispatcher loop, \<^verbatim>\<open>start\<close>,
    \<^verbatim>\<open>stop\<close>, \<^verbatim>\<open>waitForIdle\<close>, \<^verbatim>\<open>schedule\<close> and the
    destructor. \<^verbatim>\<open>Priority_Invariants\<close>: what the counters count, that a sleeping dispatcher
    has been notified when there is work, which states of the threads go with which state of the level.
    \<^verbatim>\<open>Priority_Progress\<close>: the waits end, by a measure, in a locale for a phase of the
    dispatchers that is interpreted for start, stop and join. \<^verbatim>\<open>Priority_Refinement\<close>: the
    abstract executor (one queue, first in first out, workers) that the level implements.
    \<^verbatim>\<open>Priority_Properties\<close>. One client calls start, waitForIdle, stop and the destructor; the
    calls of a second thread while the client is inside one are in the theorem on errors.
  \<^item> \<^verbatim>\<open>Handshake\<close>: the protocol of the flag \<^verbatim>\<open>scheduled_\<close>, shared by ports
    and actors, as a locale with the two facts that matter, exclusion and no lost work.
  \<^item> \<^verbatim>\<open>Actor_Queue\<close>, \<^verbatim>\<open>Actor_Queue_Properties\<close>:
    \<^verbatim>\<open>rapi_core/src/actor.cpp\<close>; \<^verbatim>\<open>schedule\<close>, \<^verbatim>\<open>consume\<close>,
    \<^verbatim>\<open>ctorFinished\<close>, \<^verbatim>\<open>waitForReadyToDtor\<close>. Interprets the handshake.
  \<^item> \<^verbatim>\<open>Callback_Store\<close>: \<^verbatim>\<open>core/impl/async_call_back_vector.hpp\<close>; the contract
    of a container of callbacks as a locale.
  \<^item> \<^verbatim>\<open>Port_Queue\<close>, \<^verbatim>\<open>Port_Invariants\<close>,
    \<^verbatim>\<open>Port_Properties\<close>, \<^verbatim>\<open>Port_Notify\<close>:
    \<^verbatim>\<open>rapi_core/include/core/port.hpp\<close> and \<^verbatim>\<open>src/port.cpp\<close>. Interprets the
    handshake; commands take effect in the order of issue and before the events that came after them.
  \<^item> \<^verbatim>\<open>Network_Broadcast\<close>: \<^verbatim>\<open>rapi_core/include/core/network.hpp\<close>.
  \<^item> \<^verbatim>\<open>Runtime_System\<close>, \<^verbatim>\<open>Runtime_Invariants\<close>,
    \<^verbatim>\<open>Runtime_Properties\<close>, \<^verbatim>\<open>Runtime_Progress\<close>: the ports, the actors and
    the priority as one system, in which the
    parameters of the single models are the operations of the others. The invariant says where every token is:
    a scheduled port is in the queue of its actor or executed, a scheduled actor is in the queue of the priority
    or executed. With it: idle and stopped mean that everything has been handled, an actor is on one dispatcher
    at a time, dispatchers are never stuck, calls from callbacks never fail, and without new calls the runtime
    comes to rest, by a measure, with everything handled.
  \<^item> \<^verbatim>\<open>Runtime_Destruction\<close>: the destructor of the core against the runtime: the tree of actors
    (\<^verbatim>\<open>~ActorLifeCycle\<close>, and the members of an actor in their order), the network, and the
    priority. After a stop it waits for no actor, nobody else touches what it destroys, and it ends.
  \<^item> \<^verbatim>\<open>Core_Run\<close>: \<^verbatim>\<open>rapi_core/src/core.cpp\<close>; \<^verbatim>\<open>Core::run\<close>
    with the callback of the core, on top of the priority: once the stop is confirmed, every way on leads to
    the return of \<^verbatim>\<open>run\<close>, unless the stop is confirmed a second time.
    \<^verbatim>\<open>Core_Whole\<close>: the same on top of the whole runtime, with the priority in common: a
    state of the whole is a state of \<^verbatim>\<open>Runtime_System\<close> and one of
    \<^verbatim>\<open>Core_Run\<close>, the callback of the core is part of an event, and both parts are reachable
    on their own. The start request comes after all listens, and a run ends with a core that can be destroyed.
  \<^item> \<^verbatim>\<open>Lock_Order\<close>: every function that takes a mutex as its sequence of lock and unlock
    operations, with the wait of \<^verbatim>\<open>Priority::stop\<close> for the dispatchers; a locale for mutexes
    with ranks and one mutex that is kept during the wait, interpreted on the program: the only deadlock is
    the one in which \<^verbatim>\<open>Core::run\<close> waits in the stop and a dispatcher wants
    \<^verbatim>\<open>stopMutex_\<close>.
    \<^verbatim>\<open>Race_Freedom\<close>: the same functions with the members they read and write; a locale for
    members with mutexes, interpreted on the program: the only data races are those of the trace in
    \<^verbatim>\<open>Port::consume\<close>, which reads the queues without their mutex. Erasing the accesses gives the sequences of
    \<^verbatim>\<open>Lock_Order\<close>.
  \<^item> \<^verbatim>\<open>Core_Messages\<close>, \<^verbatim>\<open>Actor_Object\<close>,
    \<^verbatim>\<open>Actor_Object_Properties\<close>: \<^verbatim>\<open>message.hpp\<close>, \<^verbatim>\<open>actor.hpp\<close>,
    \<^verbatim>\<open>core/impl/actor_life_cycle.hpp\<close>; publish, listen, unlisten, children, and the handlers of
    the life cycle, as functions from the fields of an actor to new fields and effects. The callbacks of the
    application are scripts of such operations. The order in which the implementation iterates over its hash
    maps (children, callbacks of a port) is a parameter, \<open>implementation\<close>, of which only \<open>iterates\<close> is
    assumed: each element once. \<^verbatim>\<open>Type_Ids\<close>: the ids of message types as addresses
    with an order, and why the other theories may use the types themselves.
  \<^item> \<^verbatim>\<open>Life_Cycle_System\<close>: actors with ports and network above the level of threads, where a
    step is the handling of one message or one effect; the same parameter gives the order of the callbacks. \<^verbatim>\<open>Life_Cycle_Protocol\<close> is the invariant
    of a start or a stop, stated once for both, \<^verbatim>\<open>Life_Cycle_Progress\<close> its measure,
    \<^verbatim>\<open>Life_Cycle_Sample\<close> evaluates small runs, \<^verbatim>\<open>Life_Cycle_Properties\<close>
    the theorems on start and stop. What \<^verbatim>\<open>Runtime_Properties\<close> shows of
    \<^verbatim>\<open>waitForIdle\<close> is why the system starts with all listens executed.
  \<^item> \<^verbatim>\<open>Sml_Actor\<close>: \<^verbatim>\<open>sml_actor/include/sml_actor/sml_actor.hpp\<close>; boost::sml is
    the list of events of a transition table.
  \<^item> \<^verbatim>\<open>Yaml_Tree\<close>, \<^verbatim>\<open>Yaml_Parse\<close>, \<^verbatim>\<open>Yaml_Types\<close>,
    \<^verbatim>\<open>Yaml_Numbers\<close>, \<^verbatim>\<open>Yaml_Wrapper\<close>, \<^verbatim>\<open>Yaml_Properties\<close>,
    \<^verbatim>\<open>Yaml_Floats\<close>: \<^verbatim>\<open>common/cxx/config_cxx\<close>; libyaml is the list of events
    it delivers; the conversions of the C library (\<^verbatim>\<open>strtol\<close>, \<^verbatim>\<open>strtoul\<close>,
    \<^verbatim>\<open>strtof\<close>) are functions.
    \<^verbatim>\<open>Logger_Setup\<close>: \<^verbatim>\<open>common/cxx/adstlog_cxx\<close>; P7 is what it creates and finds.
    \<^verbatim>\<open>Application_Setup\<close>: \<^verbatim>\<open>config.hpp\<close>, \<^verbatim>\<open>config_and_logger.hpp\<close>
    and the signal handling of \<^verbatim>\<open>adstlog.cpp\<close>; which signals the crash handler of P7 takes is
    a parameter.
  \<^item> \<^verbatim>\<open>Static_String\<close>, \<^verbatim>\<open>Raw_Strings\<close>, \<^verbatim>\<open>String_Members\<close>:
    \<^verbatim>\<open>adstutil_cxx/static_string.hpp\<close>.
  \<^item> \<^verbatim>\<open>Gateway\<close>: \<^verbatim>\<open>apps/gateway/src/main.cpp\<close>,
    \<^verbatim>\<open>components/gw_system\<close>, \<^verbatim>\<open>environment.hpp\<close>.

  \<^bold>\<open>Bounds.\<close> The number of dispatchers, of actors and of callbacks is arbitrary everywhere. The
  handlers of the life cycle loop over the lists of public callbacks, which the callbacks may change: they take
  fuel and return \<open>NoFuel\<close> when it ends; actors without such callbacks, which is what the theorems on
  start and stop are about, need none. A start takes at most \<open>2 * N * (N + 2)\<close> steps for \<open>N\<close>
  actors, a stop two more: each actor handles one request and one confirmation per child and publishes at most
  one request per child and two confirmations. The waits of \<^verbatim>\<open>start\<close> and
  \<^verbatim>\<open>stop\<close> end after a number of dispatcher sections that the measures of
  \<^verbatim>\<open>Priority_Progress\<close> give. The bound of \<^verbatim>\<open>Port::consume\<close> is
  \<open>int_max\<close> where the actor calls it and arbitrary in the theory of the port.

  \<^bold>\<open>Restrictions shown to be needed.\<close> Only callbacks schedule while the level is idle or
  stopping (otherwise the wait for idle returns with work left, and the stop may hang:
  \<^verbatim>\<open>Priority_Properties\<close>); one \<^verbatim>\<open>Stop\<close> message (a second one hangs
  \<^verbatim>\<open>Core::run\<close>: \<^verbatim>\<open>Core_Run\<close>), and not before the start has finished, and
  children of different types (\<^verbatim>\<open>Life_Cycle_Properties\<close>); a run before the destruction
  (\<^verbatim>\<open>Runtime_Properties\<close>); no \<^verbatim>\<open>notify\<close>
  (\<^verbatim>\<open>Port_Notify\<close>); one call of \<^verbatim>\<open>ctorFinished\<close>
  (\<^verbatim>\<open>Actor_Queue_Properties\<close>).

  \<^bold>\<open>Not modelled.\<close> Traces and the macros that write them, thread names and the numbers of
  threads, which nothing reads; but the trace that reads the queues of a port without their mutex is in
  \<^verbatim>\<open>Race_Freedom\<close>. The overflow of the handle counters is undefined behaviour: the counters of
  the network and of a port have no next handle then (\<open>next_handle\<close>), and in \<^verbatim>\<open>Actor_Object\<close>
  an actor is assumed to draw fewer than 2 to the power of 31 handles. That the order of a hash map is a
  function of its elements in the order of insertion leaves out that it may also depend on elements that
  were removed. The sign of a floating point zero. The order between an initialisation in a
  constructor, or the first line of \<^verbatim>\<open>Core::run\<close>, and the later accesses of other threads, which
  comes from the start of the threads and not from a mutex. Destruction while the priority runs, in the runtime,
  beyond the fact that it waits. The payload of messages, in the system of actors.
  Pragmas, helpers of the tests, and the tests.
\<close>

end
